(* ===== verification/Prelude.thy ===== *)
theory Prelude
  imports "HOL-Library.Word"
begin

text \<open>
  Shared vocabulary of the development: the C integer types of \<^verbatim>\<open>types.h\<close> as machine
  words, byte memories, what a C pointer sees of a memory, C strings, and the induction
  rules over 32-bit loop counters that the component theories use.
\<close>

unbundle bit_operations_syntax

section \<open>Machine types\<close>

type_synonym u8 = "8 word"
type_synonym u16 = "16 word"
type_synonym u32 = "32 word"

text \<open>
  A byte memory maps 32-bit addresses to bytes. A C pointer to bytes is read as the function
  \<open>i \<mapsto> p[i]\<close>; index arithmetic wraps at 32 bits as the address arithmetic of the
  machine does.
\<close>

type_synonym bytes = "u32 \<Rightarrow> u8"

text \<open>What goes wrong when code leaves the behaviour the language defines.\<close>

datatype fault = DivByZero | OutOfBounds | PageFault

section \<open>Collections\<close>

named_theorems loop_unfold \<open>unfolding equations of loop functions (not simp rules)\<close>
named_theorems frame_simps \<open>fields an operation leaves alone\<close>
named_theorems const_defs \<open>definitions of the source's macro constants\<close>

section \<open>Pointers into a byte memory\<close>

definition view :: "bytes \<Rightarrow> u32 \<Rightarrow> bytes" where
  "view m p = (\<lambda>i. m (p + i))"

definition place :: "u32 \<Rightarrow> bytes \<Rightarrow> bytes" where
  "place p v = (\<lambda>a. v (a - p))"

lemma view_apply [simp]: "view m p i = m (p + i)"
  by (simp add: view_def)

lemma place_apply [simp]: "place p v a = v (a - p)"
  by (simp add: place_def)

lemma view_place [simp]: "view (place p v) p = v"
  by (simp add: fun_eq_iff)

lemma place_view [simp]: "place p (view m p) = m"
  by (simp add: fun_eq_iff)

lemma view_view [simp]: "view (view m p) q = view m (p + q)"
  by (simp add: fun_eq_iff add.assoc)

lemma place_upd: "place p (v(i := x)) = (place p v)(p + i := x)"
  by (auto simp: fun_eq_iff)

text \<open>A little-endian 32-bit load and store.\<close>

definition load32 :: "bytes \<Rightarrow> u32 \<Rightarrow> u32" where
  "load32 m a = ucast (m a) OR push_bit 8 (ucast (m (a + 1)))
     OR push_bit 16 (ucast (m (a + 2))) OR push_bit 24 (ucast (m (a + 3)))"

section \<open>Counting loops over words\<close>

lemma word_Suc_less: "i < n \<Longrightarrow> unat (i + 1) = Suc (unat i)" for i n :: "'a::len word"
proof -
  assume "i < n"
  then have "Suc (unat i) < 2 ^ LENGTH('a)"
    using unsigned_less [of n, where ?'a = nat] unfolding word_less_nat_alt by linarith
  then show ?thesis by (simp add: unat_word_ariths(1))
qed

lemma word_less_le_Suc: "i < n \<Longrightarrow> i + 1 \<le> n" for i n :: "'a::len word"
  by (simp add: word_le_nat_alt word_Suc_less Suc_le_eq unat_mono)

lemma word_less_Suc_iff: "k < n \<Longrightarrow> i < k + 1 \<longleftrightarrow> i \<le> k" for i k n :: "'a::len word"
  by (simp add: word_less_nat_alt word_le_nat_alt word_Suc_less less_Suc_eq_le)

lemma word_Suc_le_iff: "i < n \<Longrightarrow> i + 1 \<le> k \<longleftrightarrow> i < k" for i n k :: "'a::len word"
  by (simp add: word_le_nat_alt word_less_nat_alt word_Suc_less Suc_le_eq)

lemma word_le_Suc_cases: "i < n \<Longrightarrow> i \<le> k \<longleftrightarrow> k = i \<or> i + 1 \<le> k" for i n k :: "'a::len word"
  by (auto simp: word_Suc_le_iff)

lemma word_up_measure: "i < n \<Longrightarrow> unat n - unat (i + 1) < unat n - unat i" for i n :: "'a::len word"
  by (simp add: word_Suc_less word_less_nat_alt)

lemma word_down_measure: "n \<noteq> 0 \<Longrightarrow> unat (n - 1) < unat n" for n :: "'a::len word"
  by (metis measure_unat)

lemma unat_diff_Suc: "k \<noteq> p \<Longrightarrow> unat (k - p) = Suc (unat (k - (p + 1)))" for k p :: "'a::len word"
proof -
  assume "k \<noteq> p"
  then have "unat (k - p - 1) = unat (k - p) - 1" and "0 < unat (k - p)"
    by (simp_all add: unat_minus_one unat_gt_0)
  then show ?thesis by (simp add: diff_diff_eq)
qed

lemma unat_minus_1_u32: "unat (- 1 :: u32) = 2 ^ 32 - 1"
  by (simp add: unsigned_minus_1_eq_mask mask_eq_exp_minus_1)

lemma ucast_u8_u32 [simp]: "(ucast (ucast (x :: u8) :: u32) :: u8) = x"
  by (rule bit_word_eqI) (simp add: bit_simps)

lemma unat_ucast_u8: "unat (ucast (k :: u8) :: u32) = unat k"
proof -
  have "unat k < 2 ^ 32" using unsigned_less [of k, where ?'a = nat] by simp
  then show ?thesis by (simp add: unsigned_ucast_eq take_bit_nat_eq_self)
qed

lemma unat_SucD: "Suc k = unat q \<Longrightarrow> q \<noteq> 0 \<and> unat (q - 1) = k" for q :: "'a::len word"
  by (metis diff_Suc_1 nat.distinct(1) unat_0 unat_minus_one)

lemma unat_less_2p32: "unat (w :: u32) < 2 ^ 32"
  using unsigned_less [of w, where ?'a = nat] by simp

lemma unat_of_nat_small: "n < 2 ^ 32 \<Longrightarrow> unat (of_nat n :: u32) = n"
  by (simp add: unat_of_nat)

lemma unat_and_3: "unat (w AND 3) = unat w mod 4" for w :: u32
proof -
  have "w AND 3 = take_bit 2 w" by (simp add: take_bit_eq_mask mask_eq_exp_minus_1)
  then show ?thesis by (simp add: take_bit_eq_mod unat_mod_distrib)
qed

lemma word_up_induct [consumes 1, case_names stop step]:
  fixes i n :: "'a::len word"
  assumes "i \<le> n" and "P n" and "\<And>i. i < n \<Longrightarrow> P (i + 1) \<Longrightarrow> P i"
  shows "P i"
  using assms(1)
proof (induction "unat n - unat i" arbitrary: i)
  case 0
  then have "i = n" by (simp add: word_le_nat_alt word_unat_eq_iff)
  then show ?case using assms(2) by simp
next
  case (Suc d)
  then have lt: "i < n" by (simp add: word_less_nat_alt)
  have "P (i + 1)"
    using Suc.hyps(2) lt by (intro Suc.hyps(1)) (simp_all add: word_Suc_less word_less_le_Suc)
  with lt show ?case by (rule assms(3))
qed

section \<open>Signed readings of 32-bit words\<close>

lemma sint_range_u32: "- (2 ^ 31) \<le> sint (v :: u32)" "sint (v :: u32) < 2 ^ 31"
  using sint_ge [of v] sint_less [of v] by simp_all

lemma unat_sint_nonneg: "0 \<le> sint v \<Longrightarrow> unat v = nat (sint v)" for v :: u32
proof -
  assume "0 \<le> sint v"
  then have "uint v = sint v"
    using sint_range_u32(2) [of v] by (simp add: uint_sint [of v] take_bit_int_eq_self)
  then show ?thesis by (simp add: unat_eq_nat_uint)
qed

lemma sint_unat_small: "unat v < 2 ^ 31 \<Longrightarrow> sint v = int (unat v)" for v :: u32
proof -
  assume "unat v < 2 ^ 31"
  then have "int (unat v) < int (2 ^ 31)" by (simp only: of_nat_less_iff)
  then have "uint v < 2 ^ 31" by simp
  moreover have "- (2 ^ 31) \<le> uint v" by (rule order_trans [OF _ uint_ge_0]) simp
  ultimately have "signed_take_bit 31 (uint v) = uint v" by (intro signed_take_bit_int_eq_self) simp_all
  then show ?thesis by (simp add: sint_uint)
qed

lemma unat_minus_sint_neg: "sint v < 0 \<Longrightarrow> unat (- v) = nat (- sint v)" for v :: u32
proof -
  assume neg: "sint v < 0"
  have "- v = word_of_int (- sint v)" by simp
  then have "uint (- v) = take_bit 32 (- sint v)"
    by (simp only: uint_word_of_int_eq) simp
  also have "\<dots> = - sint v"
    using neg sint_range_u32(1) [of v] by (intro take_bit_int_eq_self) simp_all
  finally show ?thesis by (simp add: unat_eq_nat_uint)
qed

section \<open>C strings\<close>

text \<open>\<open>cstr s n\<close>: the bytes from \<open>s\<close> on are a NUL-terminated string of length \<open>n\<close>.\<close>

definition cstr :: "bytes \<Rightarrow> u32 \<Rightarrow> bool" where
  "cstr s n \<longleftrightarrow> s n = 0 \<and> (\<forall>i<n. s i \<noteq> 0)"

lemma cstr_unique: "cstr s n \<Longrightarrow> cstr s m \<Longrightarrow> n = m"
  unfolding cstr_def by (metis linorder_neqE)

lemma cstr_Least_exists: "s k = 0 \<Longrightarrow> \<exists>n\<le>k. cstr s n"
proof (induction "unat k" arbitrary: k rule: less_induct)
  case less
  show ?case
  proof (cases "\<exists>j<k. s j = 0")
    case True
    then obtain j where "j < k" "s j = 0" by blast
    with less.hyps [of j] obtain n where "n \<le> j" "cstr s n"
      by (auto simp: unat_mono)
    with \<open>j < k\<close> show ?thesis by (meson order.strict_implies_order order_trans)
  next
    case False
    with less.prems show ?thesis by (auto simp: cstr_def)
  qed
qed

text \<open>\<open>is_str s xs\<close>: the bytes from \<open>s\<close> on hold the string \<open>xs\<close> and its NUL.\<close>

definition is_str :: "bytes \<Rightarrow> u8 list \<Rightarrow> bool" where
  "is_str s xs \<longleftrightarrow> length xs < 2 ^ 32 \<and> 0 \<notin> set xs
     \<and> (\<forall>i<length xs. s (of_nat i) = xs ! i) \<and> s (of_nat (length xs)) = 0"

text \<open>A string literal: its characters, then NUL bytes.\<close>

definition c_str :: "string \<Rightarrow> bytes" where
  "c_str xs = (\<lambda>i. if unat i < length xs then of_char (xs ! unat i) else 0)"

lemma is_str_cstr: "is_str s xs \<Longrightarrow> cstr s (of_nat (length xs))"
proof -
  assume s: "is_str s xs"
  have "s i \<noteq> 0" if "i < of_nat (length xs)" for i
  proof -
    have i: "unat i < length xs"
      using that s by (simp add: is_str_def word_less_nat_alt unat_of_nat)
    then have "s (of_nat (unat i)) = xs ! unat i" using s by (auto simp: is_str_def)
    with i s show ?thesis by (auto simp: is_str_def in_set_conv_nth)
  qed
  with s show ?thesis by (simp add: is_str_def cstr_def)
qed

lemma cstr_is_str: "cstr s n \<Longrightarrow> is_str s (map (\<lambda>i. s (of_nat i)) [0..<unat n])"
proof -
  assume s: "cstr s n"
  have "s (of_nat i) \<noteq> 0" if "i < unat n" for i
  proof -
    have "i < 2 ^ 32" using that unsigned_less [of n, where ?'a = nat] by simp
    with that have "(of_nat i :: u32) < n" by (simp add: word_less_nat_alt unat_of_nat)
    with s show ?thesis by (simp add: cstr_def)
  qed
  with s show ?thesis
    using unsigned_less [of n, where ?'a = nat] by (auto simp: is_str_def cstr_def)
qed

lemma is_str_unique: "is_str s xs \<Longrightarrow> is_str s ys \<Longrightarrow> xs = ys"
proof -
  assume xs: "is_str s xs" and ys: "is_str s ys"
  have len: "unat (of_nat (length zs) :: u32) = length zs" if "is_str s zs" for zs
    using that by (simp add: is_str_def unat_of_nat)
  have "(of_nat (length xs) :: u32) = of_nat (length ys)"
    using cstr_unique xs ys is_str_cstr by blast
  then have "length xs = length ys" using len [OF xs] len [OF ys] by metis
  then show ?thesis
  proof (rule nth_equalityI)
    fix i assume "i < length xs"
    with xs ys \<open>length xs = length ys\<close> show "xs ! i = ys ! i"
      unfolding is_str_def by metis
  qed
qed

end
