(* ===== verification/CStrings.thy ===== *)
theory CStrings
  imports Prelude
begin

text \<open>
  The string functions of \<^verbatim>\<open>student-distrib/lib.c\<close> (\<open>strlen\<close>, \<open>strcpy\<close>,
  \<open>strncpy\<close>, \<open>strncmp\<close>, \<open>strrev\<close>, \<open>itoa\<close>), each loop with its counter at 32
  bits. A pointer argument is the array it points to; a function that writes through a pointer
  returns the array after the call, and two pointer arguments of one call are different objects.
  A loop that only stops at a NUL byte is a \<^theory_text>\<open>partial_function\<close>: \<open>None\<close> is the
  call that never returns.
\<close>

section \<open>strlen\<close>

partial_function (option) strlen_loop :: "bytes \<Rightarrow> u32 \<Rightarrow> u32 option" where
  "strlen_loop s len = (if s len \<noteq> 0 then strlen_loop s (len + 1) else Some len)"

definition strlen :: "bytes \<Rightarrow> u32 option" where
  "strlen s = strlen_loop s 0"

declare strlen_loop.simps [loop_unfold]

lemma strlen_loop_cstr:
  assumes "cstr s n" and "i \<le> n"
  shows "strlen_loop s i = Some n"
  using assms(2)
proof (induction i rule: word_up_induct)
  case stop
  with assms(1) show ?case by (simp add: strlen_loop.simps cstr_def)
next
  case (step i)
  with assms(1) have "s i \<noteq> 0" by (simp add: cstr_def)
  with step.IH show ?case by (simp add: strlen_loop.simps [of s i])
qed

lemma strlen_loop_zero: "strlen_loop s i = Some n \<Longrightarrow> s n = 0"
proof (rule strlen_loop.raw_induct [where P = "\<lambda>s i n. s n = 0"])
  fix f :: "bytes \<Rightarrow> u32 \<Rightarrow> u32 option" and s i n
  assume IH: "\<And>s i n. f s i = Some n \<Longrightarrow> s n = 0"
    and eq: "(if s i \<noteq> 0 then f s (i + 1) else Some i) = Some n"
  show "s n = 0"
    using eq IH by (cases "s i = 0") auto
qed

lemma strlen_cstr: "cstr s n \<Longrightarrow> strlen s = Some n"
  by (simp add: strlen_def strlen_loop_cstr)

lemma strlen_Some_iff: "strlen s = Some n \<longleftrightarrow> cstr s n"
proof
  assume *: "strlen s = Some n"
  then have "s n = 0" by (simp add: strlen_def strlen_loop_zero)
  then obtain k where "cstr s k" using cstr_Least_exists by blast
  with * strlen_cstr show "cstr s n" by fastforce
qed (rule strlen_cstr)

lemma strlen_None_iff: "strlen s = None \<longleftrightarrow> (\<forall>i. s i \<noteq> 0)"
proof
  assume "strlen s = None"
  then have "\<not> cstr s n" for n by (auto simp flip: strlen_Some_iff)
  then show "\<forall>i. s i \<noteq> 0" using cstr_Least_exists by blast
next
  assume "\<forall>i. s i \<noteq> 0"
  then have "\<not> cstr s n" for n by (simp add: cstr_def)
  then show "strlen s = None" by (cases "strlen s") (simp_all add: strlen_Some_iff)
qed

section \<open>strncmp\<close>

text \<open>
  \<open>int8_t\<close> is the compiler's signed \<open>char\<close>: the difference of two promoted bytes is
  taken on their signed values. The counter \<open>i\<close> is compared with the unsigned \<open>n\<close>.
\<close>

function strncmp_loop :: "bytes \<Rightarrow> bytes \<Rightarrow> u32 \<Rightarrow> u32 \<Rightarrow> int" where
  "strncmp_loop s1 s2 n i =
     (if i < n then
        if s1 i \<noteq> s2 i \<or> s1 i = 0 then sint (s1 i) - sint (s2 i)
        else strncmp_loop s1 s2 n (i + 1)
      else 0)"
  by pat_completeness auto
termination
  by (relation "measure (\<lambda>(s1, s2, n, i). unat n - unat i)") (auto simp: word_up_measure)

declare strncmp_loop.simps [simp del, loop_unfold]

definition strncmp :: "bytes \<Rightarrow> bytes \<Rightarrow> u32 \<Rightarrow> int" where
  "strncmp s1 s2 n = strncmp_loop s1 s2 n 0"

text \<open>Two strings agree on their first \<open>n\<close> bytes, or up to a common NUL before that.\<close>

definition str_agree :: "bytes \<Rightarrow> bytes \<Rightarrow> u32 \<Rightarrow> bool" where
  "str_agree s1 s2 n \<longleftrightarrow> (\<forall>i<n. (\<forall>j<i. s1 j \<noteq> 0) \<longrightarrow> s1 i = s2 i)"

lemma strncmp_loop_0_iff:
  "strncmp_loop s1 s2 n i = 0 \<longleftrightarrow>
     (\<forall>k<n. i \<le> k \<longrightarrow> (\<forall>j<k. i \<le> j \<longrightarrow> s1 j \<noteq> 0) \<longrightarrow> s1 k = s2 k)"
proof (induction s1 s2 n i rule: strncmp_loop.induct)
  case (1 s1 s2 n i)
  consider (out) "\<not> i < n" | (stop) "i < n" "s1 i \<noteq> s2 i \<or> s1 i = 0"
    | (go) "i < n" "s1 i = s2 i" "s1 i \<noteq> 0" by blast
  then show ?case
  proof cases
    case out
    then show ?thesis by (auto simp: strncmp_loop.simps [of s1 s2 n i])
  next
    case stop
    have "s1 i = s2 i \<longleftrightarrow> (\<forall>k<n. i \<le> k \<longrightarrow> (\<forall>j<k. i \<le> j \<longrightarrow> s1 j \<noteq> 0) \<longrightarrow> s1 k = s2 k)"
      using stop by (metis order.order_iff_strict order_refl linorder_not_le)
    with stop show ?thesis by (auto simp: strncmp_loop.simps [of s1 s2 n i] intro: signed_word_eqI)
  next
    case go
    then have le: "i \<le> k \<longleftrightarrow> k = i \<or> i + 1 \<le> k" for k
      by (simp add: word_le_Suc_cases)
    have "strncmp_loop s1 s2 n i = strncmp_loop s1 s2 n (i + 1)"
      using go by (simp add: strncmp_loop.simps [of s1 s2 n i])
    with go le "1.IH" show ?thesis by (simp add: all_conj_distrib)
  qed
qed

lemma strncmp_0_iff: "strncmp s1 s2 n = 0 \<longleftrightarrow> str_agree s1 s2 n"
  by (simp add: strncmp_def strncmp_loop_0_iff str_agree_def)

lemma strncmp_antisym: "strncmp s2 s1 n = - strncmp s1 s2 n"
proof -
  have "strncmp_loop s2 s1 n i = - strncmp_loop s1 s2 n i" for i
    by (induction s1 s2 n i rule: strncmp_loop.induct)
      (subst strncmp_loop.simps, subst (2) strncmp_loop.simps, auto)
  then show ?thesis by (simp add: strncmp_def)
qed

lemma strncmp_self [simp]: "strncmp s s n = 0"
  by (simp add: strncmp_0_iff str_agree_def)

lemma str_agree_cstr_iff:
  assumes "cstr s1 k" and "k < n"
  shows "str_agree s1 s2 n \<longleftrightarrow> (\<forall>i\<le>k. s1 i = s2 i)"
proof
  assume *: "str_agree s1 s2 n"
  show "\<forall>i\<le>k. s1 i = s2 i"
  proof (intro allI impI)
    fix i assume "i \<le> k"
    with assms have "i < n" "\<forall>j<i. s1 j \<noteq> 0" by (auto simp: cstr_def)
    with * show "s1 i = s2 i" by (simp add: str_agree_def)
  qed
next
  assume *: "\<forall>i\<le>k. s1 i = s2 i"
  have "i \<le> k" if "\<forall>j<i. s1 j \<noteq> 0" for i
    using that assms(1) by (metis cstr_def linorder_not_le)
  with * show "str_agree s1 s2 n" by (auto simp: str_agree_def)
qed

section \<open>strcpy and strncpy\<close>

partial_function (option) strcpy_loop :: "bytes \<Rightarrow> bytes \<Rightarrow> u32 \<Rightarrow> bytes option" where
  "strcpy_loop dest src i =
     (if src i \<noteq> 0 then strcpy_loop (dest(i := src i)) src (i + 1) else Some (dest(i := 0)))"

declare strcpy_loop.simps [loop_unfold]

definition strcpy :: "bytes \<Rightarrow> bytes \<Rightarrow> bytes option" where
  "strcpy dest src = strcpy_loop dest src 0"

lemma strcpy_loop_cstr:
  assumes "cstr src n" and "i \<le> n"
  shows "strcpy_loop dest src i = Some (\<lambda>k. if i \<le> k \<and> k \<le> n then src k else dest k)"
  using assms(2)
proof (induction i arbitrary: dest rule: word_up_induct)
  case stop
  with assms(1) show ?case
    by (auto simp: strcpy_loop.simps [of dest] cstr_def fun_eq_iff dest: order_antisym)
next
  case (step i)
  with assms(1) have "src i \<noteq> 0" by (simp add: cstr_def)
  then have "strcpy_loop dest src i = strcpy_loop (dest(i := src i)) src (i + 1)"
    by (simp add: strcpy_loop.simps [of dest])
  also have "\<dots> = Some (\<lambda>k. if i \<le> k \<and> k \<le> n then src k else dest k)"
    unfolding step.IH using step.hyps
    by (auto simp: fun_eq_iff word_Suc_le_iff)
  finally show ?case .
qed

lemma strcpy_cstr:
  "cstr src n \<Longrightarrow> strcpy dest src = Some (\<lambda>k. if k \<le> n then src k else dest k)"
  by (simp add: strcpy_def strcpy_loop_cstr)

function strncpy_copy :: "bytes \<Rightarrow> bytes \<Rightarrow> u32 \<Rightarrow> u32 \<Rightarrow> bytes \<times> u32" where
  "strncpy_copy dest src n i =
     (if src i \<noteq> 0 \<and> i < n then strncpy_copy (dest(i := src i)) src n (i + 1) else (dest, i))"
  by pat_completeness auto
termination
  by (relation "measure (\<lambda>(dest, src, n, i). unat n - unat i)") (auto simp: word_up_measure)

function strncpy_pad :: "bytes \<Rightarrow> u32 \<Rightarrow> u32 \<Rightarrow> bytes" where
  "strncpy_pad dest n i = (if i < n then strncpy_pad (dest(i := 0)) n (i + 1) else dest)"
  by pat_completeness auto
termination
  by (relation "measure (\<lambda>(dest, n, i). unat n - unat i)") (auto simp: word_up_measure)

declare strncpy_copy.simps [simp del, loop_unfold] strncpy_pad.simps [simp del, loop_unfold]

definition strncpy :: "bytes \<Rightarrow> bytes \<Rightarrow> u32 \<Rightarrow> bytes" where
  "strncpy dest src n = (case strncpy_copy dest src n 0 of (dest, i) \<Rightarrow> strncpy_pad dest n i)"

lemma strncpy_pad_eq: "strncpy_pad dest n i = (\<lambda>k. if i \<le> k \<and> k < n then 0 else dest k)"
proof (induction dest n i rule: strncpy_pad.induct)
  case (1 dest n i)
  show ?case
  proof (cases "i < n")
    case True
    then show ?thesis
      by (simp add: strncpy_pad.simps [of dest] "1.IH" word_Suc_le_iff) (auto simp: fun_eq_iff)
  next
    case False
    then show ?thesis by (subst strncpy_pad.simps) (auto simp: fun_eq_iff)
  qed
qed

lemma strncpy_copy_spec:
  assumes "strncpy_copy dest src n i = (d, e)" and "i \<le> n"
  shows "i \<le> e \<and> e \<le> n \<and> (\<forall>k. d k = (if i \<le> k \<and> k < e then src k else dest k))
    \<and> (\<forall>k. i \<le> k \<and> k < e \<longrightarrow> src k \<noteq> 0) \<and> (e < n \<longrightarrow> src e = 0)"
  using assms
proof (induction dest src n i arbitrary: d e rule: strncpy_copy.induct)
  case (1 dest src n i)
  show ?case
  proof (cases "src i \<noteq> 0 \<and> i < n")
    case True
    then have "strncpy_copy (dest(i := src i)) src n (i + 1) = (d, e)"
      using "1.prems"(1) by (simp add: strncpy_copy.simps [of dest])
    then have "i + 1 \<le> e \<and> e \<le> n
        \<and> (\<forall>k. d k = (if i + 1 \<le> k \<and> k < e then src k else (dest(i := src i)) k))
        \<and> (\<forall>k. i + 1 \<le> k \<and> k < e \<longrightarrow> src k \<noteq> 0) \<and> (e < n \<longrightarrow> src e = 0)"
      using True by (intro "1.IH") (auto simp: word_less_le_Suc fun_upd_def)
    then have IH: "i + 1 \<le> e" "e \<le> n" "e < n \<longrightarrow> src e = 0"
      "\<And>k. d k = (if i + 1 \<le> k \<and> k < e then src k else (dest(i := src i)) k)"
      "\<And>k. i + 1 \<le> k \<and> k < e \<longrightarrow> src k \<noteq> 0" by blast+
    have lt: "i < e" using IH(1) True word_Suc_le_iff [of i n e] by blast
    have le: "i \<le> k \<longleftrightarrow> k = i \<or> i + 1 \<le> k" for k
      using True word_le_Suc_cases [of i n k] by blast
    have "d k = (if i \<le> k \<and> k < e then src k else dest k)" for k
      using IH(4) [of k] le [of k] lt by (cases "k = i") auto
    moreover have "src k \<noteq> 0" if "i \<le> k" "k < e" for k
      using IH(5) [of k] le [of k] True that by blast
    ultimately show ?thesis using IH(2,3) lt by (simp add: order.strict_implies_order)
  next
    case False
    with "1.prems" show ?thesis by (auto simp: strncpy_copy.simps [of dest])
  qed
qed

text \<open>\<open>strncpy\<close> writes exactly \<open>n\<close> bytes: the string's bytes before its NUL, zeros after.\<close>

lemma strncpy_eq:
  "strncpy dest src n = (\<lambda>k. if k < n then (if \<exists>j\<le>k. src j = 0 then 0 else src k) else dest k)"
proof -
  obtain d e where de: "strncpy_copy dest src n 0 = (d, e)" by fastforce
  have spec: "e \<le> n" "\<And>k. d k = (if k < e then src k else dest k)"
    "\<And>k. k < e \<Longrightarrow> src k \<noteq> 0" "e < n \<Longrightarrow> src e = 0"
    using strncpy_copy_spec [OF de] by auto
  show ?thesis
  proof
    fix k
    have "(\<exists>j\<le>k. src j = 0) \<longleftrightarrow> e \<le> k" if "k < n"
      using spec(1,3,4) that by (meson linorder_not_le order.strict_trans1 order.strict_trans2)
    then show "strncpy dest src n k =
        (if k < n then (if \<exists>j\<le>k. src j = 0 then 0 else src k) else dest k)"
      using spec(1,2) by (auto simp: strncpy_def de strncpy_pad_eq)
  qed
qed

section \<open>strrev\<close>

text \<open>
  \<open>beg\<close> and \<open>end\<close> are \<open>int32_t\<close>: \<open>end\<close> starts as \<open>strlen(s) - 1\<close>,
  which is \<open>-1\<close> for the empty string. While \<open>beg < end\<close> neither step can overflow, so they
  are integers here.
\<close>

function strrev_loop :: "bytes \<Rightarrow> int \<Rightarrow> int \<Rightarrow> bytes" where
  "strrev_loop s beg end =
     (if beg < end then
        let tmp = s (word_of_int end)
        in strrev_loop (s(word_of_int end := s (word_of_int beg), word_of_int beg := tmp))
             (beg + 1) (end - 1)
      else s)"
  by pat_completeness auto
termination
  by (relation "measure (\<lambda>(s, beg, end). nat (end - beg))") auto

declare strrev_loop.simps [simp del, loop_unfold]

definition strrev :: "bytes \<Rightarrow> bytes option" where
  "strrev s = (case strlen s of None \<Rightarrow> None
     | Some len \<Rightarrow> Some (strrev_loop s 0 (sint (len - 1))))"

lemma uint_word_of_int_range:
  "0 \<le> b \<Longrightarrow> b < 2 ^ 32 \<Longrightarrow> uint (word_of_int b :: u32) = b"
  by (simp add: uint_word_of_int_eq take_bit_int_eq_self)

lemma unat_word_of_int_range: "0 \<le> n \<Longrightarrow> n < 2 ^ 32 \<Longrightarrow> unat (word_of_int n :: u32) = nat n"
  by (simp add: unat_eq_nat_uint uint_word_of_int_range)

lemma word_of_int_eq_iff_range:
  assumes "0 \<le> b" and "b < 2 ^ 32"
  shows "k = (word_of_int b :: u32) \<longleftrightarrow> uint k = b"
proof
  assume "k = word_of_int b"
  then show "uint k = b" using uint_word_of_int_range [OF assms] by simp
next
  assume "uint k = b"
  then show "k = word_of_int b" by (metis word_of_int_uint)
qed

lemma strrev_loop_eq:
  assumes "0 \<le> beg" and "end < 2 ^ 31" and "beg \<le> end + 1"
  shows "strrev_loop s beg end k =
    (if beg \<le> uint k \<and> uint k \<le> end then s (word_of_int (beg + end - uint k)) else s k)"
  using assms
proof (induction s beg "end" rule: strrev_loop.induct)
  case (1 s beg "end")
  show ?case
  proof (cases "beg < end")
    case True
    let ?s = "s(word_of_int end := s (word_of_int beg), word_of_int beg := s (word_of_int end))"
    have ends: "j = word_of_int end \<longleftrightarrow> uint j = end" "j = word_of_int beg \<longleftrightarrow> uint j = beg" for j :: u32
      using "1.prems" True by (simp_all add: word_of_int_eq_iff_range)
    have "strrev_loop s beg end k = strrev_loop ?s (beg + 1) (end - 1) k"
      using True by (simp add: strrev_loop.simps [of s beg])
    also have "\<dots> = (if beg + 1 \<le> uint k \<and> uint k \<le> end - 1
        then ?s (word_of_int (beg + 1 + (end - 1) - uint k)) else ?s k)"
      using "1.IH" [OF True refl] "1.prems" True
      by (simp add: Let_def fun_upd_def del: of_int_add of_int_diff)
    also have "\<dots> = (if beg \<le> uint k \<and> uint k \<le> end
        then s (word_of_int (beg + end - uint k)) else s k)"
    proof (cases "beg + 1 \<le> uint k \<and> uint k \<le> end - 1")
      case inner: True
      then have "uint (word_of_int (beg + end - uint k) :: u32) = beg + end - uint k"
        using "1.prems" by (intro uint_word_of_int_range) auto
      with inner show ?thesis by (simp add: ends del: of_int_add of_int_diff)
    next
      case False
      with True show ?thesis by (auto simp: ends)
    qed
    finally show ?thesis .
  next
    case False
    with "1.prems" have "beg = end + 1 \<or> beg = end" by linarith
    with False show ?thesis by (auto simp: strrev_loop.simps [of s beg])
  qed
qed

lemma strrev_cstr:
  assumes "cstr s n" and "n < 2 ^ 31"
  shows "strrev s = Some (\<lambda>k. if k < n then s (n - 1 - k) else s k)"
proof -
  have n: "uint n < 2 ^ 31" using assms(2) by (simp add: word_less_def)
  have sint_n: "sint (n - 1) = uint n - 1"
  proof -
    have "n - 1 = word_of_int (uint n - 1)" by simp
    then have "sint (n - 1) = signed_take_bit 31 (uint n - 1)"
      by (simp only: sint_sbintrunc') simp
    also have "\<dots> = uint n - 1"
      using n uint_ge_0 [of n] by (intro signed_take_bit_int_eq_self) linarith+
    finally show ?thesis .
  qed
  have "strrev_loop s 0 (sint (n - 1)) k = (if k < n then s (n - 1 - k) else s k)" for k
    using n by (simp add: sint_n strrev_loop_eq word_less_def algebra_simps)
  then show ?thesis using assms(1) by (simp add: strrev_def strlen_cstr fun_eq_iff)
qed

lemma cstr_reverse: "cstr s n \<Longrightarrow> cstr (\<lambda>k. if k < n then s (n - 1 - k) else s k) n"
proof -
  assume s: "cstr s n"
  have "n - 1 - k < n" if "k < n" for k
  proof -
    have "unat (n - 1 - k) = unat n - 1 - unat k"
      using that by (simp add: unat_sub_if' word_less_nat_alt unat_minus_one)
    then show ?thesis using that by (simp add: word_less_nat_alt)
  qed
  with s show ?thesis by (simp add: cstr_def)
qed

section \<open>itoa\<close>

text \<open>
  \<open>newval % radix\<close> and \<open>newval /= radix\<close> are unsigned divisions, since \<open>newval\<close> is
  \<open>uint32_t\<close>: radix 0 is a divide fault, radix 1 never leaves the loop, and a digit above the
  37 bytes of the table is out of bounds.
\<close>

definition lookup :: "u8 list" where
  "lookup = map of_char ''0123456789ABCDEFGHIJKLMNOPQRSTUVWXYZ'' @ [0]"

partial_function (option) itoa_loop :: "u32 \<Rightarrow> bytes \<Rightarrow> u32 \<Rightarrow> u32 \<Rightarrow> (fault + bytes \<times> u32) option"
where
  "itoa_loop radix buf newbuf newval =
     (if newval > 0 then
        if radix = 0 then Some (Inl DivByZero)
        else let i = newval mod radix
          in if length lookup \<le> unat i then Some (Inl OutOfBounds)
             else itoa_loop radix (buf(newbuf := lookup ! unat i)) (newbuf + 1) (newval div radix)
      else Some (Inr (buf, newbuf)))"

declare itoa_loop.simps [loop_unfold]

definition itoa :: "u32 \<Rightarrow> bytes \<Rightarrow> u32 \<Rightarrow> (fault + bytes) option" where
  "itoa value buf radix =
     (if value = 0 then Some (Inr (buf(0 := 48, 1 := 0)))
      else case itoa_loop radix buf 0 value of
          None \<Rightarrow> None
        | Some (Inl e) \<Rightarrow> Some (Inl e)
        | Some (Inr (buf, newbuf)) \<Rightarrow> map_option Inr (strrev (buf(newbuf := 0))))"

text \<open>Reference: the digits of a number, lowest place first, and the text of a numeral.\<close>

fun digits :: "nat \<Rightarrow> nat \<Rightarrow> nat list" where
  "digits r n = (if n = 0 \<or> r < 2 then [] else (n mod r) # digits r (n div r))"

declare digits.simps [simp del, loop_unfold]

definition numeral_text :: "nat \<Rightarrow> nat \<Rightarrow> u8 list" where
  "numeral_text r n = (if n = 0 then [48] else map ((!) lookup) (rev (digits r n)))"

definition digit_val :: "u8 \<Rightarrow> nat" where
  "digit_val c = (if c \<le> 57 then unat c - 48 else unat c - 55)"

definition read_numeral :: "nat \<Rightarrow> u8 list \<Rightarrow> nat" where
  "read_numeral r cs = foldl (\<lambda>a c. a * r + digit_val c) 0 cs"

lemma digits_0 [simp]: "digits r 0 = []"
  by (simp add: digits.simps)

lemma digits_less: "2 \<le> r \<Longrightarrow> d \<in> set (digits r n) \<Longrightarrow> d < r"
proof (induction r n rule: digits.induct)
  case (1 r n)
  then show ?case by (cases "n = 0") (auto simp: digits.simps [of r n])
qed

lemma length_digits: "n < 2 ^ k \<Longrightarrow> length (digits r n) \<le> k"
proof (induction k arbitrary: n)
  case 0
  then show ?case by (simp add: digits.simps)
next
  case (Suc k)
  show ?case
  proof (cases "n = 0 \<or> r < 2")
    case True
    then show ?thesis by (simp add: digits.simps)
  next
    case False
    then have "n div r \<le> n div 2" by (intro div_le_mono2) auto
    with Suc.prems have "n div r < 2 ^ k" by auto
    from Suc.IH [OF this] False show ?thesis by (simp add: digits.simps [of r n])
  qed
qed

lemma length_digits_pow: "2 \<le> r \<Longrightarrow> n < r ^ k \<Longrightarrow> length (digits r n) \<le> k"
proof (induction k arbitrary: n)
  case (Suc k)
  show ?case
  proof (cases "n = 0")
    case False
    have "n div r < r ^ k" using Suc.prems by (simp add: less_mult_imp_div_less mult.commute)
    with Suc.IH Suc.prems(1) False show ?thesis by (simp add: digits.simps [of r n])
  qed simp
qed simp

lemma digits_value: "2 \<le> r \<Longrightarrow> foldr (\<lambda>d a. a * r + d) (digits r n) 0 = n"
proof (induction r n rule: digits.induct)
  case (1 r n)
  then show ?case by (cases "n = 0") (simp_all add: digits.simps [of r n])
qed

lemma length_lookup [simp]: "length lookup = 37"
  by (simp add: lookup_def)

lemma lookup_char:
  assumes "d < 36"
  shows "lookup ! d \<noteq> 0 \<and> digit_val (lookup ! d) = d"
proof -
  have "\<forall>d \<in> set [0..<36]. lookup ! d \<noteq> 0 \<and> digit_val (lookup ! d) = d"
    by (simp add: lookup_def digit_val_def upt_rec)
  with assms show ?thesis by simp
qed

lemma numeral_text_roundtrip:
  assumes "2 \<le> r" and "r \<le> 36"
  shows "read_numeral r (numeral_text r n) = n"
proof (cases "n = 0")
  case False
  have "foldr (\<lambda>d a. a * r + digit_val (lookup ! d)) ds a = foldr (\<lambda>d a. a * r + d) ds a"
    if "set ds \<subseteq> {..<36}" for ds a
    using that by (induction ds) (auto simp: lookup_char)
  moreover have "set (digits r n) \<subseteq> {..<36}"
    using digits_less [of r] assms by fastforce
  ultimately show ?thesis using False assms digits_value
    by (simp add: read_numeral_def numeral_text_def foldl_conv_foldr rev_map comp_def)
      (simp add: foldr_map comp_def)
qed (simp add: read_numeral_def numeral_text_def digit_val_def)

lemma itoa_loop_eq:
  assumes "2 \<le> unat r" and "unat r \<le> 36"
  shows "itoa_loop r buf p v =
    Some (Inr (\<lambda>k. if unat (k - p) < length (digits (unat r) (unat v))
       then lookup ! (digits (unat r) (unat v) ! unat (k - p)) else buf k,
     p + of_nat (length (digits (unat r) (unat v)))))"
proof (induction "unat v" arbitrary: v buf p rule: less_induct)
  case less
  show ?case
  proof (cases "v = 0")
    case True
    then show ?thesis by (simp add: itoa_loop.simps [of r buf] digits.simps)
  next
    case False
    let ?ds = "digits (unat r) (unat (v div r))"
    have ds: "digits (unat r) (unat v) = unat (v mod r) # ?ds"
      using False assms
      by (simp add: digits.simps [of _ "unat v"] unat_mod_distrib unat_div_distrib unat_0_iff)
    have "unat (v mod r) < 36"
      unfolding unat_mod_distrib
      using assms mod_less_divisor [of "unat r" "unat v"] by linarith
    then have "itoa_loop r buf p v =
        itoa_loop r (buf(p := lookup ! unat (v mod r))) (p + 1) (v div r)"
      using False assms by (auto simp: itoa_loop.simps [of r buf] Let_def word_gt_0)
    also have "unat (v div r) < unat v"
      unfolding unat_div_distrib using unat_gt_0 [THEN iffD2, OF False] assms
      by (intro div_less_dividend) linarith+
    note less [OF this, of "buf(p := lookup ! unat (v mod r))" "p + 1"]
    finally have "itoa_loop r buf p v = Some (Inr (\<lambda>k. if unat (k - (p + 1)) < length ?ds
        then lookup ! (?ds ! unat (k - (p + 1))) else (buf(p := lookup ! unat (v mod r))) k,
        p + 1 + of_nat (length ?ds)))" .
    moreover have "(if unat (k - (p + 1)) < length ?ds
        then lookup ! (?ds ! unat (k - (p + 1))) else (buf(p := lookup ! unat (v mod r))) k) =
        (if unat (k - p) < length (digits (unat r) (unat v))
         then lookup ! (digits (unat r) (unat v) ! unat (k - p)) else buf k)" for k
    proof (cases "k = p")
      case True
      have "length ?ds \<le> 32"
        using unsigned_less [of "v div r", where ?'a = nat] by (intro length_digits) simp
      moreover have "unat (- 1 :: u32) = 2 ^ 32 - 1" by (rule unat_minus_1_u32)
      ultimately show ?thesis using True by (simp add: ds)
    next
      case False
      from unat_diff_Suc [OF False] False show ?thesis by (simp add: ds)
    qed
    ultimately show ?thesis by (simp only: ds list.size) (simp add: add.assoc)
  qed
qed

lemma itoa_correct:
  assumes "2 \<le> unat r" and "unat r \<le> 36"
  shows "\<exists>buf'. itoa v buf r = Some (Inr buf') \<and> is_str buf' (numeral_text (unat r) (unat v))
    \<and> (\<forall>k. 33 \<le> unat k \<longrightarrow> buf' k = buf k)"
proof (cases "v = 0")
  case True
  then show ?thesis by (auto simp: itoa_def numeral_text_def is_str_def)
next
  case False
  define ds where "ds = digits (unat r) (unat v)"
  define n where "n = (of_nat (length ds) :: u32)"
  define b where "b = (\<lambda>k :: u32. if unat k < length ds then lookup ! (ds ! unat k) else buf k)(n := 0)"
  have len: "length ds \<le> 32" unfolding ds_def
    using unsigned_less [of v, where ?'a = nat] by (intro length_digits) simp
  then have n: "unat n = length ds" by (simp add: n_def unat_of_nat)
  have small: "ds ! i < 36" if "i < length ds" for i
    using digits_less [of "unat r" "ds ! i" "unat v"] that assms by (simp add: ds_def)
  have b: "cstr b n"
    using small by (auto simp: cstr_def b_def word_less_nat_alt n lookup_char)
  have "itoa v buf r = map_option Inr (strrev b)"
    using False itoa_loop_eq [OF assms, of buf 0 v]
    by (simp add: itoa_def b_def n_def ds_def cong: if_cong)
  also have "strrev b = Some (\<lambda>k. if k < n then b (n - 1 - k) else b k)"
    using b len by (intro strrev_cstr) (simp_all add: word_less_nat_alt n)
  finally have "itoa v buf r = Some (Inr (\<lambda>k. if k < n then b (n - 1 - k) else b k))" by simp
  moreover have "is_str (\<lambda>k. if k < n then b (n - 1 - k) else b k) (numeral_text (unat r) (unat v))"
  proof -
    have idx: "unat (n - 1 - of_nat i) = length ds - 1 - i" "(of_nat i :: u32) < n"
      if "i < length ds" for i
      using that len by (simp_all add: unat_sub_if' unat_of_nat word_less_nat_alt n)
    have "b (n - 1 - of_nat i) = lookup ! (rev ds ! i)" if "i < length ds" for i
    proof -
      have "n - 1 - of_nat i \<noteq> n" using idx(1) [OF that] n that by force
      with that idx [OF that] show ?thesis by (auto simp: b_def rev_nth)
    qed
    moreover have "lookup ! d \<noteq> 0" if "d \<in> set ds" for d
      using that small by (metis in_set_conv_nth lookup_char)
    ultimately show ?thesis
      using False len b idx by (auto simp: is_str_def numeral_text_def ds_def [symmetric] cstr_def unat_0_iff n_def [symmetric])
  qed
  moreover have "(if k < n then b (n - 1 - k) else b k) = buf k" if "33 \<le> unat k" for k
    using that len n by (auto simp: b_def word_less_nat_alt)
  ultimately show ?thesis by blast
qed

section \<open>Properties\<close>

text \<open>
  \<open>strlen\<close> returns the position of the first NUL; it fails to return only on memory
  without any NUL byte.
\<close>

theorem strlen_correct: "(strlen s = Some n \<longleftrightarrow> cstr s n) \<and> (strlen s = None \<longleftrightarrow> (\<forall>i. s i \<noteq> 0))"
  by (simp add: strlen_Some_iff strlen_None_iff)

text \<open>
  \<open>strncmp\<close> is 0 exactly when the strings agree on their first \<open>n\<close> bytes or up to a common
  NUL before that, and swapping its arguments negates its result.
\<close>

theorem strncmp_correct:
  "(strncmp s1 s2 n = 0 \<longleftrightarrow> str_agree s1 s2 n) \<and> strncmp s2 s1 n = - strncmp s1 s2 n"
  using strncmp_0_iff strncmp_antisym by blast

text \<open>
  \<open>strncpy\<close> writes exactly \<open>n\<close> bytes: the source up to its NUL, then NULs.
\<close>

theorem strncpy_correct:
  "strncpy dest src n = (\<lambda>k. if k < n then (if \<exists>j\<le>k. src j = 0 then 0 else src k) else dest k)"
  by (rule strncpy_eq)

text \<open>
  Claim C39. For every radix from 2 to 36, \<open>itoa\<close> terminates and leaves the digits of the number in the
  buffer, most significant first and NUL-terminated: reading them back gives the number, and no byte
  past offset 32 is written.
\<close>

theorem itoa_roundtrip:
  assumes "2 \<le> unat r" and "unat r \<le> 36"
  shows "\<exists>t. itoa v buf r = Some (Inr t) \<and> is_str t (numeral_text (unat r) (unat v))
    \<and> read_numeral (unat r) (numeral_text (unat r) (unat v)) = unat v
    \<and> (\<forall>k. 33 \<le> unat k \<longrightarrow> t k = buf k)"
  using itoa_correct [OF assms, of v buf] numeral_text_roundtrip [OF assms] by auto

theorem itoa_roundtrip_witness:
  "\<exists>t. itoa 255 (\<lambda>_. 7) 16 = Some (Inr t) \<and> is_str t [70, 70]"
proof -
  have "numeral_text 16 255 = [70, 70]" by code_simp
  then show ?thesis using itoa_roundtrip [of 16 255 "\<lambda>_. 7"] by auto
qed

text \<open>
  \<open>strrev\<close> reverses a string of less than \<open>2^31\<close> characters in place, and reversing twice
  gives back the memory it started from.
\<close>

theorem strrev_involution:
  assumes "cstr s n" and "n < 2 ^ 31"
  shows "\<exists>t. strrev s = Some t \<and> cstr t n \<and> (\<forall>k<n. t k = s (n - 1 - k)) \<and> strrev t = Some s"
proof -
  let ?t = "\<lambda>k. if k < n then s (n - 1 - k) else s k"
  have t: "cstr ?t n" by (rule cstr_reverse [OF assms(1)])
  have "n - 1 - k < n" if "k < n" for k
  proof -
    have "unat (n - 1 - k) = unat n - 1 - unat k"
      using that by (auto simp: unat_sub word_le_nat_alt word_less_nat_alt unat_minus_one unat_eq_0)
    then show ?thesis using that by (auto simp: word_less_nat_alt)
  qed
  then have "(\<lambda>k. if k < n then ?t (n - 1 - k) else ?t k) = s" by (auto simp: fun_eq_iff)
  then show ?thesis
    using strrev_cstr [OF assms] strrev_cstr [OF t assms(2)] t by auto
qed

theorem strrev_involution_witness:
  "\<exists>t. strrev (c_str ''abc'') = Some t \<and> t 0 = 99 \<and> strrev t = Some (c_str ''abc'')"
proof -
  have c: "cstr (c_str ''abc'') 3"
    unfolding cstr_def
  proof (intro conjI allI impI)
    fix i :: u32 assume "i < 3"
    then have "unat i = 0 \<or> unat i = 1 \<or> unat i = 2" by (auto simp: word_less_nat_alt)
    then show "c_str ''abc'' i \<noteq> 0" by (auto simp: c_str_def)
  qed (simp add: c_str_def)
  show ?thesis using strrev_involution [OF c] by (auto simp: c_str_def)
qed

end
