(* ===== verification/Machine.thy ===== *)
theory Machine
  imports Prelude
begin

text \<open>
  The machine the kernel's C code runs on, as far as that code touches it: the byte memory the
  kernel addresses, the port accesses made with \<open>inb\<close> and \<open>outb\<close> (\<^verbatim>\<open>lib.h\<close>) in
  order, and the interrupt flag set and cleared with \<open>sti\<close> and \<open>cli\<close>. The state of a driver
  extends this record, so that one state type carries the globals of all the components.

  What a port read returns is up to the hardware: a \<open>device\<close> is a parameter that gives the byte
  from the history of port accesses.
\<close>

datatype io_event = Out u16 u8 | In u16 u8

type_synonym device = "io_event list \<Rightarrow> u16 \<Rightarrow> u8"

record machine =
  mem :: bytes
  io :: "io_event list"
  intr :: bool

definition outb :: "u8 \<Rightarrow> u16 \<Rightarrow> 'a machine_scheme \<Rightarrow> 'a machine_scheme" where
  "outb data port s = s\<lparr>io := io s @ [Out port data]\<rparr>"

text \<open>\<open>inb\<close> clears the register first, so its result is the byte zero-extended to 32 bits.\<close>

definition inb :: "device \<Rightarrow> u16 \<Rightarrow> 'a machine_scheme \<Rightarrow> u32 \<times> 'a machine_scheme" where
  "inb dev port s = (let v = dev (io s) port in (ucast v, s\<lparr>io := io s @ [In port v]\<rparr>))"

definition cli :: "'a machine_scheme \<Rightarrow> 'a machine_scheme" where
  "cli s = s\<lparr>intr := False\<rparr>"

definition sti :: "'a machine_scheme \<Rightarrow> 'a machine_scheme" where
  "sti s = s\<lparr>intr := True\<rparr>"

lemma outb_simps [simp]:
  "mem (outb d p s) = mem s" "io (outb d p s) = io s @ [Out p d]" "intr (outb d p s) = intr s"
  "machine.more (outb d p s) = machine.more s"
  by (simp_all add: outb_def)

lemma cli_simps [simp]:
  "mem (cli s) = mem s" "io (cli s) = io s" "\<not> intr (cli s)" "machine.more (cli s) = machine.more s"
  by (simp_all add: cli_def)

lemma sti_simps [simp]:
  "mem (sti s) = mem s" "io (sti s) = io s" "intr (sti s)" "machine.more (sti s) = machine.more s"
  by (simp_all add: sti_def)

lemma inb_simps [simp]:
  "fst (inb dev p s) = ucast (dev (io s) p)" "mem (snd (inb dev p s)) = mem s"
  "io (snd (inb dev p s)) = io s @ [In p (dev (io s) p)]" "intr (snd (inb dev p s)) = intr s"
  "machine.more (snd (inb dev p s)) = machine.more s"
  by (simp_all add: inb_def Let_def)

text \<open>
  A run of port accesses that only ever grows the history: every driver routine is one.
\<close>

definition extends_io :: "'a machine_scheme \<Rightarrow> 'b machine_scheme \<Rightarrow> bool" where
  "extends_io s t \<longleftrightarrow> (\<exists>es. io t = io s @ es)"

lemma extends_io_refl [simp]: "extends_io s s"
  by (simp add: extends_io_def)

lemma extends_io_trans: "extends_io s t \<Longrightarrow> extends_io t u \<Longrightarrow> extends_io s u"
  by (auto simp: extends_io_def)

end
