(* ===== verification/Screen.thy ===== *)
theory Screen
  imports CStrings Machine
begin

text \<open>
  The text console of \<^verbatim>\<open>student-distrib/lib.c\<close>: the cursor (\<open>screen_x\<close>,
  \<open>screen_y\<close>), the 80 by 25 cells of video memory at \<open>VIDEO\<close>, character output
  (\<open>putc\<close>, \<open>puts\<close>, \<open>printf\<close>) with line wrap and scrolling, and the hardware cursor.
  \<open>video_mem\<close> is never assigned after its initialisation with \<open>VIDEO\<close>, so it is that
  constant here.
\<close>

section \<open>State and constants\<close>

record console = machine +
  screen_x :: int
  screen_y :: int

definition NUM_COLS :: int where [const_defs]: "NUM_COLS = 80"
definition NUM_ROWS :: int where [const_defs]: "NUM_ROWS = 25"
definition VIDEO :: u32 where [const_defs]: "VIDEO = 0xB8000"
definition FB_COMMAND_PORT :: u16 where [const_defs]: "FB_COMMAND_PORT = 0x3D4"
definition FB_DATA_PORT :: u16 where [const_defs]: "FB_DATA_PORT = 0x3D5"
definition FB_HIGH_BYTE_COMMAND :: u8 where [const_defs]: "FB_HIGH_BYTE_COMMAND = 14"
definition FB_LOW_BYTE_COMMAND :: u8 where [const_defs]: "FB_LOW_BYTE_COMMAND = 15"

text \<open>\<open>video_mem + (i << 1)\<close>: the character byte of cell \<open>i\<close>.\<close>

definition vid :: "int \<Rightarrow> u32" where
  "vid i = VIDEO + word_of_int (i * 2)"

section \<open>Cursor\<close>

definition get_screen_x :: "'a console_scheme \<Rightarrow> int" where
  "get_screen_x s = screen_x s"

definition get_screen_y :: "'a console_scheme \<Rightarrow> int" where
  "get_screen_y s = screen_y s"

definition set_screen_pos :: "int \<Rightarrow> int \<Rightarrow> 'a console_scheme \<Rightarrow> 'a console_scheme" where
  "set_screen_pos x y s = s\<lparr>screen_x := x, screen_y := y\<rparr>"

definition update_cursor_loc :: "int \<Rightarrow> int \<Rightarrow> 'a machine_scheme \<Rightarrow> 'a machine_scheme" where
  "update_cursor_loc x y s =
     (let pos = (word_of_int (NUM_COLS * y + x) :: u16);
          s = outb FB_HIGH_BYTE_COMMAND FB_COMMAND_PORT s;
          s = outb (ucast (drop_bit 8 pos AND 0x00FF)) FB_DATA_PORT s;
          s = outb FB_LOW_BYTE_COMMAND FB_COMMAND_PORT s
      in outb (ucast (pos AND 0x00FF)) FB_DATA_PORT s)"

section \<open>Scrolling, new lines, characters\<close>

definition scroll :: "'a console_scheme \<Rightarrow> 'a console_scheme" where
  "scroll s =
     (let m = fold (\<lambda>row. fold (\<lambda>col m.
            let current_line = NUM_COLS * (int row + 1) + int col;
                scroll_line = NUM_COLS * int row + int col
            in m(vid scroll_line := m (vid current_line)))
          [0..<nat NUM_COLS]) [0..<nat (NUM_ROWS - 1)] (mem s);
          m = fold (\<lambda>col m. m(vid (NUM_COLS * (NUM_ROWS - 1) + int col) := 0))
          [0..<nat NUM_COLS] m
      in s\<lparr>mem := m, screen_x := 0, screen_y := NUM_ROWS - 1\<rparr>)"

definition do_enter :: "'a console_scheme \<Rightarrow> 'a console_scheme" where
  "do_enter s =
     (let s = (if screen_y s = NUM_ROWS - 1 then scroll s else s\<lparr>screen_y := screen_y s + 1\<rparr>);
          s = s\<lparr>screen_x := 0\<rparr>
      in update_cursor_loc (screen_x s) (screen_y s) s)"

definition do_backspace :: "'a console_scheme \<Rightarrow> 'a console_scheme" where
  "do_backspace s =
     (let s = (if screen_x s = 0 \<and> screen_y s > 0
               then s\<lparr>screen_x := NUM_COLS - 2, screen_y := screen_y s - 1\<rparr>
               else s\<lparr>screen_x := screen_x s - 1\<rparr>);
          s = s\<lparr>mem := (mem s)(vid (NUM_COLS * screen_y s + screen_x s) := 0)\<rparr>
      in update_cursor_loc (screen_x s) (screen_y s) s)"

definition putc :: "u8 \<Rightarrow> 'a console_scheme \<Rightarrow> 'a console_scheme" where
  "putc c s =
     (if c = 10 \<or> c = 13 then do_enter s
      else let s = s\<lparr>mem := (mem s)(vid (NUM_COLS * screen_y s + screen_x s) := c)\<rparr>;
               s = s\<lparr>screen_x := screen_x s + 1\<rparr>
           in if screen_x s \<ge> NUM_COLS then do_enter s
              else update_cursor_loc (screen_x s) (screen_y s) s)"

section \<open>puts and printf\<close>

partial_function (option) puts_loop ::
  "bytes \<Rightarrow> u32 \<Rightarrow> 'a console_scheme \<Rightarrow> (u32 \<times> 'a console_scheme) option" where
  "puts_loop t index s =
     (if t index \<noteq> 0 then puts_loop t (index + 1) (putc (t index) s) else Some (index, s))"

definition puts :: "bytes \<Rightarrow> 'a console_scheme \<Rightarrow> (u32 \<times> 'a console_scheme) option" where
  "puts t s = puts_loop t 0 s"

declare puts_loop.simps [loop_unfold]

text \<open>
  The conversions of \<open>printf\<close>, each giving the string its \<open>puts\<close> prints: \<open>%x\<close>, \<open>%#x\<close>
  (which pads to eight digits in front of the numeral), \<open>%u\<close> and \<open>%d\<close>. What the buffer
  \<open>conv_buf\<close> holds before is never read.
\<close>

function pad8 :: "bytes \<Rightarrow> int \<Rightarrow> bytes" where
  "pad8 conv_buf i = (if i < 8 then pad8 (conv_buf(word_of_int i := 48)) (i + 1) else conv_buf)"
  by pat_completeness auto
termination
  by (relation "measure (\<lambda>(conv_buf, i). nat (8 - i))") auto

declare pad8.simps [simp del, loop_unfold]

definition conv_x :: "bool \<Rightarrow> bytes \<Rightarrow> u32 \<Rightarrow> (fault + bytes) option" where
  "conv_x alternate conv_buf v =
     (if \<not> alternate then itoa v conv_buf 16
      else case itoa v (view conv_buf 8) 16 of
          Some (Inr b) \<Rightarrow>
            (let conv_buf = place 8 b
             in case strlen (view conv_buf 8) of
                 None \<Rightarrow> None
               | Some starting_index \<Rightarrow>
                   Some (Inr (view (pad8 conv_buf (sint starting_index)) starting_index)))
        | r \<Rightarrow> r)"

definition conv_u :: "bytes \<Rightarrow> u32 \<Rightarrow> (fault + bytes) option" where
  "conv_u conv_buf v = itoa v conv_buf 10"

definition conv_d :: "bytes \<Rightarrow> u32 \<Rightarrow> (fault + bytes) option" where
  "conv_d conv_buf v =
     (if sint v < 0 then
        case itoa (- v) (view (conv_buf(0 := 45)) 1) 10 of
          Some (Inr b) \<Rightarrow> Some (Inr (place 1 b))
        | r \<Rightarrow> r
      else itoa v conv_buf 10)"

definition puts_conv ::
  "(fault + bytes) option \<Rightarrow> 'a console_scheme \<Rightarrow> (fault + 'a console_scheme) option" where
  "puts_conv r s =
     (case r of
        None \<Rightarrow> None
      | Some (Inl e) \<Rightarrow> Some (Inl e)
      | Some (Inr b) \<Rightarrow> map_option (\<lambda>(_, s). Inr s) (puts b s))"

text \<open>
  The two switches of \<open>printf\<close>: \<open>printf_loop\<close> on ordinary characters and
  \<open>printf_conv\<close> after a \<open>%\<close> (\<open>format_char_switch\<close>). The format is the list of its bytes
  before the NUL, the arguments the stack words after it, strings being addresses in memory. A
  format that ends inside a conversion makes the C loop step over its NUL, and a conversion with
  no argument left reads a stack word the caller did not push: both are \<open>OutOfBounds\<close>.
\<close>

fun printf_loop ::
    "u8 list \<Rightarrow> u32 list \<Rightarrow> 'a console_scheme \<Rightarrow> (fault + 'a console_scheme) option"
  and printf_conv ::
    "bool \<Rightarrow> u8 list \<Rightarrow> u32 list \<Rightarrow> 'a console_scheme \<Rightarrow> (fault + 'a console_scheme) option"
where
  "printf_loop [] esp s = Some (Inr s)"
| "printf_loop (c # buf) esp s =
     (if c = 37 then printf_conv False buf esp s else printf_loop buf esp (putc c s))"
| "printf_conv alternate [] esp s = Some (Inl OutOfBounds)"
| "printf_conv alternate (c # buf) esp s =
     (if c = 37 then printf_loop buf esp (putc 37 s)
      else if c = 35 then printf_conv True buf esp s
      else if c \<in> {120, 117, 100, 99, 115} then
        case esp of
          [] \<Rightarrow> Some (Inl OutOfBounds)
        | v # esp \<Rightarrow>
            (case (if c = 120 then puts_conv (conv_x alternate (\<lambda>_. 0) v) s
                   else if c = 117 then puts_conv (conv_u (\<lambda>_. 0) v) s
                   else if c = 100 then puts_conv (conv_d (\<lambda>_. 0) v) s
                   else if c = 99 then Some (Inr (putc (ucast v) s))
                   else puts_conv (Some (Inr (view (mem s) v))) s) of
               Some (Inr s) \<Rightarrow> printf_loop buf esp s
             | r \<Rightarrow> r)
      else printf_loop buf esp s)"

definition printf ::
  "u8 list \<Rightarrow> u32 list \<Rightarrow> 'a console_scheme \<Rightarrow> (fault + nat \<times> 'a console_scheme) option" where
  "printf format esp s =
     (case printf_loop format esp s of
        None \<Rightarrow> None
      | Some (Inl e) \<Rightarrow> Some (Inl e)
      | Some (Inr s) \<Rightarrow> Some (Inr (length format, s)))"

text \<open>A call of \<open>printf\<close> with a literal and no arguments.\<close>

definition printk :: "string \<Rightarrow> 'a console_scheme \<Rightarrow> 'a console_scheme" where
  "printk format s =
     (case printf (map of_char format) [] s of Some (Inr (_, s)) \<Rightarrow> s | _ \<Rightarrow> s)"

section \<open>clear and test_interrupts\<close>

definition clear :: "'a console_scheme \<Rightarrow> 'a console_scheme" where
  "clear s =
     (let s = s\<lparr>mem := fold (\<lambda>i m. m(vid (int i) := 32)) [0..<nat (NUM_ROWS * NUM_COLS)] (mem s)\<rparr>;
          s = set_screen_pos 0 0 s;
          s = update_cursor_loc 0 0 s
      in printk ''391OS> '' s)"

definition test_interrupts :: "'a machine_scheme \<Rightarrow> 'a machine_scheme" where
  "test_interrupts s =
     s\<lparr>mem := fold (\<lambda>i m. m(vid (int i) := m (vid (int i)) + 1)) [0..<nat (NUM_ROWS * NUM_COLS)] (mem s)\<rparr>"

section \<open>Video memory as a grid\<close>

lemma vid_eq_iff:
  assumes "0 \<le> i" "i < 2 ^ 30" "0 \<le> j" "j < 2 ^ 30"
  shows "vid i = vid j \<longleftrightarrow> i = j"
proof
  have u: "uint (word_of_int (k * 2) :: u32) = k * 2" if "0 \<le> k" "k < 2 ^ 30" for k
    using that by (intro uint_word_of_int_range) auto
  assume "vid i = vid j"
  then have "(word_of_int (i * 2) :: u32) = word_of_int (j * 2)"
    unfolding vid_def by (rule add_left_imp_eq)
  then have "i * 2 = j * 2" using u [of i] u [of j] assms by metis
  then show "i = j" by simp
qed simp

definition set_cell :: "u8 \<Rightarrow> int \<Rightarrow> bytes \<Rightarrow> bytes" where
  "set_cell c k m = m(vid k := c)"

lemma fold_set_cell:
  "fold (\<lambda>k. set_cell c (b + int k)) [0..<n] m = (\<lambda>a. if a \<in> vid ` {b..<b + int n} then c else m a)"
proof (induction n)
  case (Suc n)
  have "{b..<b + int (Suc n)} = insert (b + int n) {b..<b + int n}" by auto
  with Suc show ?case by (auto simp: set_cell_def fun_eq_iff)
qed simp

lemmas fold_set_cells = fold_set_cell [unfolded set_cell_def]

text \<open>Moving cells up by one row, one at a time and all at once.\<close>

definition copy_up :: "int \<Rightarrow> bytes \<Rightarrow> bytes" where
  "copy_up k m = m(vid k := m (vid k + 160))"

definition shift_row :: "int \<Rightarrow> bytes \<Rightarrow> bytes" where
  "shift_row n m = (\<lambda>a. if a \<in> vid ` {0..<n} then m (a + 160) else m a)"

lemma vid_row: "vid (i + 80) = vid i + 160"
  by (simp add: vid_def algebra_simps)

lemma vid_in_iff: "0 \<le> i \<Longrightarrow> i < 2 ^ 30 \<Longrightarrow> 0 \<le> lo \<Longrightarrow> hi \<le> 2 ^ 30 \<Longrightarrow>
    vid i \<in> vid ` {lo..<hi} \<longleftrightarrow> lo \<le> i \<and> i < hi"
proof
  assume r: "0 \<le> i" "i < 2 ^ 30" "0 \<le> lo" "hi \<le> 2 ^ 30" and "vid i \<in> vid ` {lo..<hi}"
  then obtain j where "lo \<le> j" "j < hi" "vid i = vid j" by auto
  with r vid_eq_iff [of i j] show "lo \<le> i \<and> i < hi" by auto
qed auto

lemma shift_row_step: "0 \<le> k \<Longrightarrow> k < 2000 \<Longrightarrow> copy_up k (shift_row k m) = shift_row (k + 1) m"
proof -
  assume k: "0 \<le> k" "k < 2000"
  have "vid k + 160 \<notin> vid ` {0..<k}"
    using k vid_in_iff [of "k + 80" 0 k] by (simp add: vid_row)
  moreover have "{0..<k + 1} = insert k {0..<k}" using k by auto
  ultimately show ?thesis by (auto simp: copy_up_def shift_row_def fun_eq_iff)
qed

lemma fold_shift_row:
  "0 \<le> b \<Longrightarrow> b + int n \<le> 2000 \<Longrightarrow>
   fold (\<lambda>col. copy_up (b + int col)) [0..<n] (shift_row b m) = shift_row (b + int n) m"
  by (induction n) (simp_all add: shift_row_step algebra_simps)

lemma fold_shift_rows:
  "80 * int r \<le> 2000 \<Longrightarrow>
   fold (\<lambda>row. fold (\<lambda>col. copy_up (80 * int row + int col)) [0..<80]) [0..<r] m = shift_row (80 * int r) m"
proof (induction r)
  case 0
  then show ?case by (simp add: shift_row_def)
next
  case (Suc r)
  then show ?case using fold_shift_row [of "80 * int r" 80 m] by (simp add: algebra_simps)
qed

text \<open>The memory \<open>scroll\<close> leaves: every row takes the text of the next, the last is cleared.\<close>

lemma scroll_mem:
  "mem (scroll s) = (\<lambda>a. if a \<in> vid ` {1920..<2000} then 0 else shift_row 1920 (mem s) a)"
proof -
  have idx: "m(vid (NUM_COLS * int row + int col) := m (vid (NUM_COLS * (int row + 1) + int col))) =
      copy_up (80 * int row + int col) m" for row col m
    using vid_row [of "80 * int row + int col"] by (simp add: copy_up_def NUM_COLS_def algebra_simps)
  have dims: "nat NUM_COLS = 80" "nat (NUM_ROWS - 1) = 24" "NUM_COLS * (NUM_ROWS - 1) = 1920"
    by (simp_all add: const_defs)
  have up: "fold (\<lambda>row. fold (\<lambda>col. copy_up (80 * int row + int col)) [0..<80]) [0..<24] (mem s) =
      shift_row 1920 (mem s)"
    using fold_shift_rows [of 24 "mem s"] by simp
  have "mem (scroll s) = fold (\<lambda>col m. m(vid (1920 + int col) := 0)) [0..<80] (shift_row 1920 (mem s))"
    unfolding scroll_def Let_def idx dims up by (simp del: upt_Suc fold_simps)
  then show ?thesis using fold_set_cells [of 1920 0 80] by simp
qed

section \<open>What console output may change\<close>

definition screen_inv :: "'a console_scheme \<Rightarrow> bool" where
  "screen_inv s \<longleftrightarrow> 0 \<le> screen_x s \<and> screen_x s < NUM_COLS \<and> 0 \<le> screen_y s \<and> screen_y s < NUM_ROWS"

text \<open>The character bytes of the text screen.\<close>

definition text_cells :: "u32 set" where
  "text_cells = vid ` {0..<2000}"

text \<open>
  One step of console output: only memory, ports and the cursor change; the cursor stays on the
  screen, and of memory only character bytes of the text screen are written (neither attribute
  bytes nor anything outside the screen).
\<close>

definition con_step :: "'a console_scheme \<Rightarrow> 'a console_scheme \<Rightarrow> bool" where
  "con_step s t \<longleftrightarrow>
     (\<exists>m i x y. t = s\<lparr>mem := m, io := i, screen_x := x, screen_y := y\<rparr>) \<and> extends_io s t
     \<and> (screen_inv s \<longrightarrow> screen_inv t \<and> (\<forall>a. a \<notin> text_cells \<longrightarrow> mem t a = mem s a))"

lemma con_step_refl: "con_step s s"
proof -
  have "s = s\<lparr>mem := mem s, io := io s, screen_x := screen_x s, screen_y := screen_y s\<rparr>" by simp
  then show ?thesis unfolding con_step_def extends_io_def by (metis append_Nil2)
qed

lemma con_step_trans: "con_step s t \<Longrightarrow> con_step t u \<Longrightarrow> con_step s u"
proof -
  assume 1: "con_step s t" and 2: "con_step t u"
  then obtain m i x y m' i' x' y' where
    t: "t = s\<lparr>mem := m, io := i, screen_x := x, screen_y := y\<rparr>" and
    u: "u = t\<lparr>mem := m', io := i', screen_x := x', screen_y := y'\<rparr>"
    unfolding con_step_def by blast
  then have "u = s\<lparr>mem := m', io := i', screen_x := x', screen_y := y'\<rparr>" by simp
  moreover have "extends_io s u"
    using 1 2 unfolding con_step_def by (blast intro: extends_io_trans)
  ultimately show ?thesis using 1 2 unfolding con_step_def by metis
qed

lemma con_step_intr: "con_step s t \<Longrightarrow> intr t = intr s"
  by (auto simp: con_step_def)

lemma con_step_more: "con_step s t \<Longrightarrow> console.more t = console.more s"
  by (auto simp: con_step_def)

lemma con_step_inv: "con_step s t \<Longrightarrow> screen_inv s \<Longrightarrow> screen_inv t"
  by (simp add: con_step_def)

lemma con_step_mem: "con_step s t \<Longrightarrow> screen_inv s \<Longrightarrow> a \<notin> text_cells \<Longrightarrow> mem t a = mem s a"
  by (simp add: con_step_def)

lemma con_stepI:
  assumes "t = s\<lparr>mem := m, io := io s @ es, screen_x := x, screen_y := y\<rparr>"
    and "screen_inv s \<Longrightarrow> 0 \<le> x \<and> x < NUM_COLS \<and> 0 \<le> y \<and> y < NUM_ROWS"
    and "\<And>a. screen_inv s \<Longrightarrow> a \<notin> text_cells \<Longrightarrow> m a = mem s a"
  shows "con_step s t"
  using assms unfolding con_step_def extends_io_def by (auto simp: screen_inv_def)

text \<open>The four port writes that move the hardware cursor.\<close>

definition cursor_events :: "int \<Rightarrow> int \<Rightarrow> io_event list" where
  "cursor_events x y =
     (let pos = (word_of_int (NUM_COLS * y + x) :: u16)
      in [Out FB_COMMAND_PORT FB_HIGH_BYTE_COMMAND, Out FB_DATA_PORT (ucast (drop_bit 8 pos AND 0x00FF)),
          Out FB_COMMAND_PORT FB_LOW_BYTE_COMMAND, Out FB_DATA_PORT (ucast (pos AND 0x00FF))])"

lemma update_cursor_loc_eq: "update_cursor_loc x y s = s\<lparr>io := io s @ cursor_events x y\<rparr>"
  by (simp add: update_cursor_loc_def cursor_events_def outb_def Let_def)

lemma vid_text_cell:
  "screen_inv s \<Longrightarrow> vid (NUM_COLS * screen_y s + screen_x s) \<in> text_cells"
  by (auto simp: text_cells_def screen_inv_def const_defs)

text \<open>The cells lie in the first 4000 bytes of video memory.\<close>

lemma text_cells_low: "a \<in> text_cells \<Longrightarrow> unat a < 0xB8000 + 4000"
proof -
  assume "a \<in> text_cells"
  then obtain k where k: "a = vid k" "0 \<le> k" "k < 2000" by (auto simp: text_cells_def)
  have "unat (word_of_int (k * 2) :: u32) = nat (k * 2)"
    by (rule unat_word_of_int_range) (use k in simp_all)
  then have "unat a = 0xB8000 + nat (k * 2)"
    using k by (simp only: k(1) vid_def unat_word_ariths(1)) (simp add: VIDEO_def)
  then show ?thesis using k by simp
qed

lemma text_cells_below: "0xB9000 \<le> a \<Longrightarrow> a \<notin> text_cells"
  using text_cells_low [of a] by (auto simp: word_le_nat_alt)

lemma scroll_outside: "a \<notin> text_cells \<Longrightarrow> mem (scroll s) a = mem s a"
  by (auto simp: scroll_mem shift_row_def text_cells_def)

lemma do_enter_eq:
  "do_enter s =
     (if screen_y s = NUM_ROWS - 1
      then s\<lparr>mem := mem (scroll s), io := io s @ cursor_events 0 (NUM_ROWS - 1),
             screen_x := 0, screen_y := NUM_ROWS - 1\<rparr>
      else s\<lparr>mem := mem s, io := io s @ cursor_events 0 (screen_y s + 1),
             screen_x := 0, screen_y := screen_y s + 1\<rparr>)"
  by (simp add: do_enter_def scroll_def update_cursor_loc_eq Let_def)

lemma con_step_enter: "con_step s (do_enter s)"
proof (cases "screen_y s = NUM_ROWS - 1")
  case True
  then show ?thesis
    by (intro con_stepI [where m = "mem (scroll s)" and x = 0 and y = "NUM_ROWS - 1"
          and es = "cursor_events 0 (NUM_ROWS - 1)"])
      (simp_all add: do_enter_eq scroll_outside const_defs)
next
  case False
  then show ?thesis
    by (intro con_stepI [where m = "mem s" and x = 0 and y = "screen_y s + 1"
          and es = "cursor_events 0 (screen_y s + 1)"])
      (auto simp: do_enter_eq screen_inv_def const_defs)
qed

lemma con_step_putc: "con_step s (putc c s)"
proof (cases "c = 10 \<or> c = 13")
  case True
  then show ?thesis by (simp add: putc_def con_step_enter)
next
  case nl: False
  let ?m = "(mem s)(vid (NUM_COLS * screen_y s + screen_x s) := c)"
  have out: "?m a = mem s a" if "screen_inv s" "a \<notin> text_cells" for a
    using vid_text_cell [OF that(1)] that(2) by auto
  show ?thesis
  proof (cases "screen_x s + 1 \<ge> NUM_COLS")
    case True
    let ?t = "s\<lparr>mem := ?m, screen_x := screen_x s + 1\<rparr>"
    have out': "mem (scroll ?t) a = mem s a" if "screen_inv s" "a \<notin> text_cells" for a
      using scroll_outside [OF that(2), of ?t] out [OF that] by simp
    have eq: "putc c s = do_enter ?t" using True nl by (simp add: putc_def Let_def)
    show ?thesis
    proof (cases "screen_y s = NUM_ROWS - 1")
      case True
      with eq out' show ?thesis
        by (intro con_stepI [where m = "mem (scroll ?t)" and x = 0 and y = "NUM_ROWS - 1"
            and es = "cursor_events 0 (NUM_ROWS - 1)"]) (simp_all add: do_enter_eq const_defs)
    next
      case False
      with eq out show ?thesis
        by (intro con_stepI [where m = ?m and x = 0 and y = "screen_y s + 1"
            and es = "cursor_events 0 (screen_y s + 1)"])
          (auto simp: do_enter_eq screen_inv_def const_defs)
    qed
  next
    case False
    with nl show ?thesis
      by (intro con_stepI [where m = ?m and x = "screen_x s + 1" and y = "screen_y s"
            and es = "cursor_events (screen_x s + 1) (screen_y s)"])
        (use out in \<open>auto simp: putc_def update_cursor_loc_eq screen_inv_def\<close>)
  qed
qed

text \<open>
  The contract the output routines rely on: a character sink whose every output is an allowed
  step. Whatever is printed through it, however long, is an allowed step.
\<close>

locale char_sink =
  fixes put :: "u8 \<Rightarrow> 's \<Rightarrow> 's" and ok :: "'s \<Rightarrow> 's \<Rightarrow> bool"
  assumes ok_put: "ok s (put c s)"
    and ok_refl: "ok s s"
    and ok_trans: "ok s t \<Longrightarrow> ok t u \<Longrightarrow> ok s u"
begin

lemma ok_fold: "ok s (fold put cs s)"
proof (induction cs arbitrary: s)
  case Nil
  show ?case by (simp add: ok_refl)
next
  case (Cons c cs)
  have "ok s (put c s)" by (rule ok_put)
  moreover have "ok (put c s) (fold put cs (put c s))" by (rule Cons.IH)
  ultimately have "ok s (fold put cs (put c s))" by (rule ok_trans)
  then show ?case by simp
qed

lemma ok_put_after: "ok s t \<Longrightarrow> ok s (fold put cs t)"
  by (rule ok_trans) (assumption, rule ok_fold)

end

interpretation con: char_sink putc con_step
  by unfold_locales (rule con_step_putc, rule con_step_refl, rule con_step_trans)

section \<open>puts and printf print what they should\<close>

lemma puts_loop_is_str:
  "is_str t xs \<Longrightarrow> k \<le> length xs \<Longrightarrow>
   puts_loop t (of_nat k) s = Some (of_nat (length xs), fold putc (drop k xs) s)"
proof (induction "length xs - k" arbitrary: k s)
  case 0
  then have "k = length xs" by simp
  with 0 show ?case by (simp add: puts_loop.simps is_str_def)
next
  case (Suc n)
  then have k: "k < length xs" by simp
  with Suc.prems have t: "t (of_nat k) = xs ! k" "xs ! k \<noteq> 0"
    by (auto simp: is_str_def in_set_conv_nth)
  have "puts_loop t (of_nat k) s = puts_loop t (of_nat (Suc k)) (putc (xs ! k) s)"
    using t by (simp add: puts_loop.simps [of t "of_nat k"] add.commute)
  also have "\<dots> = Some (of_nat (length xs), fold putc (drop (Suc k) xs) (putc (xs ! k) s))"
    using Suc.hyps(2) k by (intro Suc.hyps(1) Suc.prems(1)) simp_all
  also have "drop k xs = xs ! k # drop (Suc k) xs" using k by (simp add: Cons_nth_drop_Suc)
  then have "fold putc (drop (Suc k) xs) (putc (xs ! k) s) = fold putc (drop k xs) s" by simp
  finally show ?case .
qed

lemma puts_is_str: "is_str t xs \<Longrightarrow> puts t s = Some (of_nat (length xs), fold putc xs s)"
  using puts_loop_is_str [of t xs 0 s] by (simp add: puts_def)

lemma puts_conv_is_str: "is_str t xs \<Longrightarrow> puts_conv (Some (Inr t)) s = Some (Inr (fold putc xs s))"
  by (simp add: puts_conv_def puts_is_str)

lemma printf_loop_plain: "37 \<notin> set f \<Longrightarrow> printf_loop f esp s = Some (Inr (fold putc f s))"
  by (induction f arbitrary: s) auto

lemma printk_plain:
  "37 \<notin> set (map of_char f :: u8 list) \<Longrightarrow> printk f s = fold putc (map of_char f) s"
  by (simp add: printk_def printf_def printf_loop_plain)

lemma con_step_printk: "37 \<notin> set (map of_char f :: u8 list) \<Longrightarrow> con_step s (printk f s)"
  unfolding printk_plain by (rule con.ok_fold)

lemma con_step_clear: "con_step s (clear s)"
proof -
  define m where "m = fold (\<lambda>i m. m(vid (int i) := 32)) [0..<nat (NUM_ROWS * NUM_COLS)] (mem s)"
  have "nat (NUM_ROWS * NUM_COLS) = 2000" by (simp add: const_defs)
  then have m: "m = (\<lambda>a. if a \<in> vid ` {0..<2000} then 32 else mem s a)"
    using fold_set_cells [of 0 32 2000 "mem s"] unfolding m_def by (simp del: upt_Suc upt_rec_numeral)
  have "con_step s (update_cursor_loc 0 0 (set_screen_pos 0 0 (s\<lparr>mem := m\<rparr>)))"
    by (rule con_stepI [where m = m and x = 0 and y = 0 and es = "cursor_events 0 0"])
      (simp_all add: update_cursor_loc_eq set_screen_pos_def m text_cells_def const_defs)
  then show ?thesis
    unfolding clear_def Let_def m_def [symmetric] by (rule con_step_trans) (rule con_step_printk, simp)
qed

lemma printf_directive:
  assumes "is_str t xs" and "c \<in> {120, 117, 100, 115}"
    and "(if c = 120 then conv_x alt (\<lambda>_. 0) v else if c = 117 then conv_u (\<lambda>_. 0) v
          else if c = 100 then conv_d (\<lambda>_. 0) v else Some (Inr (view (mem s) v))) = Some (Inr t)"
  shows "printf_conv alt (c # f) (v # esp) s = printf_loop f esp (fold putc xs s)"
  using assms(2,3) puts_conv_is_str [OF assms(1), of s] by auto

lemma conv_u_text: "\<exists>t. conv_u b v = Some (Inr t) \<and> is_str t (numeral_text 10 (unat v))"
  using itoa_correct [of 10 v b] by (auto simp: conv_u_def)

text \<open>The text of a signed number: a minus sign in front of the digits of its absolute value.\<close>

definition signed_text :: "int \<Rightarrow> u8 list" where
  "signed_text i = (if i < 0 then 45 # numeral_text 10 (nat (- i)) else numeral_text 10 (nat i))"

lemma is_str_Cons:
  assumes "is_str t xs" and "c \<noteq> 0" and "u = place 1 t" and "t (- 1) = c" and "length xs < 2 ^ 32 - 1"
  shows "is_str u (c # xs)"
proof -
  have "u (of_nat i) = (c # xs) ! i" if "i < length (c # xs)" for i
    using that assms by (cases i) (auto simp: is_str_def)
  moreover have "u (of_nat (length (c # xs))) = 0"
    using assms by (simp add: is_str_def)
  ultimately show ?thesis using assms by (auto simp: is_str_def)
qed

lemma length_numeral_text: "length (numeral_text r (unat (v :: u32))) \<le> 32"
  using length_digits [of "unat v" 32 r] unat_less_2p32 [of v] by (simp add: numeral_text_def)

lemma conv_d_text: "\<exists>t. conv_d b v = Some (Inr t) \<and> is_str t (signed_text (sint v))"
proof (cases "sint v < 0")
  case True
  obtain t where t: "itoa (- v) (view (b(0 := 45)) 1) 10 = Some (Inr t)"
    "is_str t (numeral_text 10 (unat (- v)))" "\<forall>k. 33 \<le> unat k \<longrightarrow> t k = view (b(0 := 45)) 1 k"
    using itoa_correct [of 10 "- v" "view (b(0 := 45)) 1"] by auto
  have "t (- 1) = 45" using t(3) by (simp add: unat_minus_1_u32)
  moreover have "length (numeral_text 10 (unat (- v))) < 2 ^ 32 - 1"
    using length_numeral_text [of 10 "- v"] by simp
  ultimately have "is_str (place 1 t) (45 # numeral_text 10 (unat (- v)))"
    using is_str_Cons [OF t(2), of 45 "place 1 t"] by simp
  with True t(1) show ?thesis
    by (simp add: conv_d_def signed_text_def unat_minus_sint_neg)
next
  case False
  then show ?thesis
    using itoa_correct [of 10 v b] by (auto simp: conv_d_def signed_text_def unat_sint_nonneg)
qed

lemma pad8_eq:
  "0 \<le> i \<Longrightarrow> i \<le> 8 \<Longrightarrow> pad8 b i = (\<lambda>k. if i \<le> uint k \<and> uint k < 8 then 48 else b k)"
proof (induction b i rule: pad8.induct)
  case (1 b i)
  show ?case
  proof (cases "i < 8")
    case True
    have eq: "k = word_of_int i \<longleftrightarrow> uint k = i" for k :: u32
      using "1.prems" by (intro word_of_int_eq_iff_range) auto
    have "pad8 b i = (\<lambda>k. if i + 1 \<le> uint k \<and> uint k < 8 then 48 else (b(word_of_int i := 48)) k)"
      using True "1.IH" [OF True] "1.prems" by (simp add: pad8.simps [of b i] fun_upd_def)
    then show ?thesis using True by (auto simp: fun_eq_iff eq)
  next
    case False
    then have "pad8 b i = b" by (simp add: pad8.simps [of b i])
    with False "1.prems" show ?thesis by (auto simp: fun_eq_iff)
  qed
qed

lemma conv_x_alt_text:
  "\<exists>t. conv_x True b v = Some (Inr t) \<and>
     is_str t (replicate (8 - length (numeral_text 16 (unat v))) 48 @ numeral_text 16 (unat v))"
proof -
  define xs where "xs = numeral_text 16 (unat v)"
  obtain t where t: "itoa v (view b 8) 16 = Some (Inr t)" "is_str t xs"
    using itoa_correct [of 16 v "view b 8"] by (auto simp: xs_def)
  have L: "length xs \<le> 8"
    using length_digits_pow [of 16 "unat v" 8] unat_less_2p32 [of v]
    by (simp add: xs_def numeral_text_def)
  define n where "n = (of_nat (length xs) :: u32)"
  have n: "unat n = length xs" "sint n = int (length xs)"
    using L by (simp_all add: n_def unat_of_nat signed_of_nat signed_take_bit_int_eq_self)
  let ?c = "place 8 t"
  let ?ys = "replicate (8 - length xs) 48 @ xs"
  let ?u = "view (pad8 ?c (sint n)) n"
  have "strlen t = Some n"
    using is_str_cstr [OF t(2)] by (simp add: n_def strlen_Some_iff)
  then have conv: "conv_x True b v = Some (Inr ?u)"
    using t(1) by (simp add: conv_x_def)
  have u: "?u i = (if int (length xs) \<le> uint (n + i) \<and> uint (n + i) < 8 then 48 else t (n + i - 8))" for i
    using L by (simp add: n(2) pad8_eq)
  have ui: "uint (n + of_nat i) = int (length xs + i)" if "i \<le> 8" for i
    using that L by (simp add: n_def uint_nat unat_of_nat flip: of_nat_add)
  have "?u (of_nat i) = (?ys @ [0]) ! i" if i: "i \<le> 8" for i
  proof (cases "length xs + i < 8")
    case True
    then have "i < 8 - length xs" by linarith
    then have "?ys ! i = 48" by (simp add: nth_append)
    moreover have "(?ys @ [0]) ! i = ?ys ! i" using True by (simp add: nth_append_left)
    moreover have "?u (of_nat i) = 48" using True unfolding u ui [OF i] by simp
    ultimately show ?thesis by simp
  next
    case False
    define j where "j = i + length xs - 8"
    have j: "i = 8 - length xs + j" "j \<le> length xs" "length xs + i = 8 + j"
      using False i L unfolding j_def by linarith+
    have "n + of_nat i - 8 = (of_nat (length xs + i) - 8 :: u32)" by (simp add: n_def)
    also have "\<dots> = of_nat j" by (simp add: j(3))
    finally have "?u (of_nat i) = t (of_nat j)" using False unfolding u ui [OF i] by simp
    moreover have "t (of_nat j) = (xs @ [0]) ! j"
      using t(2) j(2) by (cases "j = length xs") (auto simp: is_str_def nth_append)
    moreover have "(?ys @ [0]) ! i = (xs @ [0]) ! j"
      unfolding j(1) append_assoc by (metis length_replicate nth_append_length_plus)
    ultimately show ?thesis by simp
  qed
  then have eq: "?u (of_nat i) = (?ys @ [0]) ! i" if "i \<le> 8" for i using that by blast
  have "length ?ys = 8" using L by simp
  moreover have "0 \<notin> set ?ys" using t(2) by (auto simp: is_str_def)
  moreover have "?u (of_nat i) = ?ys ! i" if "i < 8" for i
    using eq [of i] that \<open>length ?ys = 8\<close> by (metis less_imp_le nth_append)
  moreover have "?u (of_nat 8) = 0"
    using eq [of 8] \<open>length ?ys = 8\<close> by (metis nth_append_length order_refl)
  ultimately have "is_str ?u ?ys" unfolding is_str_def by auto
  with conv show ?thesis by (auto simp: xs_def)
qed

section \<open>The screen as lines of text\<close>

text \<open>
  The abstract terminal: 25 lines of 80 characters and a cursor. Output writes at the cursor and
  moves it; at the end of the last line every line moves up and the last becomes blank.
\<close>

type_synonym tty = "u8 list list \<times> nat \<times> nat"

definition tty_of :: "'a console_scheme \<Rightarrow> tty" where
  "tty_of s = (map (\<lambda>r. map (\<lambda>c. mem s (vid (int (80 * r + c)))) [0..<80]) [0..<25],
     nat (screen_x s), nat (screen_y s))"

fun tty_enter :: "tty \<Rightarrow> tty" where
  "tty_enter (ls, x, y) =
     (if y = 24 then (tl ls @ [replicate 80 0], 0, 24) else (ls, 0, y + 1))"

fun tty_putc :: "u8 \<Rightarrow> tty \<Rightarrow> tty" where
  "tty_putc c (ls, x, y) =
     (if c = 10 \<or> c = 13 then tty_enter (ls, x, y)
      else let ls = ls[y := (ls ! y)[x := c]]
           in if x + 1 \<ge> 80 then tty_enter (ls, x + 1, y) else (ls, x + 1, y))"

definition lines_of :: "bytes \<Rightarrow> u8 list list" where
  "lines_of m = map (\<lambda>r. map (\<lambda>c. m (vid (int (80 * r + c)))) [0..<80]) [0..<25]"

lemma tty_of_lines: "tty_of s = (lines_of (mem s), nat (screen_x s), nat (screen_y s))"
  by (simp add: tty_of_def lines_of_def)

lemma lines_of_scroll: "lines_of (mem (scroll s)) = tl (lines_of (mem s)) @ [replicate 80 0]"
proof (rule nth_equalityI)
  fix r assume "r < length (lines_of (mem (scroll s)))"
  then have r: "r < 25" by (simp add: lines_of_def)
  have cell: "mem (scroll s) (vid (int (80 * r + c))) =
      (if r = 24 then 0 else mem s (vid (int (80 * Suc r + c))))" if "c < 80" for c
  proof -
    have "vid (int (80 * r + c)) \<in> vid ` {1920..<2000} \<longleftrightarrow> r = 24"
      using vid_in_iff [of "int (80 * r + c)" 1920 2000] that r by auto
    moreover have "vid (int (80 * r + c)) \<in> vid ` {0..<1920} \<longleftrightarrow> r \<noteq> 24"
      using vid_in_iff [of "int (80 * r + c)" 0 1920] that r by auto
    moreover have "vid (int (80 * r + c)) + 160 = vid (int (80 * Suc r + c))"
      using vid_row [of "int (80 * r + c)"] by (simp add: algebra_simps)
    ultimately show ?thesis by (simp add: scroll_mem shift_row_def)
  qed
  show "lines_of (mem (scroll s)) ! r = (tl (lines_of (mem s)) @ [replicate 80 0]) ! r"
  proof (cases "r = 24")
    case True
    then show ?thesis using cell by (simp add: lines_of_def nth_append list_eq_iff_nth_eq)
  next
    case False
    with r have "r < 24" by simp
    then show ?thesis using cell False by (simp add: lines_of_def nth_append nth_tl list_eq_iff_nth_eq)
  qed
qed (simp add: lines_of_def)

lemma cell_index_eq:
  "k < 80 \<Longrightarrow> x < 80 \<Longrightarrow> 80 * r + k = 80 * y + x \<longleftrightarrow> r = y \<and> k = x" for k x r y :: nat
proof
  assume lt: "k < 80" "x < 80" and eq: "80 * r + k = 80 * y + x"
  have "(80 * r + k) div 80 = (80 * y + x) div 80" "(80 * r + k) mod 80 = (80 * y + x) mod 80"
    by (simp_all only: eq)
  with lt show "r = y \<and> k = x" by simp
qed simp

lemma length_lines_of [simp]: "length (lines_of m) = 25"
  by (simp add: lines_of_def)

lemma nth_lines_of:
  "r < 25 \<Longrightarrow> lines_of m ! r = map (\<lambda>c. m (vid (int (80 * r + c)))) [0..<80]"
  by (simp add: lines_of_def del: upt_Suc)

lemma lines_of_upd:
  assumes "x < 80" and "y < 25"
  shows "lines_of (m(vid (int (80 * y + x)) := c)) = (lines_of m)[y := (lines_of m ! y)[x := c]]"
proof (rule nth_equalityI)
  fix r assume "r < length (lines_of (m(vid (int (80 * y + x)) := c)))"
  then have r: "r < 25" by (simp add: lines_of_def)
  have eq: "vid (int (80 * r + k)) = vid (int (80 * y + x)) \<longleftrightarrow> r = y \<and> k = x" if "k < 80" for k
  proof -
    have "vid (int (80 * r + k)) = vid (int (80 * y + x)) \<longleftrightarrow> int (80 * r + k) = int (80 * y + x)"
      using that r assms by (intro vid_eq_iff) simp_all
    then show ?thesis unfolding of_nat_eq_iff cell_index_eq [OF that assms(1)] .
  qed
  show "lines_of (m(vid (int (80 * y + x)) := c)) ! r = (lines_of m)[y := (lines_of m ! y)[x := c]] ! r"
  proof (rule nth_equalityI)
    fix k assume "k < length (lines_of (m(vid (int (80 * y + x)) := c)) ! r)"
    then have k: "k < 80" using r by (simp add: nth_lines_of)
    have "lines_of (m(vid (int (80 * y + x)) := c)) ! r ! k =
        (m(vid (int (80 * y + x)) := c)) (vid (int (80 * r + k)))"
      using r k by (simp only: nth_lines_of) simp
    also have "\<dots> = (if r = y \<and> k = x then c else lines_of m ! r ! k)"
      unfolding fun_upd_apply eq [OF k] using r k by (simp add: nth_lines_of del: upt_Suc)
    also have "\<dots> = (lines_of m)[y := (lines_of m ! y)[x := c]] ! r ! k"
      using r k assms by (auto simp: nth_list_update nth_lines_of simp del: upt_Suc)
    finally show "lines_of (m(vid (int (80 * y + x)) := c)) ! r ! k =
        (lines_of m)[y := (lines_of m ! y)[x := c]] ! r ! k" .
  qed (use r assms in \<open>auto simp: nth_list_update nth_lines_of simp del: upt_Suc\<close>)
qed simp

lemma tty_of_enter: "screen_inv s \<Longrightarrow> tty_of (do_enter s) = tty_enter (tty_of s)"
  by (auto simp: do_enter_eq tty_of_lines lines_of_scroll screen_inv_def const_defs)

lemma tty_of_putc_aux:
  assumes "screen_inv s"
  shows "tty_of (putc c s) = tty_putc c (tty_of s)"
proof -
  define x y where "x = nat (screen_x s)" and "y = nat (screen_y s)"
  have xy: "x < 80" "y < 25" "screen_x s = int x" "screen_y s = int y"
    using assms by (auto simp: x_def y_def screen_inv_def const_defs)
  let ?m = "(mem s)(vid (NUM_COLS * screen_y s + screen_x s) := c)"
  have lines: "lines_of ?m = (lines_of (mem s))[y := (lines_of (mem s) ! y)[x := c]]"
    using lines_of_upd [OF xy(1,2), of "mem s" c] by (simp add: xy(3,4) NUM_COLS_def)
  consider "c = 10 \<or> c = 13" | "c \<noteq> 10" "c \<noteq> 13" "x + 1 \<ge> 80" | "c \<noteq> 10" "c \<noteq> 13" "x + 1 < 80"
    by linarith
  then show ?thesis
  proof cases
    case 1
    then show ?thesis using tty_of_enter [OF assms] by (simp add: putc_def tty_of_lines)
  next
    case 2
    let ?t = "s\<lparr>mem := ?m, screen_x := screen_x s + 1\<rparr>"
    have "putc c s = do_enter ?t" using 2 xy by (simp add: putc_def Let_def NUM_COLS_def)
    moreover have "tty_of (do_enter ?t) = tty_enter (lines_of ?m, x + 1, y)"
      using xy by (auto simp: do_enter_eq tty_of_lines lines_of_scroll const_defs)
    ultimately show ?thesis
      using 2 lines by (simp add: tty_of_lines flip: x_def y_def)
  next
    case 3
    then show ?thesis
      using lines xy by (simp add: putc_def Let_def tty_of_lines update_cursor_loc_eq NUM_COLS_def)
  qed
qed

lemma tty_of_fold: "screen_inv s \<Longrightarrow> tty_of (fold putc xs s) = fold tty_putc xs (tty_of s) \<and> screen_inv (fold putc xs s)"
proof (induction xs arbitrary: s)
  case (Cons x xs)
  then show ?case using tty_of_putc_aux [of s x] con_step_putc [of s x] by (simp add: con_step_def)
qed simp

section \<open>Properties\<close>

lemma conv_x_text: "\<exists>t. conv_x False b v = Some (Inr t) \<and> is_str t (numeral_text 16 (unat v))"
  using itoa_correct [of 16 v b] by (auto simp: conv_x_def)

text \<open>
  Claim C31. A character sent to the screen does to video memory and cursor what it does to a grid of
  25 lines of 80 characters: line wrap, new lines and scrolling included; the cursor stays on the
  screen.
\<close>

theorem putc_refines_tty:
  assumes "screen_inv s"
  shows "tty_of (putc c s) = tty_putc c (tty_of s) \<and> screen_inv (putc c s)"
  using tty_of_putc_aux [OF assms, of c] con_step_putc [of s c] con_step_inv assms by blast

theorem putc_refines_tty_witness:
  "tty_of (putc 65 \<lparr>mem = (\<lambda>_. 32), io = [], intr = False, screen_x = 79, screen_y = 24\<rparr>) =
   tty_putc 65 (tty_of \<lparr>mem = (\<lambda>_. 32), io = [], intr = False, screen_x = 79, screen_y = 24\<rparr>)"
  using putc_refines_tty [of "\<lparr>mem = (\<lambda>_. 32), io = [], intr = False, screen_x = 79, screen_y = 24\<rparr>" 65]
  by (simp add: screen_inv_def const_defs)

text \<open>
  \<open>puts\<close> prints a string character by character and returns its length, and printing any
  text changes nothing but port history, cursor and the character bytes of the screen.
\<close>

theorem puts_prints:
  assumes "is_str t xs"
  shows "puts t s = Some (of_nat (length xs), fold putc xs s) \<and> con_step s (fold putc xs s)"
  using puts_is_str [OF assms] con.ok_fold by blast

theorem puts_prints_witness:
  "puts (c_str ''x'') (\<lparr>mem = (\<lambda>_. 32), io = [], intr = False, screen_x = 0, screen_y = 0\<rparr> :: console) =
   Some (1, fold putc [120] \<lparr>mem = (\<lambda>_. 32), io = [], intr = False, screen_x = 0, screen_y = 0\<rparr>)"
proof -
  have "is_str (c_str ''x'') [120]" by (simp add: is_str_def c_str_def)
  from puts_prints [OF this, of "\<lparr>mem = (\<lambda>_. 32), io = [], intr = False, screen_x = 0, screen_y = 0\<rparr>"]
  show ?thesis by simp
qed

text \<open>
  Claim C38. The numeric conversions of \<open>printf\<close>: \<open>%d\<close> prints the signed value of the argument in
  decimal, \<open>%u\<close> its unsigned value, \<open>%x\<close> its hexadecimal digits and \<open>%#x\<close> those padded to eight
  digits; each then goes on with the rest of the format and of the arguments.
\<close>

theorem printf_numbers:
  "printf_loop (37 # 100 # f) (v # esp) s = printf_loop f esp (fold putc (signed_text (sint v)) s)
   \<and> printf_loop (37 # 117 # f) (v # esp) s = printf_loop f esp (fold putc (numeral_text 10 (unat v)) s)
   \<and> printf_loop (37 # 120 # f) (v # esp) s = printf_loop f esp (fold putc (numeral_text 16 (unat v)) s)
   \<and> printf_loop (37 # 35 # 120 # f) (v # esp) s = printf_loop f esp
       (fold putc (replicate (8 - length (numeral_text 16 (unat v))) 48 @ numeral_text 16 (unat v)) s)"
proof -
  obtain a b c d where "conv_d (\<lambda>_. 0) v = Some (Inr a)" "is_str a (signed_text (sint v))"
    "conv_u (\<lambda>_. 0) v = Some (Inr b)" "is_str b (numeral_text 10 (unat v))"
    "conv_x False (\<lambda>_. 0) v = Some (Inr c)" "is_str c (numeral_text 16 (unat v))"
    "conv_x True (\<lambda>_. 0) v = Some (Inr d)"
    "is_str d (replicate (8 - length (numeral_text 16 (unat v))) 48 @ numeral_text 16 (unat v))"
    using conv_d_text [of "\<lambda>_. 0" v] conv_u_text [of "\<lambda>_. 0" v] conv_x_text [of "\<lambda>_. 0" v]
      conv_x_alt_text [of "\<lambda>_. 0" v] by blast
  then show ?thesis
    by (auto simp: puts_conv_is_str)
qed

text \<open>
  Backspace undoes a character typed before the last column: the cursor returns to where it
  was, and the cell there is the only byte of memory that may differ.
\<close>

theorem backspace_undoes_putc:
  assumes "screen_inv s" and "screen_x s < 79" and "c \<noteq> 10" and "c \<noteq> 13"
  shows "screen_x (do_backspace (putc c s)) = screen_x s \<and> screen_y (do_backspace (putc c s)) = screen_y s
    \<and> mem (do_backspace (putc c s)) = (mem s)(vid (NUM_COLS * screen_y s + screen_x s) := 0)"
  using assms by (simp add: do_backspace_def putc_def update_cursor_loc_eq screen_inv_def Let_def const_defs)

theorem backspace_undoes_putc_witness:
  "screen_x (do_backspace (putc 65 \<lparr>mem = (\<lambda>_. 32), io = [], intr = False, screen_x = 7, screen_y = 3\<rparr>)) = 7"
  using backspace_undoes_putc [of "\<lparr>mem = (\<lambda>_. 32), io = [], intr = False, screen_x = 7, screen_y = 3\<rparr>" 65]
  by (simp add: screen_inv_def const_defs)

text \<open>
  After a character in the last column the cursor is on the next line; backspace then goes to the last
  column but one, and erases there, not the character typed. At the top left corner it leaves the screen.
\<close>

lemma backspace_after_wrap:
  "screen_x s = 0 \<Longrightarrow> 0 < screen_y s \<Longrightarrow>
   screen_x (do_backspace s) = 78 \<and> screen_y (do_backspace s) = screen_y s - 1"
  by (simp add: do_backspace_def update_cursor_loc_eq Let_def const_defs)

lemma backspace_top_left: "screen_x s = 0 \<Longrightarrow> screen_y s = 0 \<Longrightarrow> screen_x (do_backspace s) = - 1"
  by (simp add: do_backspace_def update_cursor_loc_eq Let_def)

text \<open>A format that ends in a bare \<open>%\<close> makes the loop step past the end of the string.\<close>

lemma printf_trailing_percent: "printf [37] esp s = Some (Inl OutOfBounds)"
  by (simp add: printf_def)

end
