(* ===== verification/PIC.thy ===== *)
theory PIC
  imports Screen
begin

text \<open>
  The interrupt controller driver \<^verbatim>\<open>student-distrib/i8259.c\<close>: the two mask bytes, enabling
  and disabling a line, the end-of-interrupt command and the initialisation sequence. The second
  half reads the port writes the driver makes the way the 8259A data sheet does (command words by
  address line and phase), so that what the driver keeps in its globals can be compared with what
  the two chips hold.
\<close>

section \<open>State and operations\<close>

record pic = console +
  master_mask :: u8
  slave_mask :: u8

definition MASTER_8259_PORT :: u16 where [const_defs]: "MASTER_8259_PORT = 0x20"
definition SLAVE_8259_PORT :: u16 where [const_defs]: "SLAVE_8259_PORT = 0xA0"
definition ICW1 :: u8 where [const_defs]: "ICW1 = 0x11"
definition ICW2_MASTER :: u8 where [const_defs]: "ICW2_MASTER = 0x20"
definition ICW2_SLAVE :: u8 where [const_defs]: "ICW2_SLAVE = 0x28"
definition ICW3_MASTER :: u8 where [const_defs]: "ICW3_MASTER = 0x04"
definition ICW3_SLAVE :: u8 where [const_defs]: "ICW3_SLAVE = 0x02"
definition ICW4 :: u8 where [const_defs]: "ICW4 = 0x01"
definition EOI :: u32 where [const_defs]: "EOI = 0x60"
definition KEYBOARD_IRQ_LINE :: u32 where [const_defs]: "KEYBOARD_IRQ_LINE = 1"
definition SLAVE_IRQ_LINE :: u32 where [const_defs]: "SLAVE_IRQ_LINE = 2"
definition RTC_IRQ_LINE :: u32 where [const_defs]: "RTC_IRQ_LINE = 8"

text \<open>The counted loops that build a mask: \<open>(mask << 1) + 1\<close> and \<open>mask << 1\<close> on a byte.\<close>

primrec enable_mask :: "nat \<Rightarrow> u8 \<Rightarrow> u8" where
  "enable_mask 0 m = m"
| "enable_mask (Suc i) m = enable_mask i (push_bit 1 m + 1)"

primrec disable_mask :: "nat \<Rightarrow> u8 \<Rightarrow> u8" where
  "disable_mask 0 m = m"
| "disable_mask (Suc i) m = disable_mask i (push_bit 1 m)"

definition enable_irq :: "u32 \<Rightarrow> 'a pic_scheme \<Rightarrow> 'a pic_scheme" where
  "enable_irq irq_num s =
     (if irq_num \<le> 15 then
        if irq_num \<le> 7 then
          let mask = enable_mask (unat irq_num) 0xFE;
              s = s\<lparr>master_mask := master_mask s AND mask\<rparr>
          in outb (master_mask s) (MASTER_8259_PORT + 1) s
        else
          let irq_num = irq_num - 8;
              mask = enable_mask (unat irq_num) 0xFE;
              s = s\<lparr>slave_mask := slave_mask s AND mask\<rparr>
          in outb (slave_mask s) (SLAVE_8259_PORT + 1) s
      else s)"

definition disable_irq :: "u32 \<Rightarrow> 'a pic_scheme \<Rightarrow> 'a pic_scheme" where
  "disable_irq irq_num s =
     (if irq_num \<le> 15 then
        if irq_num \<le> 7 then
          let mask = disable_mask (unat irq_num) 0x01;
              s = s\<lparr>master_mask := master_mask s OR mask\<rparr>
          in outb (master_mask s) (MASTER_8259_PORT + 1) s
        else
          let irq_num = irq_num - 8;
              mask = disable_mask (unat irq_num) 0x01;
              s = s\<lparr>slave_mask := slave_mask s OR mask\<rparr>
          in outb (slave_mask s) (SLAVE_8259_PORT + 1) s
      else s)"

definition send_eoi :: "u32 \<Rightarrow> 'a machine_scheme \<Rightarrow> 'a machine_scheme" where
  "send_eoi irq_num s =
     (let s = (if irq_num \<le> 7 then outb (ucast (EOI OR irq_num)) MASTER_8259_PORT s else s)
      in if irq_num \<ge> 8 \<and> irq_num \<le> 15
         then outb (ucast (EOI + 2)) MASTER_8259_PORT
                (outb (ucast (EOI OR (irq_num - 8))) SLAVE_8259_PORT s)
         else s)"

definition i8259_init :: "'a pic_scheme \<Rightarrow> 'a pic_scheme" where
  "i8259_init s =
     (let s = outb ICW1 MASTER_8259_PORT s;
          s = outb ICW1 SLAVE_8259_PORT s;
          s = outb ICW2_MASTER (MASTER_8259_PORT + 1) s;
          s = outb ICW2_SLAVE (SLAVE_8259_PORT + 1) s;
          s = outb ICW3_MASTER (MASTER_8259_PORT + 1) s;
          s = outb ICW3_SLAVE (SLAVE_8259_PORT + 1) s;
          s = outb ICW4 (MASTER_8259_PORT + 1) s;
          s = outb ICW4 (SLAVE_8259_PORT + 1) s
      in enable_irq SLAVE_IRQ_LINE s)"

section \<open>Closed forms\<close>

lemma enable_mask_not: "enable_mask n (NOT m) = NOT (push_bit n m)"
proof (induction n arbitrary: m)
  case (Suc n)
  have "push_bit 1 (NOT m) + 1 = NOT (push_bit 1 m)"
    by (simp add: not_eq_complement algebra_simps)
  then show ?case using Suc by (simp add: push_bit_push_bit)
qed simp

lemma enable_mask_eq: "enable_mask n 0xFE = NOT (push_bit n 1)"
proof -
  have "(0xFE :: u8) = NOT 1" by simp
  then show ?thesis by (simp only: enable_mask_not)
qed

lemma disable_mask_eq: "disable_mask n m = push_bit n m"
  by (induction n arbitrary: m) (simp_all add: push_bit_push_bit)

lemma unat_minus_8: "\<not> n \<le> 7 \<Longrightarrow> unat (n - 8) = unat n - 8" for n :: u32
  by (simp add: word_le_nat_alt unat_sub)

text \<open>Whether a line is open in the masks the driver keeps.\<close>

definition irq_open :: "'a pic_scheme \<Rightarrow> u32 \<Rightarrow> bool" where
  "irq_open s n = (if n \<le> 7 then \<not> bit (master_mask s) (unat n)
                   else n \<le> 15 \<and> \<not> bit (slave_mask s) (unat n - 8))"

lemma line_eq_iff: "unat n = unat k \<longleftrightarrow> n = k" for n k :: u32
  by (simp add: word_unat_eq_iff)

lemma enable_irq_eq:
  "enable_irq n s =
     (if n \<le> 7 then s\<lparr>master_mask := master_mask s AND NOT (push_bit (unat n) 1),
          io := io s @ [Out 0x21 (master_mask s AND NOT (push_bit (unat n) 1))]\<rparr>
      else if n \<le> 15 then s\<lparr>slave_mask := slave_mask s AND NOT (push_bit (unat n - 8) 1),
          io := io s @ [Out 0xA1 (slave_mask s AND NOT (push_bit (unat n - 8) 1))]\<rparr>
      else s)"
proof -
  have "n \<le> 7 \<Longrightarrow> n \<le> 15" by (simp add: word_le_nat_alt)
  then show ?thesis
    by (simp add: enable_irq_def enable_mask_eq outb_def Let_def const_defs unat_minus_8)
qed

lemma disable_irq_eq:
  "disable_irq n s =
     (if n \<le> 7 then s\<lparr>master_mask := master_mask s OR push_bit (unat n) 1,
          io := io s @ [Out 0x21 (master_mask s OR push_bit (unat n) 1)]\<rparr>
      else if n \<le> 15 then s\<lparr>slave_mask := slave_mask s OR push_bit (unat n - 8) 1,
          io := io s @ [Out 0xA1 (slave_mask s OR push_bit (unat n - 8) 1)]\<rparr>
      else s)"
proof -
  have "n \<le> 7 \<Longrightarrow> n \<le> 15" by (simp add: word_le_nat_alt)
  then show ?thesis
    by (simp add: disable_irq_def disable_mask_eq outb_def Let_def const_defs unat_minus_8)
qed

lemma line_cases:
  fixes n k :: u32
  shows "n \<le> 7 \<Longrightarrow> k \<le> 7 \<Longrightarrow> unat k = unat n \<longleftrightarrow> k = n"
    and "\<not> n \<le> 7 \<Longrightarrow> \<not> k \<le> 7 \<Longrightarrow> unat k - 8 = unat n - 8 \<longleftrightarrow> k = n"
    and "n \<le> 7 \<Longrightarrow> unat n < 8" and "n \<le> 15 \<Longrightarrow> unat n - 8 < 8"
  by (auto simp: word_le_nat_alt word_unat_eq_iff)

lemma irq_open_enable: "irq_open (enable_irq n s) k \<longleftrightarrow> n \<le> 15 \<and> k = n \<or> irq_open s k"
proof -
  have "n \<le> 7 \<Longrightarrow> n \<le> 15" by (simp add: word_le_nat_alt)
  then show ?thesis
    using line_cases(1,2) [of n k] line_cases(3,4) [of n] line_cases(3,4) [of k] by (auto simp: enable_irq_eq irq_open_def bit_simps)
qed

lemma irq_open_disable: "irq_open (disable_irq n s) k \<longleftrightarrow> \<not> (n \<le> 15 \<and> k = n) \<and> irq_open s k"
proof -
  have "n \<le> 7 \<Longrightarrow> n \<le> 15" by (simp add: word_le_nat_alt)
  then show ?thesis
    using line_cases(1,2) [of n k] line_cases(3,4) [of n] line_cases(3,4) [of k] by (auto simp: disable_irq_eq irq_open_def bit_simps)
qed

text \<open>
  The interface the drivers use: lines that are opened and closed one at a time. What a sequence
  of such calls leaves open depends only on the last call on each line.
\<close>

locale irq_lines =
  fixes opened :: "'s \<Rightarrow> u32 \<Rightarrow> bool" and open_line close_line :: "u32 \<Rightarrow> 's \<Rightarrow> 's"
  assumes opened_open: "opened (open_line n s) k \<longleftrightarrow> n \<le> 15 \<and> k = n \<or> opened s k"
    and opened_close: "opened (close_line n s) k \<longleftrightarrow> \<not> (n \<le> 15 \<and> k = n) \<and> opened s k"
begin

definition apply_line :: "bool \<times> u32 \<Rightarrow> 's \<Rightarrow> 's" where
  "apply_line c = (if fst c then open_line (snd c) else close_line (snd c))"

lemma opened_apply: "k \<le> 15 \<Longrightarrow>
    opened (apply_line c s) k \<longleftrightarrow> (if snd c = k then fst c else opened s k)"
  by (auto simp: apply_line_def opened_open opened_close)

lemma opened_sequence: "k \<le> 15 \<Longrightarrow>
    opened (fold apply_line cs s) k \<longleftrightarrow>
      (case filter (\<lambda>c. snd c = k) (rev cs) of [] \<Rightarrow> opened s k | c # _ \<Rightarrow> fst c)"
proof (induction cs rule: rev_induct)
  case (snoc c cs)
  then show ?case by (simp add: opened_apply)
qed simp

end

interpretation lines: irq_lines irq_open enable_irq disable_irq
  by unfold_locales (rule irq_open_enable, rule irq_open_disable)

section \<open>The two chips\<close>

text \<open>
  An 8259A: while it is being initialised it waits for its remaining control words at its odd
  address, afterwards a write there is its mask. \<open>ICW1\<close> (bit 4 of a write at the even address)
  clears the mask and the in-service bits and restarts the sequence; a specific end-of-interrupt
  command (\<open>011\<close> in the top bits) clears one in-service bit.
\<close>

datatype phase = Ready | WaitICW2 bool bool | WaitICW3 bool | WaitICW4

record chip =
  phase :: phase
  imr :: u8
  isr :: u8
  vector_base :: u8
  cascade :: u8

definition chip_even :: "u8 \<Rightarrow> chip \<Rightarrow> chip" where
  "chip_even d c =
     (if bit d 4 then c\<lparr>phase := WaitICW2 (\<not> bit d 1) (bit d 0), imr := 0, isr := 0\<rparr>
      else if \<not> bit d 3 \<and> drop_bit 5 d = 3 then c\<lparr>isr := isr c AND NOT (push_bit (unat (d AND 7)) 1)\<rparr>
      else c)"

definition chip_odd :: "u8 \<Rightarrow> chip \<Rightarrow> chip" where
  "chip_odd d c =
     (case phase c of
        Ready \<Rightarrow> c\<lparr>imr := d\<rparr>
      | WaitICW2 casc icw4 \<Rightarrow>
          c\<lparr>vector_base := d AND 0xF8,
            phase := (if casc then WaitICW3 icw4 else if icw4 then WaitICW4 else Ready)\<rparr>
      | WaitICW3 icw4 \<Rightarrow> c\<lparr>cascade := d, phase := (if icw4 then WaitICW4 else Ready)\<rparr>
      | WaitICW4 \<Rightarrow> c\<lparr>phase := Ready\<rparr>)"

fun chip_event :: "u16 \<Rightarrow> io_event \<Rightarrow> chip \<Rightarrow> chip" where
  "chip_event base (Out p d) c =
     (if p = base then chip_even d c else if p = base + 1 then chip_odd d c else c)"
| "chip_event base (In p d) c = c"

definition chip_after :: "u16 \<Rightarrow> chip \<Rightarrow> io_event list \<Rightarrow> chip" where
  "chip_after base c es = fold (chip_event base) es c"

lemma chip_after_Nil [simp]: "chip_after base c [] = c"
  by (simp add: chip_after_def)

lemma chip_after_append: "chip_after base c (es @ fs) = chip_after base (chip_after base c es) fs"
  by (simp add: chip_after_def)

lemma chip_after_Cons [simp]:
  "chip_after base c (e # es) = chip_after base (chip_event base e c) es"
  by (simp add: chip_after_def)

text \<open>The driver and a chip agree when the chip is initialised and its mask is the driver's.\<close>

definition master_synced :: "chip \<Rightarrow> 'a pic_scheme \<Rightarrow> bool" where
  "master_synced c s \<longleftrightarrow> phase (chip_after MASTER_8259_PORT c (io s)) = Ready
     \<and> imr (chip_after MASTER_8259_PORT c (io s)) = master_mask s"

definition slave_synced :: "chip \<Rightarrow> 'a pic_scheme \<Rightarrow> bool" where
  "slave_synced c s \<longleftrightarrow> phase (chip_after SLAVE_8259_PORT c (io s)) = Ready
     \<and> imr (chip_after SLAVE_8259_PORT c (io s)) = slave_mask s"

lemmas synced_defs = master_synced_def slave_synced_def chip_after_append const_defs

lemma synced_enable:
  "master_synced c s \<Longrightarrow> master_synced c (enable_irq n s)"
  "slave_synced c s \<Longrightarrow> slave_synced c (enable_irq n s)"
  by (auto simp: enable_irq_eq synced_defs chip_odd_def)

lemma synced_disable:
  "master_synced c s \<Longrightarrow> master_synced c (disable_irq n s)"
  "slave_synced c s \<Longrightarrow> slave_synced c (disable_irq n s)"
  by (auto simp: disable_irq_eq synced_defs chip_odd_def)

section \<open>Properties\<close>

lemma eoi_byte:
  fixes n :: u32
  assumes "n \<le> 7"
  shows "\<not> bit (ucast (EOI OR n) :: u8) 4" "\<not> bit (ucast (EOI OR n) :: u8) 3"
    "drop_bit 5 (ucast (EOI OR n) :: u8) = 3" "unat ((ucast (EOI OR n) :: u8) AND 7) = unat n"
proof -
  have "n \<in> {0, 1, 2, 3, 4, 5, 6, 7}"
  proof -
    have "unat n \<in> {0, 1, 2, 3, 4, 5, 6, 7}" using assms by (auto simp: word_le_nat_alt)
    then have "of_nat (unat n) \<in> (of_nat ` {0, 1, 2, 3, 4, 5, 6, 7} :: u32 set)" by (rule imageI)
    then show ?thesis by simp
  qed
  then show "\<not> bit (ucast (EOI OR n) :: u8) 4" "\<not> bit (ucast (EOI OR n) :: u8) 3"
    "drop_bit 5 (ucast (EOI OR n) :: u8) = 3" "unat ((ucast (EOI OR n) :: u8) AND 7) = unat n"
    by (auto simp: EOI_def)
qed

lemma master_eoi:
  "n \<le> 7 \<Longrightarrow> io (send_eoi n s) = io s @ [Out 0x20 (ucast (EOI OR n))]"
  by (auto simp: send_eoi_def Let_def const_defs word_le_nat_alt)

lemma slave_eoi:
  "8 \<le> n \<Longrightarrow> n \<le> 15 \<Longrightarrow>
   io (send_eoi n s) = io s @ [Out 0xA0 (ucast (EOI OR (n - 8))), Out 0x20 0x62]"
  by (auto simp: send_eoi_def Let_def const_defs word_le_nat_alt)

lemma send_eoi_isr:
  assumes "n \<le> 15"
  shows "isr (chip_after MASTER_8259_PORT c (io (send_eoi n s))) =
           isr (chip_after MASTER_8259_PORT c (io s)) AND NOT (push_bit (if n \<le> 7 then unat n else 2) 1)"
    and "isr (chip_after SLAVE_8259_PORT c (io (send_eoi n s))) =
           (if n \<le> 7 then isr (chip_after SLAVE_8259_PORT c (io s))
            else isr (chip_after SLAVE_8259_PORT c (io s)) AND NOT (push_bit (unat n - 8) 1))"
proof -
  have n: "n \<le> 7 \<or> \<not> n \<le> 7 \<and> 8 \<le> n \<and> n - 8 \<le> 7"
    using assms by (auto simp: word_le_nat_alt unat_sub)
  show "isr (chip_after MASTER_8259_PORT c (io (send_eoi n s))) =
      isr (chip_after MASTER_8259_PORT c (io s)) AND NOT (push_bit (if n \<le> 7 then unat n else 2) 1)"
    using n assms
    by (auto simp: master_eoi slave_eoi chip_after_append MASTER_8259_PORT_def chip_even_def eoi_byte)
  show "isr (chip_after SLAVE_8259_PORT c (io (send_eoi n s))) =
      (if n \<le> 7 then isr (chip_after SLAVE_8259_PORT c (io s))
       else isr (chip_after SLAVE_8259_PORT c (io s)) AND NOT (push_bit (unat n - 8) 1))"
    using n assms
    by (auto simp: master_eoi slave_eoi chip_after_append SLAVE_8259_PORT_def chip_even_def eoi_byte
        unat_minus_8)
qed

lemma irq_open_outb [simp]: "irq_open (outb d p s) = irq_open s"
  by (simp add: irq_open_def fun_eq_iff outb_def)

lemma i8259_init_open: "irq_open (i8259_init s) k \<longleftrightarrow> k = SLAVE_IRQ_LINE \<or> irq_open s k"
  by (simp add: i8259_init_def Let_def irq_open_enable SLAVE_IRQ_LINE_def)

lemma i8259_init_master: "master_synced c (i8259_init s) \<and>
    vector_base (chip_after MASTER_8259_PORT c (io (i8259_init s))) = 0x20 \<and>
    bit (cascade (chip_after MASTER_8259_PORT c (io (i8259_init s)))) (unat SLAVE_IRQ_LINE)"
  by (simp add: i8259_init_def Let_def synced_defs enable_irq_eq chip_even_def chip_odd_def)

lemma i8259_init_slave: "phase (chip_after SLAVE_8259_PORT c (io (i8259_init s))) = Ready \<and>
    vector_base (chip_after SLAVE_8259_PORT c (io (i8259_init s))) = 0x28 \<and>
    unat (cascade (chip_after SLAVE_8259_PORT c (io (i8259_init s)))) = unat SLAVE_IRQ_LINE \<and>
    imr (chip_after SLAVE_8259_PORT c (io (i8259_init s))) = 0"
  by (simp add: i8259_init_def Let_def synced_defs enable_irq_eq chip_even_def chip_odd_def)

lemma slave_sync_point: "\<not> n \<le> 7 \<Longrightarrow> n \<le> 15 \<Longrightarrow>
    phase (chip_after SLAVE_8259_PORT c (io s)) = Ready \<Longrightarrow>
    slave_synced c (enable_irq n s) \<and> slave_synced c (disable_irq n s)"
  by (simp add: enable_irq_eq disable_irq_eq synced_defs chip_odd_def)

section \<open>Claims\<close>

text \<open>
  Claim C35. Enabling and disabling lines 0 to 15 in any order leaves a line open exactly when the last
  call on it was an enable (or it was open and not touched); calls with other numbers change nothing.
\<close>

theorem irq_sequence:
  fixes s :: "'a pic_scheme"
  assumes "k \<le> 15"
  shows "irq_open (fold (\<lambda>(on, n). if on then enable_irq n else disable_irq n) cs s) k \<longleftrightarrow>
    (case filter (\<lambda>c. snd c = k) (rev cs) of [] \<Rightarrow> irq_open s k | c # _ \<Rightarrow> fst c)"
proof -
  have "(\<lambda>(on, n). if on then enable_irq n else disable_irq n) =
      (lines.apply_line :: bool \<times> u32 \<Rightarrow> 'a pic_scheme \<Rightarrow> 'a pic_scheme)"
    by (auto simp: fun_eq_iff lines.apply_line_def)
  then show ?thesis using lines.opened_sequence [OF assms, of cs s] by simp
qed

theorem irq_sequence_witness:
  "irq_open (fold (\<lambda>(on, n). if on then enable_irq n else disable_irq n) [(True, 8), (False, 1)]
     \<lparr>mem = (\<lambda>_. 0), io = [], intr = False, screen_x = 0, screen_y = 0, master_mask = 0, slave_mask = 255\<rparr>) 8"
  using irq_sequence [of 8 "[(True, 8), (False, 1)]"
    "\<lparr>mem = (\<lambda>_. 0), io = [], intr = False, screen_x = 0, screen_y = 0, master_mask = 0, slave_mask = 255\<rparr>"]
  by simp

text \<open>
  An end-of-interrupt for a line of the slave clears its in-service bit in the slave and the
  cascade line's bit in the master; one for a line of the master clears that bit in the master only.
\<close>

theorem send_eoi_clears:
  assumes "n \<le> 15"
  shows "isr (chip_after MASTER_8259_PORT c (io (send_eoi n s))) =
      isr (chip_after MASTER_8259_PORT c (io s)) AND NOT (push_bit (if n \<le> 7 then unat n else unat SLAVE_IRQ_LINE) 1)
    \<and> isr (chip_after SLAVE_8259_PORT d (io (send_eoi n s))) =
      (if n \<le> 7 then isr (chip_after SLAVE_8259_PORT d (io s))
       else isr (chip_after SLAVE_8259_PORT d (io s)) AND NOT (push_bit (unat n - 8) 1))"
proof -
  have "unat SLAVE_IRQ_LINE = 2" by (simp add: SLAVE_IRQ_LINE_def)
  then show ?thesis using send_eoi_isr(1) [OF assms, of c s] send_eoi_isr(2) [OF assms, of d s] by metis
qed

theorem send_eoi_clears_witness:
  "isr (chip_after SLAVE_8259_PORT \<lparr>phase = Ready, imr = 0, isr = 1, vector_base = 0, cascade = 0\<rparr>
     (io (send_eoi 8 \<lparr>mem = (\<lambda>_. 0), io = [], intr = False\<rparr>))) = 0"
  using send_eoi_clears [of 8 undefined "\<lparr>mem = (\<lambda>_. 0), io = [], intr = False\<rparr>"
      "\<lparr>phase = Ready, imr = 0, isr = 1, vector_base = 0, cascade = 0\<rparr>"]
  by simp

text \<open>
  Claim C36. After \<open>i8259_init\<close> both chips are initialised, the master delivers vectors from \<open>0x20\<close> and
  the slave from \<open>0x28\<close>, cascaded on line 2, and the master's mask is the driver's. The slave's mask,
  which the initialisation clears, is not: the driver has every slave line closed and the chip has
  them all open.
\<close>

theorem i8259_init_correct:
  "master_synced c (i8259_init s)
   \<and> vector_base (chip_after MASTER_8259_PORT c (io (i8259_init s))) = 0x20
   \<and> bit (cascade (chip_after MASTER_8259_PORT c (io (i8259_init s)))) (unat SLAVE_IRQ_LINE)
   \<and> phase (chip_after SLAVE_8259_PORT d (io (i8259_init s))) = Ready
   \<and> vector_base (chip_after SLAVE_8259_PORT d (io (i8259_init s))) = 0x28
   \<and> unat (cascade (chip_after SLAVE_8259_PORT d (io (i8259_init s)))) = unat SLAVE_IRQ_LINE
   \<and> imr (chip_after SLAVE_8259_PORT d (io (i8259_init s))) = 0
   \<and> (irq_open (i8259_init s) k \<longleftrightarrow> k = SLAVE_IRQ_LINE \<or> irq_open s k)"
  using i8259_init_master [of c s] i8259_init_slave [of d s] i8259_init_open [of s k] by blast

end
