(* ===== verification/RTC.thy ===== *)
theory RTC
  imports PIC
begin

text \<open>
  The real-time clock driver \<^verbatim>\<open>student-distrib/rtc.c\<close>: the flag \<open>int_occur\<close> that the handler
  sets and \<open>rtc_read\<close> waits for, and the register accesses of open, close and write. The second
  half reads those accesses as the CMOS does, through its index and data ports, to say which rate
  the clock is left with.
\<close>

section \<open>State and operations\<close>

record rtc = pic +
  int_occur :: int

definition RTC_PORT :: u16 where [const_defs]: "RTC_PORT = 0x70"
definition CMOS_PORT :: u16 where [const_defs]: "CMOS_PORT = 0x71"
definition RTC_REG_A :: u8 where [const_defs]: "RTC_REG_A = 0x8A"
definition RTC_REG_B :: u8 where [const_defs]: "RTC_REG_B = 0x8B"
definition RTC_REG_C :: u8 where [const_defs]: "RTC_REG_C = 0x8C"
definition RTC_ENABLE_INTERRUPT :: u8 where [const_defs]: "RTC_ENABLE_INTERRUPT = 0x40"
definition RTC_SET_RATE :: u8 where [const_defs]: "RTC_SET_RATE = 0xF0"

definition rtc_handler :: "device \<Rightarrow> 'a rtc_scheme \<Rightarrow> 'a rtc_scheme" where
  "rtc_handler dev s =
     (let s = cli s;
          s = s\<lparr>int_occur := 1\<rparr>;
          s = outb RTC_REG_C RTC_PORT s;
          (_, s) = inb dev CMOS_PORT s;
          s = send_eoi RTC_IRQ_LINE s
      in sti s)"

definition rtc_open :: "device \<Rightarrow> 'a rtc_scheme \<Rightarrow> int \<times> 'a rtc_scheme" where
  "rtc_open dev s =
     (let s = cli s;
          s = outb RTC_REG_B RTC_PORT s;
          (prev, s) = inb dev CMOS_PORT s;
          s = outb RTC_REG_B RTC_PORT s;
          s = outb (ucast prev OR RTC_ENABLE_INTERRUPT) CMOS_PORT s;
          s = outb RTC_REG_A RTC_PORT s;
          (prev, s) = inb dev CMOS_PORT s;
          s = outb RTC_REG_A RTC_PORT s;
          s = outb ((ucast prev AND RTC_SET_RATE) OR 15) CMOS_PORT s;
          s = s\<lparr>int_occur := 0\<rparr>;
          s = enable_irq RTC_IRQ_LINE s;
          s = sti s
      in (0, s))"

definition rtc_close :: "device \<Rightarrow> 'a pic_scheme \<Rightarrow> int \<times> 'a pic_scheme" where
  "rtc_close dev s =
     (let s = disable_irq RTC_IRQ_LINE s;
          s = outb RTC_REG_A RTC_PORT s;
          (prev, s) = inb dev CMOS_PORT s;
          s = outb RTC_REG_A RTC_PORT s;
          s = outb ((ucast prev AND RTC_SET_RATE) OR 0) CMOS_PORT s
      in (0, s))"

text \<open>
  \<open>rtc_read\<close> spins while \<open>int_occur\<close> is 0; only an interrupt ends that, so one look at the state
  either returns or finds the caller still waiting (\<open>None\<close>).
\<close>

definition rtc_read :: "'a rtc_scheme \<Rightarrow> (int \<times> 'a rtc_scheme) option" where
  "rtc_read s = (if int_occur s = 0 then None else Some (0, s\<lparr>int_occur := 0\<rparr>))"

text \<open>The loop of \<open>rtc_write\<close>: \<open>rate--\<close> on a byte, \<open>freq >>= 1\<close> on a positive integer.\<close>

function rate_loop :: "int \<Rightarrow> u8 \<Rightarrow> u8" where
  "rate_loop freq rate = (if freq > 1 then rate_loop (freq div 2) (rate - 1) else rate)"
  by pat_completeness auto
termination
  by (relation "measure (\<lambda>(freq, rate). nat freq)") auto

declare rate_loop.simps [simp del, loop_unfold]

text \<open>The buffer is what the pointer sees, \<open>None\<close> for a null pointer.\<close>

definition rtc_write ::
  "device \<Rightarrow> bytes option \<Rightarrow> int \<Rightarrow> 'a rtc_scheme \<Rightarrow> int \<times> 'a rtc_scheme" where
  "rtc_write dev buf nbytes s =
     (let s = cli s
      in case buf of
           None \<Rightarrow> (- 1, sti s)
         | Some b \<Rightarrow>
             if nbytes < 4 then (- 1, sti s)
             else
               let freq = sint (load32 b 0);
                   rate = rate_loop freq (if freq = 0 then 0 else 16);
                   s = outb RTC_REG_A RTC_PORT s;
                   (prev, s) = inb dev CMOS_PORT s;
                   s = outb RTC_REG_A RTC_PORT s;
                   s = outb ((ucast prev AND RTC_SET_RATE) OR rate) CMOS_PORT s
               in (0, sti s))"

section \<open>The rate computed from a frequency\<close>

lemma rate_loop_pow:
  "2 ^ k \<le> f \<Longrightarrow> f < 2 ^ Suc k \<Longrightarrow> rate_loop f r = r - of_nat k"
proof (induction k arbitrary: f r)
  case 0
  then show ?case by (simp add: rate_loop.simps [of f])
next
  case (Suc k)
  have "(1::int) \<le> 2 ^ k" by simp
  then have f: "1 < f" using Suc.prems(1) unfolding power_Suc by linarith
  have "2 ^ k \<le> f div 2" "f div 2 < 2 ^ Suc k" using Suc.prems by simp_all
  then have "rate_loop (f div 2) (r - 1) = r - 1 - of_nat k" by (rule Suc.IH)
  then show ?case using f by (simp add: rate_loop.simps [of f] algebra_simps)
qed

lemma rate_loop_small: "f \<le> 1 \<Longrightarrow> rate_loop f r = r"
  by (simp add: rate_loop.simps [of f])

section \<open>The CMOS behind the ports\<close>

text \<open>
  The CMOS keeps an index, set through port \<open>0x70\<close> (whose top bit is the NMI mask), and its
  registers, of which port \<open>0x71\<close> accesses the indexed one.
\<close>

type_synonym cmos = "u8 \<times> (u8 \<Rightarrow> u8)"

fun cmos_event :: "io_event \<Rightarrow> cmos \<Rightarrow> cmos" where
  "cmos_event (Out p d) (i, r) =
     (if p = RTC_PORT then (d AND 0x7F, r) else if p = CMOS_PORT then (i, r(i := d)) else (i, r))"
| "cmos_event (In p d) c = c"

definition cmos_after :: "cmos \<Rightarrow> io_event list \<Rightarrow> cmos" where
  "cmos_after c es = fold cmos_event es c"

text \<open>
  What the driver relies on when it reads registers A and B back: bits 0 to 6 of A and all of B
  are what was last written there (bit 7 of A is the clock's own update flag).
\<close>

definition cmos_device :: "device \<Rightarrow> cmos \<Rightarrow> bool" where
  "cmos_device dev c \<longleftrightarrow> (\<forall>es. case cmos_after c es of (i, r) \<Rightarrow>
      (i = 0x0A \<longrightarrow> dev es CMOS_PORT AND 0x7F = r 0x0A AND 0x7F) \<and>
      (i = 0x0B \<longrightarrow> dev es CMOS_PORT = r 0x0B))"

definition rtc_reg :: "cmos \<Rightarrow> 'a machine_scheme \<Rightarrow> u8 \<Rightarrow> u8" where
  "rtc_reg c s = snd (cmos_after c (io s))"

text \<open>The periodic rate of register A in Hz, for the rates 3 to 15 the chip divides linearly.\<close>

definition rtc_hz :: "u8 \<Rightarrow> nat" where
  "rtc_hz a = 32768 div 2 ^ (unat (a AND 0x0F) - 1)"

lemma cmos_after_Nil [simp]: "cmos_after c [] = c"
  by (simp add: cmos_after_def)

lemma cmos_after_append [simp]: "cmos_after c (es @ fs) = cmos_after (cmos_after c es) fs"
  by (simp add: cmos_after_def)

lemma cmos_after_Cons [simp]: "cmos_after c (e # es) = cmos_after (cmos_event e c) es"
  by (simp add: cmos_after_def)

lemma cmos_event_out:
  "cmos_event (Out RTC_PORT d) c = (d AND 0x7F, snd c)" "CMOS_PORT \<noteq> RTC_PORT"
  "cmos_event (Out CMOS_PORT d) c = (fst c, (snd c)(fst c := d))"
  by (cases c; simp add: const_defs)+

lemma cmos_device_A:
  "cmos_device dev c \<Longrightarrow> fst (cmos_after c es) = 0x0A \<Longrightarrow>
   dev es CMOS_PORT AND 0x7F = snd (cmos_after c es) 0x0A AND 0x7F"
  unfolding cmos_device_def by (metis (mono_tags, lifting) case_prod_beta)

lemma cmos_device_B:
  "cmos_device dev c \<Longrightarrow> fst (cmos_after c es) = 0x0B \<Longrightarrow>
   dev es CMOS_PORT = snd (cmos_after c es) 0x0B"
  unfolding cmos_device_def by (metis (mono_tags, lifting) case_prod_beta)

text \<open>A device that is a CMOS, for concrete runs.\<close>

definition cmos_dev :: "cmos \<Rightarrow> device" where
  "cmos_dev c es p = (if p = CMOS_PORT then snd (cmos_after c es) (fst (cmos_after c es)) else 0)"

lemma cmos_dev_ok: "cmos_device (cmos_dev c) c"
  by (simp add: cmos_device_def cmos_dev_def split: prod.splits)

text \<open>The port accesses by which the driver rewrites the rate nibble of register A.\<close>

definition set_rate_events :: "device \<Rightarrow> io_event list \<Rightarrow> u8 \<Rightarrow> io_event list" where
  "set_rate_events dev es rate =
     (let prev = dev (es @ [Out RTC_PORT RTC_REG_A]) CMOS_PORT
      in [Out RTC_PORT RTC_REG_A, In CMOS_PORT prev, Out RTC_PORT RTC_REG_A,
          Out CMOS_PORT ((prev AND RTC_SET_RATE) OR rate)])"

lemma rtc_write_eq:
  "rtc_write dev (Some b) n s =
     (if n < 4 then (- 1, s\<lparr>intr := True\<rparr>)
      else (0, s\<lparr>intr := True,
                 io := io s @ set_rate_events dev (io s)
                   (rate_loop (sint (load32 b 0)) (if load32 b 0 = 0 then 0 else 16))\<rparr>))"
proof -
  have "sint (load32 b 0) = 0 \<longleftrightarrow> load32 b 0 = 0" by (metis sint_0 signed_eq_0_iff)
  then show ?thesis
    by (simp add: rtc_write_def set_rate_events_def Let_def cli_def sti_def outb_def inb_def)
qed

lemma rtc_close_eq:
  "rtc_close dev s =
     (0, (disable_irq RTC_IRQ_LINE s)
        \<lparr>io := io (disable_irq RTC_IRQ_LINE s) @ set_rate_events dev (io (disable_irq RTC_IRQ_LINE s)) 0\<rparr>)"
  by (simp add: rtc_close_def set_rate_events_def Let_def outb_def inb_def)

lemma set_rate_reg_A:
  assumes "cmos_device dev c" and "rate AND 0x0F = rate"
  shows "snd (cmos_after (cmos_after c es) (set_rate_events dev es rate)) 0x0A AND 0x7F =
      (snd (cmos_after c es) 0x0A AND 0x70) OR rate"
    and "i \<noteq> 0x0A \<Longrightarrow> snd (cmos_after (cmos_after c es) (set_rate_events dev es rate)) i =
      snd (cmos_after c es) i"
proof -
  let ?prev = "dev (es @ [Out RTC_PORT RTC_REG_A]) CMOS_PORT"
  have "cmos_after c (es @ [Out RTC_PORT RTC_REG_A]) = (0x0A, snd (cmos_after c es))"
    by (simp add: cmos_event_out RTC_REG_A_def)
  then have "?prev AND 0x7F = snd (cmos_after c es) 0x0A AND 0x7F"
    using cmos_device_A [OF assms(1), of "es @ [Out RTC_PORT RTC_REG_A]"] by simp
  then have "(?prev AND 0x7F) AND 0x70 = (snd (cmos_after c es) 0x0A AND 0x7F) AND 0x70" by simp
  then have prev: "?prev AND 0x70 = snd (cmos_after c es) 0x0A AND 0x70"
    by (simp add: and.assoc)
  have "(rate AND 0x0F) AND 0x7F = rate AND 0x0F" by (simp add: and.assoc)
  then have rate: "rate AND 0x7F = rate" using assms(2) by simp
  have "((?prev AND RTC_SET_RATE) OR rate) AND 0x7F = (?prev AND 0x70) OR rate"
    unfolding RTC_SET_RATE_def bit.conj_disj_distrib2 rate by (simp add: and.assoc)
  with prev show "snd (cmos_after (cmos_after c es) (set_rate_events dev es rate)) 0x0A AND 0x7F =
      (snd (cmos_after c es) 0x0A AND 0x70) OR rate"
    by (simp add: set_rate_events_def Let_def cmos_event_out RTC_REG_A_def)
  show "snd (cmos_after (cmos_after c es) (set_rate_events dev es rate)) i = snd (cmos_after c es) i"
    if "i \<noteq> 0x0A"
    using that by (simp add: set_rate_events_def Let_def cmos_event_out RTC_REG_A_def)
qed

lemma nibble: "unat w < 16 \<Longrightarrow> w AND 0x0F = w" for w :: u8
proof -
  assume "unat w < 16"
  moreover have "w AND 0x0F = take_bit 4 w" by (simp add: take_bit_eq_mask mask_eq_exp_minus_1)
  ultimately show ?thesis by (simp add: take_bit_eq_mod word_unat_eq_iff unat_mod_distrib)
qed

lemma unat_rate: "k \<le> 16 \<Longrightarrow> unat (16 - of_nat k :: u8) = 16 - k"
  by (subst unat_sub) (simp_all add: word_le_nat_alt unat_of_nat)

lemma rtc_rate_nibble: "1 \<le> k \<Longrightarrow> k \<le> 16 \<Longrightarrow> (16 - of_nat k) AND 0x0F = (16 - of_nat k :: u8)"
  by (rule nibble) (simp add: unat_rate)

lemma rtc_hz_pow: "1 \<le> k \<Longrightarrow> k \<le> 15 \<Longrightarrow> rtc_hz (16 - of_nat k) = 2 ^ k"
proof -
  assume k: "1 \<le> k" "k \<le> 15"
  then have "rtc_hz (16 - of_nat k) = 2 ^ 15 div 2 ^ (15 - k)"
    by (simp add: rtc_hz_def rtc_rate_nibble unat_rate)
  also have "\<dots> = 2 ^ (15 - (15 - k))" by (rule power_diff [symmetric]) simp_all
  finally show ?thesis using k by simp
qed

section \<open>Properties of the driver\<close>

lemma rtc_handler_simps [simp]:
  "int_occur (rtc_handler dev s) = 1" "mem (rtc_handler dev s) = mem s" "intr (rtc_handler dev s)"
  "irq_open (rtc_handler dev s) = irq_open s"
  by (simp_all add: rtc_handler_def Let_def inb_def send_eoi_def cli_def sti_def outb_def irq_open_def fun_eq_iff)

lemma irq_open_update [simp]:
  "irq_open (s\<lparr>intr := b\<rparr>) = irq_open s" "irq_open (s\<lparr>io := es\<rparr>) = irq_open s"
  "irq_open (int_occur_update f t) = irq_open t"
  by (simp_all add: irq_open_def fun_eq_iff)

lemma rtc_open_opens: "irq_open (snd (rtc_open dev s)) k \<longleftrightarrow> k = RTC_IRQ_LINE \<or> irq_open s k"
  by (simp add: rtc_open_def Let_def inb_def sti_def cli_def irq_open_enable RTC_IRQ_LINE_def)

lemma rtc_open_shape:
  "\<exists>es m. rtc_open dev s = (0, s\<lparr>io := es, intr := True, int_occur := 0, slave_mask := m\<rparr>)"
proof -
  have line: "enable_irq RTC_IRQ_LINE t = t\<lparr>slave_mask := slave_mask t AND NOT 1,
      io := io t @ [Out 0xA1 (slave_mask t AND NOT 1)]\<rparr>" for t :: "'a rtc_scheme"
    by (simp add: enable_irq_eq RTC_IRQ_LINE_def)
  show ?thesis
    unfolding rtc_open_def Let_def inb_def outb_def cli_def sti_def split_conv line
    by (intro exI) (auto intro!: rtc.equality)
qed

section \<open>Claims\<close>


definition rtc_start :: rtc where
  "rtc_start = \<lparr>mem = (\<lambda>_. 0), io = [], intr = True, screen_x = 0, screen_y = 0,
     master_mask = 0xFB, slave_mask = 0xFF, int_occur = 0\<rparr>"


text \<open>
  A reader of the clock waits while no interrupt has come, returns after the next one however
  many have come meanwhile, and has then consumed them: the next reader waits again.
\<close>

theorem rtc_read_waits_for_interrupt:
  assumes "0 < j"
  shows "rtc_read ((rtc_handler dev ^^ j) s) = Some (0, ((rtc_handler dev ^^ j) s)\<lparr>int_occur := 0\<rparr>)
    \<and> rtc_read (((rtc_handler dev ^^ j) s)\<lparr>int_occur := 0\<rparr>) = None
    \<and> mem ((rtc_handler dev ^^ j) s) = mem s"
proof -
  have "mem ((rtc_handler dev ^^ j) s) = mem s" by (induction j) simp_all
  moreover obtain i where "j = Suc i" using assms by (cases j) auto
  ultimately show ?thesis by (simp add: rtc_read_def)
qed

theorem rtc_read_waits_for_interrupt_witness:
  "rtc_read ((rtc_handler (\<lambda>_ _. 0) ^^ 3) rtc_start) =
   Some (0, ((rtc_handler (\<lambda>_ _. 0) ^^ 3) rtc_start)\<lparr>int_occur := 0\<rparr>)"
  using rtc_read_waits_for_interrupt [of 3 "\<lambda>_ _. 0" rtc_start] by simp

text \<open>
  A frequency of 1 (and any negative one) leaves the rate byte at 16, which does not fit the four rate
  bits: it sets bit 4, one of the divider bits.
\<close>

lemma rtc_write_one: "rate_loop 1 16 AND RTC_SET_RATE \<noteq> 0"
  by (simp add: rate_loop_small RTC_SET_RATE_def)

end
