(* ===== verification/Paging.thy ===== *)
theory Paging
  imports RTC
begin

text \<open>
  The page directory and tables of \<^verbatim>\<open>student-distrib/paging.c\<close>, with the IA-32 page walk as
  the specification of what an entry means. Where the linker places the three tables is a
  parameter (\<open>tables\<close>). A translation uses the entries as they were when CR3 was last loaded, so
  that what \<open>refresh_tbl\<close> does is visible.
\<close>

section \<open>State and operations\<close>

record tables =
  pageTable_at :: u32
  userTable_at :: u32
  videoTable_at :: u32

record entries =
  pageDir :: "u32 \<Rightarrow> u32"
  pageTable :: "u32 \<Rightarrow> u32"
  userTable :: "u32 \<Rightarrow> u32"
  videoTable :: "u32 \<Rightarrow> u32"

record paging = rtc +
  pg :: entries
  walked :: entries
  cr0 :: u32
  cr4 :: u32

definition ARR_SIZE :: nat where [const_defs]: "ARR_SIZE = 1024"
definition FOUR_KB :: u32 where [const_defs]: "FOUR_KB = 4096"
definition FOUR_MB :: u32 where [const_defs]: "FOUR_MB = 4194304"
definition VID_MEM_LOC :: u32 where [const_defs]: "VID_MEM_LOC = 0xB8"
definition RW_FLAGS :: u32 where [const_defs]: "RW_FLAGS = 0x87"
definition PAGE_DIR_FLAGS :: u32 where [const_defs]: "PAGE_DIR_FLAGS = 0x83"
definition RWP_FLAGS :: u32 where [const_defs]: "RWP_FLAGS = 7"

definition refresh_tbl :: "'a paging_scheme \<Rightarrow> 'a paging_scheme" where
  "refresh_tbl s = s\<lparr>walked := pg s\<rparr>"

definition init_paging :: "tables \<Rightarrow> 'a paging_scheme \<Rightarrow> 'a paging_scheme" where
  "init_paging T s =
     (let p = fold (\<lambda>i p. p\<lparr>pageDir := (pageDir p)(of_nat i := 0x00000002),
                             pageTable := (pageTable p)(of_nat i := (FOUR_KB * of_nat i) OR 2)\<rparr>)
                [0..<ARR_SIZE] (pg s);
          p = p\<lparr>pageDir := (pageDir p)(0 := pageTable_at T OR 3)\<rparr>;
          p = p\<lparr>pageDir := (pageDir p)(1 := FOUR_MB OR PAGE_DIR_FLAGS)\<rparr>;
          p = p\<lparr>pageTable := (pageTable p)(VID_MEM_LOC := pageTable p VID_MEM_LOC OR 3)\<rparr>;
          s = s\<lparr>pg := p, walked := p\<rparr>;
          s = s\<lparr>cr4 := cr4 s OR 0x00000010\<rparr>
      in s\<lparr>cr0 := cr0 s OR 0x80000000\<rparr>)"

definition remap :: "u32 \<Rightarrow> u32 \<Rightarrow> 'a paging_scheme \<Rightarrow> 'a paging_scheme" where
  "remap vAddr pAddr s =
     (let entry = vAddr div FOUR_MB;
          s = s\<lparr>pg := (pg s)\<lparr>pageDir := (pageDir (pg s))(entry := pAddr OR RW_FLAGS)\<rparr>\<rparr>
      in refresh_tbl s)"

definition remapWithPageTable :: "tables \<Rightarrow> u32 \<Rightarrow> u32 \<Rightarrow> 'a paging_scheme \<Rightarrow> 'a paging_scheme" where
  "remapWithPageTable T vAddr pAddr s =
     (let entry = vAddr div FOUR_MB;
          s = s\<lparr>pg := (pg s)\<lparr>pageDir := (pageDir (pg s))(entry := userTable_at T OR RWP_FLAGS)\<rparr>\<rparr>;
          s = s\<lparr>pg := (pg s)\<lparr>userTable := (userTable (pg s))(0 := pAddr OR RWP_FLAGS)\<rparr>\<rparr>
      in refresh_tbl s)"

definition remapVideo :: "tables \<Rightarrow> u32 \<Rightarrow> u32 \<Rightarrow> 'a paging_scheme \<Rightarrow> 'a paging_scheme" where
  "remapVideo T vAddr pAddr s =
     (let entry = vAddr div FOUR_MB;
          s = s\<lparr>pg := (pg s)\<lparr>pageDir := (pageDir (pg s))(entry := videoTable_at T OR RWP_FLAGS)\<rparr>\<rparr>;
          s = s\<lparr>pg := (pg s)\<lparr>videoTable := (videoTable (pg s))(0 := pAddr OR RWP_FLAGS)\<rparr>\<rparr>
      in refresh_tbl s)"

text \<open>The page number is not checked by the code; one outside the table writes past it.\<close>

definition remapToPage ::
  "tables \<Rightarrow> u32 \<Rightarrow> u32 \<Rightarrow> u32 \<Rightarrow> 'a paging_scheme \<Rightarrow> fault + 'a paging_scheme" where
  "remapToPage T vAddr pAddr page s =
     (let entry = vAddr div FOUR_MB;
          s = s\<lparr>pg := (pg s)\<lparr>pageDir := (pageDir (pg s))(entry := userTable_at T OR RWP_FLAGS)\<rparr>\<rparr>
      in if page < of_nat ARR_SIZE then
           let s = s\<lparr>pg := (pg s)\<lparr>userTable := (userTable (pg s))(page := pAddr OR RWP_FLAGS)\<rparr>\<rparr>
           in Inr (refresh_tbl s)
         else Inl OutOfBounds)"

section \<open>The page walk\<close>

text \<open>
  Bits of an entry: 0 present, 1 writable, 2 user, 7 (of a directory entry) a 4 MB page. A walk
  gives the physical address and whether user code may use it.
\<close>

definition dir_index :: "u32 \<Rightarrow> u32" where
  "dir_index v = drop_bit 22 v"

definition table_index :: "u32 \<Rightarrow> u32" where
  "table_index v = drop_bit 12 v AND 0x3FF"

definition table_at :: "tables \<Rightarrow> entries \<Rightarrow> u32 \<Rightarrow> (u32 \<Rightarrow> u32) option" where
  "table_at T p a =
     (if a = pageTable_at T then Some (pageTable p)
      else if a = userTable_at T then Some (userTable p)
      else if a = videoTable_at T then Some (videoTable p)
      else None)"

definition walk :: "tables \<Rightarrow> entries \<Rightarrow> u32 \<Rightarrow> (u32 \<times> bool) option" where
  "walk T p v =
     (let pde = pageDir p (dir_index v)
      in if \<not> bit pde 0 then None
         else if bit pde 7 then Some ((pde AND 0xFFC00000) OR (v AND 0x3FFFFF), bit pde 2)
         else case table_at T p (pde AND 0xFFFFF000) of
             None \<Rightarrow> None
           | Some t \<Rightarrow>
               (let pte = t (table_index v)
                in if bit pte 0 then Some ((pte AND 0xFFFFF000) OR (v AND 0xFFF), bit pde 2 \<and> bit pte 2)
                   else None))"

definition translate :: "tables \<Rightarrow> 'a paging_scheme \<Rightarrow> u32 \<Rightarrow> (u32 \<times> bool) option" where
  "translate T s v = walk T (walked s) v"

text \<open>What the linker promises: page-aligned, distinct tables.\<close>

definition tables_ok :: "tables \<Rightarrow> bool" where
  "tables_ok T \<longleftrightarrow> pageTable_at T AND 0xFFF = 0 \<and> userTable_at T AND 0xFFF = 0
     \<and> videoTable_at T AND 0xFFF = 0 \<and> distinct [pageTable_at T, userTable_at T, videoTable_at T]"

text \<open>No translation is stale: the entries in memory are those loaded.\<close>

definition tlb_ok :: "'a paging_scheme \<Rightarrow> bool" where
  "tlb_ok s \<longleftrightarrow> walked s = pg s"

section \<open>Bits of an entry\<close>

declare bit_numeral_word_iff [simp del]

lemma bit_page_offset [simp]: "bit (0xFFF :: u32) n \<longleftrightarrow> n < 12"
proof -
  have "(0xFFF :: u32) = mask 12" by (simp add: mask_eq_exp_minus_1)
  then show ?thesis by (simp only: bit_mask_iff) auto
qed

lemma bit_page_base [simp]: "bit (0xFFFFF000 :: u32) n \<longleftrightarrow> 12 \<le> n \<and> n < 32"
proof -
  have "(0xFFFFF000 :: u32) = NOT 0xFFF" by simp
  then show ?thesis by (auto simp only: bit_not_iff bit_page_offset) auto
qed

lemma bit_big_offset [simp]: "bit (0x3FFFFF :: u32) n \<longleftrightarrow> n < 22"
proof -
  have "(0x3FFFFF :: u32) = mask 22" by (simp add: mask_eq_exp_minus_1)
  then show ?thesis by (simp only: bit_mask_iff) auto
qed

lemma bit_big_base [simp]: "bit (0xFFC00000 :: u32) n \<longleftrightarrow> 22 \<le> n \<and> n < 32"
proof -
  have "(0xFFC00000 :: u32) = NOT 0x3FFFFF" by simp
  then show ?thesis by (auto simp only: bit_not_iff bit_big_offset) auto
qed

lemma aligned_bits: "a AND 0xFFF = 0 \<Longrightarrow> bit a n \<Longrightarrow> 12 \<le> n" for a :: u32
  by (metis bit_0_eq bit_and_iff bit_page_offset bot_apply bot_bool_def not_le)

lemma big_aligned_bits: "a AND 0x3FFFFF = 0 \<Longrightarrow> bit a n \<Longrightarrow> 22 \<le> n" for a :: u32
  by (metis bit_0_eq bit_and_iff bit_big_offset bot_apply bot_bool_def not_le)

lemma small_flag_bits: "f AND 0xFFF = f \<Longrightarrow> bit f n \<Longrightarrow> n < 12" for f :: u32
  by (metis bit_and_iff bit_page_offset)

text \<open>An entry made of an aligned base and flags gives back the base.\<close>

lemma entry_base: "a AND 0xFFF = 0 \<Longrightarrow> f AND 0xFFF = f \<Longrightarrow> (a OR f) AND 0xFFFFF000 = a"
  for a f :: u32
  by (rule bit_word_eqI) (auto simp: bit_and_iff bit_or_iff dest: aligned_bits small_flag_bits)

lemma entry_big_base: "a AND 0x3FFFFF = 0 \<Longrightarrow> f AND 0xFFF = f \<Longrightarrow> (a OR f) AND 0xFFC00000 = a"
  for a f :: u32
  by (rule bit_word_eqI) (auto simp: bit_and_iff bit_or_iff dest: big_aligned_bits small_flag_bits)

lemma entry_flag: "a AND 0xFFF = 0 \<Longrightarrow> n < 12 \<Longrightarrow> bit (a OR f) n \<longleftrightarrow> bit f n" for a f :: u32
  by (auto simp: bit_or_iff dest: aligned_bits)

lemma big_aligned: "a AND 0x3FFFFF = 0 \<Longrightarrow> a AND 0xFFF = 0" for a :: u32
  by (rule bit_word_eqI) (auto simp: bit_and_iff dest: big_aligned_bits)

lemma base_plus_offset:
  "a AND 0x3FFFFF = 0 \<Longrightarrow> a OR (v AND 0x3FFFFF) = a + (v AND 0x3FFFFF)"
  "a AND 0xFFF = 0 \<Longrightarrow> a OR (v AND 0xFFF) = a + (v AND 0xFFF)" for a v :: u32
proof -
  show "a AND 0x3FFFFF = 0 \<Longrightarrow> a OR (v AND 0x3FFFFF) = a + (v AND 0x3FFFFF)"
    by (rule disjunctive_add_eq_or [symmetric], rule bit_word_eqI)
      (auto simp: bit_and_iff dest: big_aligned_bits)
  show "a AND 0xFFF = 0 \<Longrightarrow> a OR (v AND 0xFFF) = a + (v AND 0xFFF)"
    by (rule disjunctive_add_eq_or [symmetric], rule bit_word_eqI)
      (auto simp: bit_and_iff dest: aligned_bits)
qed

declare bit_numeral_word_iff [simp]

lemma dir_index_div: "dir_index v = v div FOUR_MB"
  by (simp add: dir_index_def FOUR_MB_def drop_bit_eq_div)

lemma unat_dir_index: "unat (dir_index v) = unat v div 2 ^ 22"
  by (simp add: dir_index_def drop_bit_eq_div unat_div_distrib)

lemma dir_index_less: "unat (dir_index v) < 1024"
  using unat_less_2p32 [of v] by (simp add: unat_dir_index)

section \<open>Remapping\<close>

lemma tlb_ok_ops [simp]:
  "tlb_ok (init_paging T s)" "tlb_ok (remap v p s)" "tlb_ok (remapWithPageTable T v p s)"
  "tlb_ok (remapVideo T v p s)" "remapToPage T v p k s = Inr t \<Longrightarrow> tlb_ok t"
  by (auto simp: tlb_ok_def init_paging_def remap_def remapWithPageTable_def remapVideo_def
      remapToPage_def refresh_tbl_def Let_def split: if_splits)

lemma walk_big_page:
  assumes "pA AND 0x3FFFFF = 0" and "pageDir p (dir_index v) = pA OR RW_FLAGS"
  shows "walk T p v = Some (pA + (v AND 0x3FFFFF), True)"
proof -
  have f: "RW_FLAGS AND 0xFFF = RW_FLAGS" "bit RW_FLAGS 0" "bit RW_FLAGS 7" "bit RW_FLAGS 2"
    by (simp_all add: RW_FLAGS_def)
  then show ?thesis
    using assms(2) entry_big_base [OF assms(1) f(1)] entry_flag [OF big_aligned [OF assms(1)]]
      base_plus_offset(1) [OF assms(1)]
    by (simp add: walk_def Let_def)
qed

lemma remap_inside:
  assumes "pA AND 0x3FFFFF = 0" and "dir_index v = dir_index vA"
  shows "translate T (remap vA pA s) v = Some (pA + (v AND 0x3FFFFF), True)"
  unfolding translate_def
  by (rule walk_big_page [OF assms(1)])
    (use assms(2) in \<open>simp add: remap_def refresh_tbl_def Let_def flip: dir_index_div\<close>)

lemma remap_outside:
  assumes "tlb_ok s" and "dir_index v \<noteq> dir_index vA"
  shows "translate T (remap vA pA s) v = translate T s v"
  using assms by (simp add: translate_def walk_def table_at_def remap_def refresh_tbl_def Let_def tlb_ok_def
      flip: dir_index_div)

lemma walk_user_page:
  assumes T: "tables_ok T" and "pageDir p (dir_index v) = userTable_at T OR RWP_FLAGS"
    and "userTable p (table_index v) = pA OR RWP_FLAGS" and "pA AND 0xFFF = 0"
  shows "walk T p v = Some (pA + (v AND 0xFFF), True)"
proof -
  have f: "RWP_FLAGS AND 0xFFF = RWP_FLAGS" "bit RWP_FLAGS 0" "\<not> bit RWP_FLAGS 7" "bit RWP_FLAGS 2"
    by (simp_all add: RWP_FLAGS_def)
  have u: "userTable_at T AND 0xFFF = 0" "pageTable_at T \<noteq> userTable_at T"
    using T by (auto simp: tables_ok_def)
  show ?thesis
    using assms(2,3) entry_base [OF u(1) f(1)] entry_flag [OF u(1)] f u(2)
      entry_base [OF assms(4) f(1)] entry_flag [OF assms(4)] base_plus_offset(2) [OF assms(4)]
    by (auto simp: walk_def table_at_def Let_def)
qed

lemma remapWithPageTable_inside:
  assumes "tables_ok T" and "pA AND 0xFFF = 0" and "dir_index v = dir_index vA" and "table_index v = 0"
  shows "translate T (remapWithPageTable T vA pA s) v = Some (pA + (v AND 0xFFF), True)"
  unfolding translate_def
  by (rule walk_user_page [OF assms(1) _ _ assms(2)])
    (use assms(3,4) in \<open>simp_all add: remapWithPageTable_def refresh_tbl_def Let_def flip: dir_index_div\<close>)

lemma remapToPage_inside:
  assumes "tables_ok T" and "pA AND 0xFFF = 0" and "dir_index v = dir_index vA" and "table_index v = k"
    and "remapToPage T vA pA k s = Inr t"
  shows "translate T t v = Some (pA + (v AND 0xFFF), True)"
  unfolding translate_def
  by (rule walk_user_page [OF assms(1) _ _ assms(2)])
    (use assms(3-) in \<open>auto simp: remapToPage_def refresh_tbl_def Let_def split: if_splits simp flip: dir_index_div\<close>)

section \<open>The initial mapping\<close>

definition init_entry :: "nat \<Rightarrow> entries \<Rightarrow> entries" where
  "init_entry i p = p\<lparr>pageDir := (pageDir p)(of_nat i := 2),
                  pageTable := (pageTable p)(of_nat i := (FOUR_KB * of_nat i) OR 2)\<rparr>"

lemma init_entries:
  "n \<le> 1024 \<Longrightarrow> fold init_entry [0..<n] p =
   p\<lparr>pageDir := (\<lambda>i. if unat i < n then 2 else pageDir p i),
      pageTable := (\<lambda>i. if unat i < n then (FOUR_KB * i) OR 2 else pageTable p i)\<rparr>"
proof (induction n)
  case (Suc n)
  have eq: "i = of_nat n \<longleftrightarrow> unat i = n" for i :: u32
    using Suc.prems by (auto simp: unat_of_nat word_unat_eq_iff)
  show ?case
    using Suc by (simp add: init_entry_def) (auto simp: fun_eq_iff less_Suc_eq eq intro!: entries.equality)
qed simp

lemmas init_loop = init_entries [unfolded init_entry_def]

lemma init_paging_dir:
  "unat i < 1024 \<Longrightarrow> pageDir (walked (init_paging T s)) i =
     (if i = 0 then pageTable_at T OR 3 else if i = 1 then FOUR_MB OR PAGE_DIR_FLAGS else 2)"
  by (auto simp: init_paging_def Let_def init_loop ARR_SIZE_def)

lemma init_paging_table:
  "unat i < 1024 \<Longrightarrow> pageTable (walked (init_paging T s)) i =
     (FOUR_KB * i) OR (if i = VID_MEM_LOC then 3 else 2)"
  by (auto simp: init_paging_def Let_def init_loop ARR_SIZE_def VID_MEM_LOC_def or.assoc)

lemma push_aligned: "push_bit 12 a AND 0xFFF = 0" "push_bit 22 a AND 0x3FFFFF = 0" for a :: u32
proof -
  have "push_bit 12 a AND 0xFFF = take_bit 12 (push_bit 12 a)"
    "push_bit 22 a AND 0x3FFFFF = take_bit 22 (push_bit 22 a)"
    by (simp_all only: take_bit_eq_mask mask_eq_exp_minus_1) simp_all
  then show "push_bit 12 a AND 0xFFF = 0" "push_bit 22 a AND 0x3FFFFF = 0"
    by (simp_all only: take_bit_push_bit) simp_all
qed

lemma big_page_split: "push_bit 22 (dir_index v) + (v AND 0x3FFFFF) = v"
proof -
  have "v AND 0x3FFFFF = take_bit 22 v" by (simp add: take_bit_eq_mask mask_eq_exp_minus_1)
  then show ?thesis using bits_ident [of 22 v] by (simp add: dir_index_def)
qed

lemma small_page_split: "push_bit 22 (dir_index v) + push_bit 12 (table_index v) + (v AND 0xFFF) = v"
proof -
  have t: "v AND 0xFFF = take_bit 12 v" "drop_bit 12 v AND 0x3FF = take_bit 10 (drop_bit 12 v)"
    by (simp_all add: take_bit_eq_mask mask_eq_exp_minus_1)
  have "push_bit 22 (dir_index v) + push_bit 12 (table_index v) =
      push_bit 12 (push_bit 10 (drop_bit 10 (drop_bit 12 v)) + take_bit 10 (drop_bit 12 v))"
    by (simp add: dir_index_def table_index_def t push_bit_add push_bit_push_bit drop_bit_drop_bit)
  also have "\<dots> = push_bit 12 (drop_bit 12 v)" by (simp only: bits_ident)
  finally show ?thesis by (simp only: t bits_ident)
qed

lemma table_index_less: "unat (table_index v) < 1024"
proof -
  have "table_index v = take_bit 10 (drop_bit 12 v)"
    by (simp add: table_index_def take_bit_eq_mask mask_eq_exp_minus_1)
  then show ?thesis by (simp add: take_bit_eq_mod unat_mod_distrib)
qed

lemma init_paging_walk:
  assumes "tables_ok T"
  shows "translate T (init_paging T s) v =
    (if dir_index v = 1 \<or> dir_index v = 0 \<and> table_index v = VID_MEM_LOC then Some (v, False) else None)"
proof -
  let ?p = "walked (init_paging T s)"
  have pt: "pageTable_at T AND 0xFFF = 0" using assms by (simp add: tables_ok_def)
  note dir = init_paging_dir [OF dir_index_less [of v], of T s]
  consider "dir_index v = 0" | "dir_index v = 1" | "dir_index v \<noteq> 0" "dir_index v \<noteq> 1" by blast
  then show ?thesis
  proof cases
    case 1
    have "pageDir ?p (dir_index v) AND 0xFFFFF000 = pageTable_at T"
      "bit (pageDir ?p (dir_index v)) 0" "\<not> bit (pageDir ?p (dir_index v)) 7"
      "\<not> bit (pageDir ?p (dir_index v)) 2"
      unfolding dir using 1 pt by (simp_all add: entry_base entry_flag)
    moreover have "pageTable ?p (table_index v) =
        push_bit 12 (table_index v) OR (if table_index v = VID_MEM_LOC then 3 else 2)"
      using init_paging_table [OF table_index_less [of v], of T s] by (simp add: FOUR_KB_def push_bit_eq_mult mult.commute)
    moreover have "push_bit 12 (table_index v) AND 0xFFF = 0"
      by (rule push_aligned)
    ultimately have "translate T (init_paging T s) v =
        (if table_index v = VID_MEM_LOC then Some (push_bit 12 (table_index v) + (v AND 0xFFF), False) else None)"
      by (simp add: translate_def walk_def Let_def table_at_def entry_base entry_flag base_plus_offset push_aligned)
    with 1 small_page_split [of v] show ?thesis by (auto split: if_splits)
  next
    case 2
    have d: "pageDir ?p (dir_index v) = 0x400083"
      unfolding dir using 2 by (simp add: const_defs)
    have "0x400000 OR (v AND 0x3FFFFF) = v"
      using big_page_split [of v] 2 base_plus_offset(1) [of "0x400000" v] by simp
    then show ?thesis
      unfolding translate_def walk_def Let_def d using 2 by simp
  next
    case 3
    then have d: "pageDir ?p (dir_index v) = 2" unfolding dir by simp
    show ?thesis unfolding translate_def walk_def Let_def d using 3 by simp
  qed
qed

section \<open>The frames of the processes\<close>

definition VIRTUAL_START :: u32 where [const_defs]: "VIRTUAL_START = 0x8000000"
definition VIRTUAL_END :: u32 where [const_defs]: "VIRTUAL_END = 0x8400000"
definition PHYSICAL_START :: u32 where [const_defs]: "PHYSICAL_START = 0x800000"
definition FOUR_MB_BLOCK :: u32 where [const_defs]: "FOUR_MB_BLOCK = 0x400000"
definition EIGHT_KB_BLOCK :: u32 where [const_defs]: "EIGHT_KB_BLOCK = 0x2000"
definition VIDEOMEM :: u32 where [const_defs]: "VIDEOMEM = 0xB8000"

text \<open>The physical memory of process \<open>pid\<close>: \<open>PHYSICAL_START + pid * FOUR_MB_BLOCK\<close>.\<close>

definition frame_of :: "u32 \<Rightarrow> u32" where
  "frame_of pid = PHYSICAL_START + pid * FOUR_MB_BLOCK"

lemma frame_aligned: "frame_of pid AND 0x3FFFFF = 0"
proof -
  have "frame_of pid = push_bit 22 (2 + pid)"
    by (simp add: frame_of_def const_defs push_bit_eq_mult algebra_simps)
  then show ?thesis by (simp only: push_aligned)
qed

lemma big_offset_less: "unat (v AND 0x3FFFFF :: u32) < 0x400000"
proof -
  have "v AND 0x3FFFFF = take_bit 22 v" by (simp add: take_bit_eq_mask mask_eq_exp_minus_1)
  then show ?thesis by (simp add: take_bit_eq_mod unat_mod_distrib)
qed

lemma unat_frame_addr:
  assumes "pid < 256" shows "unat (frame_of pid + (v AND 0x3FFFFF)) =
    0x800000 + unat pid * 0x400000 + unat (v AND 0x3FFFFF)"
proof -
  have p: "unat pid < 256" using assms by (simp add: word_less_nat_alt)
  have m: "unat (pid * 0x400000) = unat pid * 0x400000"
    using p by (simp add: unat_word_ariths(2))
  then have f: "unat (frame_of pid) = 0x800000 + unat pid * 0x400000"
    using p by (simp add: frame_of_def const_defs unat_word_ariths(1))
  have "0x800000 + unat pid * 0x400000 + unat (v AND 0x3FFFFF) < 2 ^ 32"
    using p big_offset_less [of v] by simp
  then show ?thesis by (simp add: unat_word_ariths(1) f)
qed

text \<open>Different processes have disjoint frames, all above the 8 MB of kernel and video memory.\<close>

lemma frames_disjoint:
  assumes "p < 256" "q < 256" "frame_of p + (v AND 0x3FFFFF) = frame_of q + (w AND 0x3FFFFF)"
  shows "p = q"
proof -
  have "unat p * 0x400000 + unat (v AND 0x3FFFFF) = unat q * 0x400000 + unat (w AND 0x3FFFFF)"
    using unat_frame_addr [OF assms(1), of v] unat_frame_addr [OF assms(2), of w] assms(3) by simp
  then have "(unat p * 0x400000 + unat (v AND 0x3FFFFF)) div 0x400000 =
      (unat q * 0x400000 + unat (w AND 0x3FFFFF)) div 0x400000" by simp
  then have "unat p = unat q"
    using big_offset_less [of v] big_offset_less [of w] by simp
  then show ?thesis by (simp add: word_unat_eq_iff)
qed

section \<open>Claims\<close>

text \<open>
  After \<open>init_paging\<close> exactly the kernel's 4 MB page and the video page are mapped, both to
  themselves and for the kernel only; a null pointer is not mapped.
\<close>

theorem init_paging_maps:
  assumes "tables_ok T"
  shows "translate T (init_paging T s) v =
      (if dir_index v = 1 \<or> dir_index v = 0 \<and> table_index v = VID_MEM_LOC then Some (v, False) else None)
    \<and> tlb_ok (init_paging T s)"
  using init_paging_walk [OF assms, of s v] tlb_ok_ops(1) by blast

definition some_tables :: tables where
  "some_tables = \<lparr>pageTable_at = 0x410000, userTable_at = 0x411000, videoTable_at = 0x412000\<rparr>"

definition blank_paging :: paging where
  "blank_paging = \<lparr>mem = (\<lambda>_. 0), io = [], intr = False, screen_x = 0, screen_y = 0,
     master_mask = 0xFF, slave_mask = 0xFF, int_occur = 0,
     pg = \<lparr>pageDir = (\<lambda>_. 0), pageTable = (\<lambda>_. 0), userTable = (\<lambda>_. 0), videoTable = (\<lambda>_. 0)\<rparr>,
     walked = \<lparr>pageDir = (\<lambda>_. 0), pageTable = (\<lambda>_. 0), userTable = (\<lambda>_. 0), videoTable = (\<lambda>_. 0)\<rparr>,
     cr0 = 1, cr4 = 0\<rparr>"

lemma some_tables_ok: "tables_ok some_tables"
  by (simp add: tables_ok_def some_tables_def)

theorem init_paging_maps_witness:
  "translate some_tables (init_paging some_tables blank_paging) 0x400123 = Some (0x400123, False)
   \<and> translate some_tables (init_paging some_tables blank_paging) 0 = None"
  using init_paging_maps [OF some_tables_ok, of blank_paging "0x400123"]
    init_paging_maps [OF some_tables_ok, of blank_paging 0]
  by (simp add: dir_index_def table_index_def VID_MEM_LOC_def)

text \<open>
  Claim C6. Remapping the user window for process \<open>p\<close> gives the window the 4 MB of physical memory of
  that process, open to user code, and leaves every other translation as it was; the frames of two
  processes share no byte and lie above the 8 MB of the kernel.
\<close>

theorem remap_isolates:
  assumes "tlb_ok s" and "p < 256" and "q < 256" and "p \<noteq> q"
    and "dir_index v = dir_index VIRTUAL_START" and "dir_index w \<noteq> dir_index VIRTUAL_START"
  shows "translate T (remap VIRTUAL_START (frame_of p) s) v = Some (frame_of p + (v AND 0x3FFFFF), True)
    \<and> translate T (remap VIRTUAL_START (frame_of p) s) w = translate T s w
    \<and> frame_of p + (v AND 0x3FFFFF) \<noteq> frame_of q + (u AND 0x3FFFFF)
    \<and> 0x800000 \<le> unat (frame_of p + (v AND 0x3FFFFF))"
  using assms frames_disjoint [of p q v u] unat_frame_addr [of p v]
  by (auto simp: remap_inside frame_aligned remap_outside)

theorem remap_isolates_witness:
  "translate some_tables (remap VIRTUAL_START (frame_of 2) (init_paging some_tables blank_paging)) 0x8048000 =
     Some (0x1048000, True)
   \<and> translate some_tables (remap VIRTUAL_START (frame_of 2) (init_paging some_tables blank_paging)) 0xB8000 =
     translate some_tables (init_paging some_tables blank_paging) 0xB8000"
  using remap_isolates [of "init_paging some_tables blank_paging" 2 1 "0x8048000" "0xB8000" some_tables 0]
  by (simp add: dir_index_def frame_of_def const_defs)

end
