(* ===== verification/BlockMem.thy ===== *)
theory BlockMem
  imports Prelude
begin

text \<open>
  The block operations of \<^verbatim>\<open>student-distrib/lib.c\<close> that are inline assembly:
  \<open>memset\<close>, \<open>memset_word\<close>, \<open>memset_dword\<close>, \<open>memcpy\<close> and \<open>memmove\<close>. Each label
  of the assembly is a function over the registers it uses; \<open>rep stosl\<close>, \<open>rep movsl\<close>,
  \<open>rep stosw\<close> and \<open>rep movsb\<close> are loops over the string instruction. The lemmas give the
  effect on memory in closed form, for every alignment and with addresses wrapping at 32 bits.
\<close>

section \<open>Stores and loads of more than a byte\<close>

definition store32 :: "bytes \<Rightarrow> u32 \<Rightarrow> u32 \<Rightarrow> bytes" where
  "store32 m a v = m(a := ucast v, a + 1 := ucast (drop_bit 8 v),
     a + 2 := ucast (drop_bit 16 v), a + 3 := ucast (drop_bit 24 v))"

definition store16 :: "bytes \<Rightarrow> u32 \<Rightarrow> u16 \<Rightarrow> bytes" where
  "store16 m a v = m(a := ucast v, a + 1 := ucast (drop_bit 8 v))"

section \<open>memset\<close>

text \<open>\<open>rep stosl\<close>: store \<open>eax\<close>, advance \<open>edi\<close> by four, count \<open>ecx\<close> down.\<close>

function rep_stosl :: "bytes \<Rightarrow> u32 \<Rightarrow> u32 \<Rightarrow> u32 \<Rightarrow> bytes \<times> u32" where
  "rep_stosl m eax edi ecx =
     (if ecx = 0 then (m, edi) else rep_stosl (store32 m edi eax) eax (edi + 4) (ecx - 1))"
  by pat_completeness auto
termination
  by (relation "measure (\<lambda>(m, eax, edi, ecx). unat ecx)") (auto simp: word_down_measure)

text \<open>The loop at \<open>.memset_bottom\<close>: the last \<open>edx\<close> bytes.\<close>

function memset_bottom :: "bytes \<Rightarrow> u32 \<Rightarrow> u32 \<Rightarrow> u32 \<Rightarrow> bytes" where
  "memset_bottom m eax edi edx =
     (if edx = 0 then m
      else memset_bottom (m(edi := ucast eax)) eax (edi + 1) (edx - 1))"
  by pat_completeness auto
termination
  by (relation "measure (\<lambda>(m, eax, edi, edx). unat edx)") (auto simp: word_down_measure)

definition memset_aligned :: "bytes \<Rightarrow> u32 \<Rightarrow> u32 \<Rightarrow> u32 \<Rightarrow> bytes" where
  "memset_aligned m eax edi ecx =
     (let edx = ecx AND 3
      in case rep_stosl m eax edi (drop_bit 2 ecx) of (m, edi) \<Rightarrow> memset_bottom m eax edi edx)"

text \<open>The loop at \<open>.memset_top\<close>: single bytes until \<open>edi\<close> is aligned.\<close>

function memset_top :: "bytes \<Rightarrow> u32 \<Rightarrow> u32 \<Rightarrow> u32 \<Rightarrow> bytes" where
  "memset_top m eax edi ecx =
     (if ecx = 0 then m
      else if edi AND 3 = 0 then memset_aligned m eax edi ecx
      else memset_top (m(edi := ucast eax)) eax (edi + 1) (ecx - 1))"
  by pat_completeness auto
termination
  by (relation "measure (\<lambda>(m, eax, edi, ecx). unat ecx)") (auto simp: word_down_measure)

definition memset :: "bytes \<Rightarrow> u32 \<Rightarrow> u32 \<Rightarrow> u32 \<Rightarrow> bytes" where
  "memset m s c n =
     (let c = c AND 255
      in memset_top m (push_bit 24 c OR push_bit 16 c OR push_bit 8 c OR c) s n)"

declare rep_stosl.simps [simp del, loop_unfold] memset_bottom.simps [simp del, loop_unfold]
  memset_top.simps [simp del, loop_unfold]

text \<open>Reference: \<open>n\<close> bytes from \<open>p\<close> on set to \<open>v\<close>.\<close>

definition fill :: "bytes \<Rightarrow> u32 \<Rightarrow> u8 \<Rightarrow> nat \<Rightarrow> bytes" where
  "fill m p v n = (\<lambda>a. if unat (a - p) < n then v else m a)"

lemma fill_0 [simp]: "fill m p v 0 = m"
  by (simp add: fill_def)

lemma fill_Suc:
  assumes "Suc n \<le> 2 ^ 32"
  shows "fill (m(p := v)) (p + 1) v n = fill m p v (Suc n)"
proof
  fix a
  show "fill (m(p := v)) (p + 1) v n a = fill m p v (Suc n) a"
  proof (cases "a = p")
    case True
    then show ?thesis using assms by (simp add: fill_def unat_minus_1_u32)
  next
    case False
    then show ?thesis using unat_diff_Suc [OF False] by (simp add: fill_def)
  qed
qed

lemma fill_fill:
  "k + j \<le> 2 ^ 32 \<Longrightarrow> fill (fill m p v k) (p + of_nat k) v j = fill m p v (k + j)"
proof (induction k arbitrary: m p)
  case (Suc k)
  have "fill (fill m p v (Suc k)) (p + of_nat (Suc k)) v j =
      fill (fill (m(p := v)) (p + 1) v k) (p + 1 + of_nat k) v j"
    using Suc.prems fill_Suc [of k m p v] by (simp add: add.assoc)
  also have "\<dots> = fill (m(p := v)) (p + 1) v (k + j)"
    using Suc by simp
  also have "\<dots> = fill m p v (Suc k + j)"
    using Suc.prems fill_Suc [of "k + j" m p v] by simp
  finally show ?case .
qed simp

definition splat :: "u8 \<Rightarrow> u32 \<Rightarrow> bool" where
  "splat v eax \<longleftrightarrow> ucast eax = v \<and> ucast (drop_bit 8 eax) = v
     \<and> ucast (drop_bit 16 eax) = v \<and> ucast (drop_bit 24 eax) = v"

lemma fill_4: "fill m p v 4 = m(p := v, p + 1 := v, p + 2 := v, p + 3 := v)"
proof -
  have "fill m p v (Suc (Suc (Suc (Suc 0)))) = m(p := v, p + 1 := v, p + 1 + 1 := v, p + 1 + 1 + 1 := v)"
    by (subst fill_Suc [symmetric], simp)+ simp
  moreover have "p + 1 + 1 = p + 2" "p + 1 + 1 + 1 = p + 3" by simp_all
  moreover have "Suc (Suc (Suc (Suc 0))) = 4" by simp
  ultimately show ?thesis by (simp only:)
qed

lemma store32_fill: "splat v eax \<Longrightarrow> store32 m p eax = fill m p v 4"
  by (simp add: fill_4 store32_def splat_def)

lemma rep_stosl_fill:
  assumes "splat v eax"
  shows "4 * unat q \<le> 2 ^ 32 \<Longrightarrow> rep_stosl m eax p q = (fill m p v (4 * unat q), p + 4 * q)"
proof (induction "unat q" arbitrary: m p q)
  case 0
  then have "q = 0" by (simp add: unat_0_iff)
  then show ?case by (simp add: rep_stosl.simps)
next
  case (Suc k)
  note q = unat_SucD [OF Suc.hyps(2), THEN conjunct1] unat_SucD [OF Suc.hyps(2), THEN conjunct2]
  have "rep_stosl m eax p q = rep_stosl (fill m p v 4) eax (p + 4) (q - 1)"
    using q assms by (simp add: rep_stosl.simps [of m] store32_fill)
  also have "\<dots> = (fill (fill m p v 4) (p + of_nat 4) v (4 * k), p + 4 + 4 * (q - 1))"
    using Suc.hyps(1) [of "q - 1"] q Suc by simp
  also have "\<dots> = (fill m p v (4 * unat q), p + 4 * q)"
    using Suc by (subst fill_fill) (simp_all add: algebra_simps flip: Suc.hyps(2))
  finally show ?case .
qed

lemma memset_bottom_fill:
  assumes "splat v eax"
  shows "memset_bottom m eax p q = fill m p v (unat q)"
proof (induction "unat q" arbitrary: m p q)
  case 0
  then have "q = 0" by (simp add: unat_0_iff)
  then show ?case by (simp add: memset_bottom.simps)
next
  case (Suc k)
  note q = unat_SucD [OF Suc.hyps(2), THEN conjunct1] unat_SucD [OF Suc.hyps(2), THEN conjunct2]
  have "Suc k \<le> 2 ^ 32" using unsigned_less [of q, where ?'a = nat] Suc.hyps(2) by simp
  with q assms Suc show ?case
    by (simp add: memset_bottom.simps [of m] splat_def fill_Suc flip: Suc.hyps(2))
qed

lemma memset_aligned_fill:
  assumes "splat v eax"
  shows "memset_aligned m eax p n = fill m p v (unat n)"
proof -
  have q: "unat (drop_bit 2 n) = unat n div 4"
    by (simp add: drop_bit_eq_div unat_div_distrib)
  have n: "4 * (unat n div 4) + unat n mod 4 = unat n" by simp
  have "4 * unat (drop_bit 2 n) \<le> 2 ^ 32"
    unfolding q using unat_less_2p32 [of n] by linarith
  from rep_stosl_fill [OF assms this, of m p] have "memset_aligned m eax p n =
      fill (fill m p v (4 * (unat n div 4))) (p + of_nat (4 * (unat n div 4))) v (unat n mod 4)"
    by (simp add: memset_aligned_def memset_bottom_fill [OF assms] unat_and_3 Let_def flip: q)
  then show ?thesis using unat_less_2p32 [of n] n by (subst (asm) fill_fill) simp_all
qed

lemma memset_top_fill:
  assumes "splat v eax"
  shows "memset_top m eax p n = fill m p v (unat n)"
proof (induction "unat n" arbitrary: m p n)
  case 0
  then have "n = 0" by (simp add: unat_0_iff)
  then show ?case by (simp add: memset_top.simps)
next
  case (Suc k)
  note q = unat_SucD [OF Suc.hyps(2), THEN conjunct1] unat_SucD [OF Suc.hyps(2), THEN conjunct2]
  have "Suc k \<le> 2 ^ 32" using unat_less_2p32 [of n] Suc.hyps(2) by simp
  then have "fill (m(p := v)) (p + 1) v k = fill m p v (unat n)"
    using fill_Suc [of k m p v] Suc.hyps(2) by simp
  with q assms Suc.hyps(1) [of "n - 1"] show ?case
    by (simp add: memset_top.simps [of m] memset_aligned_fill [OF assms] splat_def)
qed

lemma and_255: "c AND 255 = take_bit 8 c" for c :: u32
  by (simp add: take_bit_eq_mask mask_eq_exp_minus_1)

lemma splat_memset: "splat (ucast c) (push_bit 24 c OR push_bit 16 c OR push_bit 8 c OR c)"
  if "c = d AND 255" for c d :: u32
  unfolding splat_def that and_255
  by (auto intro!: bit_eqI simp: bit_simps)

lemma memset_eq: "memset m s c n = fill m s (ucast c) (unat n)"
proof -
  have "(ucast (c AND 255) :: u8) = ucast c"
    unfolding and_255 by (intro bit_eqI) (auto simp: bit_simps)
  then show ?thesis
    using memset_top_fill [OF splat_memset [OF refl, of c]] by (simp add: memset_def Let_def)
qed

section \<open>memset_word and memset_dword\<close>

function rep_stosw :: "bytes \<Rightarrow> u32 \<Rightarrow> u32 \<Rightarrow> u32 \<Rightarrow> bytes" where
  "rep_stosw m eax edi ecx =
     (if ecx = 0 then m else rep_stosw (store16 m edi (ucast eax)) eax (edi + 2) (ecx - 1))"
  by pat_completeness auto
termination
  by (relation "measure (\<lambda>(m, eax, edi, ecx). unat ecx)") (auto simp: word_down_measure)

declare rep_stosw.simps [simp del, loop_unfold]

definition memset_word :: "bytes \<Rightarrow> u32 \<Rightarrow> u32 \<Rightarrow> u32 \<Rightarrow> bytes" where
  "memset_word m s c n = rep_stosw m c s n"

definition memset_dword :: "bytes \<Rightarrow> u32 \<Rightarrow> u32 \<Rightarrow> u32 \<Rightarrow> bytes" where
  "memset_dword m s c n = fst (rep_stosl m c s n)"

section \<open>memcpy\<close>

function rep_movsl :: "bytes \<Rightarrow> u32 \<Rightarrow> u32 \<Rightarrow> u32 \<Rightarrow> bytes \<times> u32 \<times> u32" where
  "rep_movsl m edi esi ecx =
     (if ecx = 0 then (m, edi, esi)
      else rep_movsl (store32 m edi (load32 m esi)) (edi + 4) (esi + 4) (ecx - 1))"
  by pat_completeness auto
termination
  by (relation "measure (\<lambda>(m, edi, esi, ecx). unat ecx)") (auto simp: word_down_measure)

text \<open>The loop at \<open>.memcpy_bottom\<close>: the last \<open>edx\<close> bytes.\<close>

function memcpy_bottom :: "bytes \<Rightarrow> u32 \<Rightarrow> u32 \<Rightarrow> u32 \<Rightarrow> bytes" where
  "memcpy_bottom m edi esi edx =
     (if edx = 0 then m
      else memcpy_bottom (m(edi := m esi)) (edi + 1) (esi + 1) (edx - 1))"
  by pat_completeness auto
termination
  by (relation "measure (\<lambda>(m, edi, esi, edx). unat edx)") (auto simp: word_down_measure)

definition memcpy_aligned :: "bytes \<Rightarrow> u32 \<Rightarrow> u32 \<Rightarrow> u32 \<Rightarrow> bytes" where
  "memcpy_aligned m edi esi ecx =
     (let edx = ecx AND 3
      in case rep_movsl m edi esi (drop_bit 2 ecx) of (m, edi, esi) \<Rightarrow> memcpy_bottom m edi esi edx)"

function memcpy_top :: "bytes \<Rightarrow> u32 \<Rightarrow> u32 \<Rightarrow> u32 \<Rightarrow> bytes" where
  "memcpy_top m edi esi ecx =
     (if ecx = 0 then m
      else if edi AND 3 = 0 then memcpy_aligned m edi esi ecx
      else memcpy_top (m(edi := m esi)) (edi + 1) (esi + 1) (ecx - 1))"
  by pat_completeness auto
termination
  by (relation "measure (\<lambda>(m, edi, esi, ecx). unat ecx)") (auto simp: word_down_measure)

definition memcpy :: "bytes \<Rightarrow> u32 \<Rightarrow> u32 \<Rightarrow> u32 \<Rightarrow> bytes" where
  "memcpy m dest src n = memcpy_top m dest src n"

declare rep_movsl.simps [simp del, loop_unfold] memcpy_bottom.simps [simp del, loop_unfold]
  memcpy_top.simps [simp del, loop_unfold]

text \<open>
  Reference: \<open>n\<close> bytes from \<open>d\<close> on take the values the \<open>n\<close> bytes from \<open>s\<close> on had. A
  forward copy has this effect unless the destination starts inside the source.
\<close>

definition blit :: "bytes \<Rightarrow> u32 \<Rightarrow> u32 \<Rightarrow> nat \<Rightarrow> bytes" where
  "blit m d s n = (\<lambda>a. if unat (a - d) < n then m (s + (a - d)) else m a)"

definition forward_ok :: "u32 \<Rightarrow> u32 \<Rightarrow> nat \<Rightarrow> bool" where
  "forward_ok d s n \<longleftrightarrow> n \<le> 2 ^ 32 \<and> (d = s \<or> n \<le> unat (d - s))"

lemma blit_0 [simp]: "blit m d s 0 = m"
  by (simp add: blit_def)

lemma forward_ok_step: "forward_ok d s (k + n) \<Longrightarrow> forward_ok (d + e) (s + e) n"
  by (auto simp: forward_ok_def)

lemma forward_ok_less: "forward_ok d s n \<Longrightarrow> k \<le> n \<Longrightarrow> forward_ok d s k"
  by (auto simp: forward_ok_def)

lemma blit_Suc:
  assumes "forward_ok d s (Suc n)"
  shows "blit (m(d := m s)) (d + 1) (s + 1) n = blit m d s (Suc n)"
proof
  fix a
  show "blit (m(d := m s)) (d + 1) (s + 1) n a = blit m d s (Suc n) a"
  proof (cases "a = d")
    case True
    then show ?thesis using assms by (simp add: blit_def forward_ok_def unat_minus_1_u32)
  next
    case False
    have less: "unat (a - d) < Suc n \<longleftrightarrow> unat (a - (d + 1)) < n"
      using unat_diff_Suc [OF False] by simp
    have "s + (a - d) \<noteq> d" if "unat (a - d) < Suc n"
    proof
      assume "s + (a - d) = d"
      then have "d - s = a - d" by (simp add: algebra_simps)
      with that False assms show False by (auto simp: forward_ok_def)
    qed
    moreover have "s + 1 + (a - (d + 1)) = s + (a - d)" by (simp add: algebra_simps)
    ultimately show ?thesis using less False by (simp add: blit_def)
  qed
qed

lemma blit_blit:
  "forward_ok d s (k + j) \<Longrightarrow>
   blit (blit m d s k) (d + of_nat k) (s + of_nat k) j = blit m d s (k + j)"
proof (induction k arbitrary: m d s)
  case (Suc k)
  have f: "forward_ok d s (Suc k)" "forward_ok d s (Suc (k + j))"
    using Suc.prems by (auto intro: forward_ok_less)
  have f': "forward_ok (d + 1) (s + 1) (k + j)"
    using forward_ok_step [of d s 1 "k + j" 1] Suc.prems by simp
  have "blit (blit m d s (Suc k)) (d + of_nat (Suc k)) (s + of_nat (Suc k)) j =
      blit (blit (m(d := m s)) (d + 1) (s + 1) k) (d + 1 + of_nat k) (s + 1 + of_nat k) j"
    using blit_Suc [OF f(1), of m] by (simp add: add.assoc)
  also have "\<dots> = blit (m(d := m s)) (d + 1) (s + 1) (k + j)" by (rule Suc.IH [OF f'])
  also have "\<dots> = blit m d s (Suc k + j)" using blit_Suc [OF f(2), of m] by simp
  finally show ?case .
qed simp

lemma load32_bytes:
  "ucast (load32 m s) = m s" "ucast (drop_bit 8 (load32 m s)) = m (s + 1)"
  "ucast (drop_bit 16 (load32 m s)) = m (s + 2)" "ucast (drop_bit 24 (load32 m s)) = m (s + 3)"
  unfolding load32_def
  by (rule bit_eqI, auto simp: bit_simps dest: bit_imp_le_length)+

lemma unat_less_4: "unat x < 4 \<longleftrightarrow> x = 0 \<or> x = 1 \<or> x = 2 \<or> x = 3" for x :: u32
proof
  assume "unat x < 4"
  then have "unat x = 0 \<or> unat x = 1 \<or> unat x = 2 \<or> unat x = 3" by linarith
  then show "x = 0 \<or> x = 1 \<or> x = 2 \<or> x = 3"
    by (auto simp: word_unat_eq_iff)
qed auto

lemma movsl_blit: "store32 m d (load32 m s) = blit m d s 4"
proof
  fix a
  have "a - d = 0 \<longleftrightarrow> a = d" "a - d = 1 \<longleftrightarrow> a = d + 1" "a - d = 2 \<longleftrightarrow> a = d + 2" "a - d = 3 \<longleftrightarrow> a = d + 3"
    by (auto simp: algebra_simps)
  then show "store32 m d (load32 m s) a = blit m d s 4 a"
    by (auto simp: store32_def load32_bytes blit_def unat_less_4)
qed

lemma rep_movsl_blit:
  "forward_ok d s (4 * unat q) \<Longrightarrow>
   rep_movsl m d s q = (blit m d s (4 * unat q), d + 4 * q, s + 4 * q)"
proof (induction "unat q" arbitrary: m d s q)
  case 0
  then have "q = 0" by (simp add: unat_0_iff)
  then show ?case by (simp add: rep_movsl.simps)
next
  case (Suc k)
  note q = unat_SucD [OF Suc.hyps(2), THEN conjunct1] unat_SucD [OF Suc.hyps(2), THEN conjunct2]
  have len: "4 * unat q = 4 + 4 * k" using Suc.hyps(2) by simp
  have f: "forward_ok (d + 4) (s + 4) (4 * unat (q - 1))"
    using Suc.prems forward_ok_step unfolding len q(2) by blast
  have "rep_movsl m d s q = rep_movsl (blit m d s 4) (d + 4) (s + 4) (q - 1)"
    using q by (simp add: rep_movsl.simps [of m] movsl_blit)
  also have "\<dots> = (blit (blit m d s 4) (d + of_nat 4) (s + of_nat 4) (4 * k),
      d + 4 + 4 * (q - 1), s + 4 + 4 * (q - 1))"
    using Suc.hyps(1) [OF q(2) [symmetric] f] q by simp
  also have "\<dots> = (blit m d s (4 * unat q), d + 4 * q, s + 4 * q)"
    using blit_blit [OF Suc.prems [unfolded len], of m] unfolding len by (simp add: algebra_simps)
  finally show ?case .
qed

lemma memcpy_bottom_blit:
  "forward_ok d s (unat q) \<Longrightarrow> memcpy_bottom m d s q = blit m d s (unat q)"
proof (induction "unat q" arbitrary: m d s q)
  case 0
  then have "q = 0" by (simp add: unat_0_iff)
  then show ?case by (simp add: memcpy_bottom.simps)
next
  case (Suc k)
  note q = unat_SucD [OF Suc.hyps(2), THEN conjunct1] unat_SucD [OF Suc.hyps(2), THEN conjunct2]
  have len: "unat q = 1 + k" using Suc.hyps(2) by simp
  have f: "forward_ok (d + 1) (s + 1) (unat (q - 1))"
    using Suc.prems forward_ok_step unfolding len q(2) by blast
  have "memcpy_bottom m d s q = blit (m(d := m s)) (d + 1) (s + 1) k"
    using q Suc.hyps(1) [OF q(2) [symmetric] f] by (simp add: memcpy_bottom.simps [of m])
  also have "\<dots> = blit m d s (unat q)" using blit_Suc [of d s k m] Suc.prems by (simp add: len)
  finally show ?case .
qed

lemma memcpy_aligned_blit:
  assumes "forward_ok d s (unat n)"
  shows "memcpy_aligned m d s n = blit m d s (unat n)"
proof -
  define k where "k = 4 * unat (drop_bit 2 n)"
  have n: "unat n = k + unat (n AND 3)"
    by (simp add: k_def unat_and_3 drop_bit_eq_div unat_div_distrib)
  have f: "forward_ok d s k" using forward_ok_less [OF assms] n by simp
  have k: "(of_nat k :: u32) = 4 * drop_bit 2 n" by (simp add: k_def)
  have f': "forward_ok (d + 4 * drop_bit 2 n) (s + 4 * drop_bit 2 n) (unat (n AND 3))"
    using forward_ok_step assms unfolding n by blast
  have "memcpy_aligned m d s n =
      blit (blit m d s k) (d + 4 * drop_bit 2 n) (s + 4 * drop_bit 2 n) (unat (n AND 3))"
    using rep_movsl_blit [of d s "drop_bit 2 n" m] f memcpy_bottom_blit [OF f']
    by (simp add: memcpy_aligned_def k_def Let_def)
  also have "\<dots> = blit m d s (unat n)"
    using blit_blit [of d s k "unat (n AND 3)" m] assms n k by simp
  finally show ?thesis .
qed

lemma memcpy_blit: "forward_ok d s (unat n) \<Longrightarrow> memcpy m d s n = blit m d s (unat n)"
  unfolding memcpy_def
proof (induction "unat n" arbitrary: m d s n)
  case 0
  then have "n = 0" by (simp add: unat_0_iff)
  then show ?case by (simp add: memcpy_top.simps)
next
  case (Suc k)
  note q = unat_SucD [OF Suc.hyps(2), THEN conjunct1] unat_SucD [OF Suc.hyps(2), THEN conjunct2]
  have len: "unat n = 1 + k" using Suc.hyps(2) by simp
  have f: "forward_ok (d + 1) (s + 1) (unat (n - 1))"
    using Suc.prems forward_ok_step unfolding len q(2) by blast
  show ?case
  proof (cases "d AND 3 = 0")
    case True
    then show ?thesis
      using q memcpy_aligned_blit [OF Suc.prems] by (simp add: memcpy_top.simps [of m])
  next
    case False
    then have "memcpy_top m d s n = blit (m(d := m s)) (d + 1) (s + 1) k"
      using q Suc.hyps(1) [OF q(2) [symmetric] f] by (simp add: memcpy_top.simps [of m])
    also have "\<dots> = blit m d s (unat n)" using blit_Suc [of d s k m] Suc.prems by (simp add: len)
    finally show ?thesis .
  qed
qed

text \<open>Two blocks of \<open>n\<close> bytes that share no address: the case the kernel relies on.\<close>

definition disjoint_blocks :: "u32 \<Rightarrow> u32 \<Rightarrow> nat \<Rightarrow> bool" where
  "disjoint_blocks d s n \<longleftrightarrow> n \<le> unat (d - s) \<and> n \<le> unat (s - d)"

lemma disjoint_forward_ok: "disjoint_blocks d s n \<Longrightarrow> forward_ok d s n"
  using unat_less_2p32 [of "d - s"] by (simp add: disjoint_blocks_def forward_ok_def)

section \<open>memmove\<close>

text \<open>
  \<open>rep movsb\<close> with the direction flag \<open>df\<close>: both indices go down when it is set. The result
  carries the flag as the function leaves it, since no \<open>cld\<close> follows the \<open>std\<close>.
\<close>

function rep_movsb :: "bool \<Rightarrow> bytes \<Rightarrow> u32 \<Rightarrow> u32 \<Rightarrow> u32 \<Rightarrow> bytes" where
  "rep_movsb df m edi esi ecx =
     (if ecx = 0 then m
      else rep_movsb df (m(edi := m esi)) (if df then edi - 1 else edi + 1)
             (if df then esi - 1 else esi + 1) (ecx - 1))"
  by pat_completeness auto
termination
  by (relation "measure (\<lambda>(df, m, edi, esi, ecx). unat ecx)") (auto simp: word_down_measure)

declare rep_movsb.simps [simp del, loop_unfold]

definition memmove :: "bytes \<Rightarrow> u32 \<Rightarrow> u32 \<Rightarrow> u32 \<Rightarrow> bytes \<times> bool" where
  "memmove m dest src n =
     (if src \<ge> dest then (rep_movsb False m dest src n, False)
      else (rep_movsb True m (dest + n - 1) (src + n - 1) n, True))"

lemma rep_movsb_forward: "rep_movsb False m d s n = memcpy_bottom m d s n"
proof (induction "unat n" arbitrary: m d s n)
  case 0
  then have "n = 0" by (simp add: unat_0_iff)
  then show ?case by (simp add: rep_movsb.simps memcpy_bottom.simps)
next
  case (Suc k)
  note q = unat_SucD [OF Suc.hyps(2), THEN conjunct1] unat_SucD [OF Suc.hyps(2), THEN conjunct2]
  then show ?case
    using Suc.hyps(1) [OF q(2) [symmetric]]
    by (simp add: rep_movsb.simps [of False m] memcpy_bottom.simps [of m])
qed

lemma rep_movsb_backward:
  "n \<noteq> 0 \<longrightarrow> unat n + unat (d - s) \<le> 2 ^ 32 \<Longrightarrow>
   rep_movsb True m (d + n - 1) (s + n - 1) n = blit m d s (unat n)"
proof (induction "unat n" arbitrary: m n)
  case 0
  then have "n = 0" by (simp add: unat_0_iff)
  then show ?case by (simp add: rep_movsb.simps)
next
  case (Suc k)
  note q = unat_SucD [OF Suc.hyps(2), THEN conjunct1] unat_SucD [OF Suc.hyps(2), THEN conjunct2]
  let ?m = "m(d + n - 1 := m (s + n - 1))"
  have "rep_movsb True m (d + n - 1) (s + n - 1) n = rep_movsb True ?m (d + (n - 1) - 1) (s + (n - 1) - 1) (n - 1)"
    using q by (simp add: rep_movsb.simps [of True m] add_diff_eq)
  also have "\<dots> = blit ?m d s k"
    using Suc.hyps(1) [OF q(2) [symmetric]] Suc.prems q Suc.hyps(2) by simp
  also have "\<dots> = blit m d s (unat n)"
  proof
    fix a
    have sum: "unat (d - s + (n - 1)) = unat (d - s) + k"
      using Suc.prems Suc.hyps(2) q by (simp add: unat_word_ariths(1))
    have top: "a = d + n - 1 \<longleftrightarrow> unat (a - d) = k"
      unfolding q(2) [symmetric] by (auto simp: word_unat_eq_iff [symmetric] algebra_simps)
    have "s + (a - d) \<noteq> d + n - 1" if "unat (a - d) < k"
    proof
      assume "s + (a - d) = d + n - 1"
      then have "a - d = d - s + (n - 1)" by (simp add: algebra_simps)
      then show False using sum that by (metis not_add_less2)
    qed
    note low = this
    consider "unat (a - d) < k" | "unat (a - d) = k" | "k < unat (a - d)" by linarith
    then show "blit ?m d s k a = blit m d s (unat n) a"
    proof cases
      case 1
      then show ?thesis using low Suc.hyps(2) [symmetric] by (simp add: blit_def)
    next
      case 2
      then show ?thesis using top Suc.hyps(2) [symmetric] by (simp add: blit_def add_diff_eq)
    next
      case 3
      then show ?thesis using top Suc.hyps(2) [symmetric] by (simp add: blit_def)
    qed
  qed
  finally show ?case .
qed

text \<open>
  \<open>memmove\<close> copies correctly whatever the overlap, for blocks that do not run past the end of
  the address space.
\<close>

lemma memmove_blit:
  assumes "unat dest + unat n \<le> 2 ^ 32" and "unat src + unat n \<le> 2 ^ 32"
  shows "fst (memmove m dest src n) = blit m dest src (unat n)"
proof (cases "src \<ge> dest")
  case True
  have "unat (dest - src) = 2 ^ 32 + unat dest - unat src" if "dest \<noteq> src"
    using True that unat_less_2p32 [of src]
    by (simp add: unat_sub_if' word_le_nat_alt word_unat_eq_iff)
  then have "forward_ok dest src (unat n)"
    using assms unat_less_2p32 [of n] by (cases "dest = src") (simp_all add: forward_ok_def)
  then show ?thesis using True by (simp add: memmove_def rep_movsb_forward memcpy_bottom_blit)
next
  case False
  then have "unat (dest - src) = unat dest - unat src"
    by (simp add: unat_sub_if' word_le_nat_alt)
  then have "rep_movsb True m (dest + n - 1) (src + n - 1) n = blit m dest src (unat n)"
    using assms by (intro rep_movsb_backward impI) linarith
  then show ?thesis using False by (simp add: memmove_def)
qed

section \<open>Properties\<close>

text \<open>
  \<open>memset\<close>, which aligns the pointer byte by byte and stores whole words in between, sets
  exactly the \<open>n\<close> bytes from \<open>s\<close> on to the low byte of \<open>c\<close>.
\<close>

theorem memset_correct: "memset m s c n = fill m s (ucast c) (unat n)"
  by (rule memset_eq)

text \<open>
  Claim C40. \<open>memcpy\<close> is a block copy for blocks that do not overlap, and for overlapping blocks whose
  destination starts below the source.
\<close>

theorem memcpy_correct: "forward_ok d s (unat n) \<Longrightarrow> memcpy m d s n = blit m d s (unat n)"
  by (rule memcpy_blit)

theorem memcpy_correct_witness: "memcpy (\<lambda>a. ucast a) 0x1001 0x2003 10 = blit (\<lambda>a. ucast a) 0x1001 0x2003 10"
  using memcpy_correct [of "0x1001" "0x2003" 10] by (simp add: forward_ok_def)

text \<open>
  \<open>memmove\<close> is a block copy however the two blocks overlap, as long as neither runs past the
  end of the address space.
\<close>

theorem memmove_correct:
  assumes "unat dest + unat n \<le> 2 ^ 32" and "unat src + unat n \<le> 2 ^ 32"
  shows "fst (memmove m dest src n) = blit m dest src (unat n)"
  using assms by (rule memmove_blit)

theorem memmove_correct_witness:
  "fst (memmove (\<lambda>a. ucast a) 0x1002 0x1000 10) = blit (\<lambda>a. ucast a) 0x1002 0x1000 10"
  using memmove_correct [of "0x1002" 10 "0x1000"] by simp

text \<open>A backward move leaves the direction flag set: nothing clears it afterwards.\<close>

lemma memmove_direction_flag: "snd (memmove m dest src n) \<longleftrightarrow> src < dest"
  by (auto simp: memmove_def)

end
