(* ===== verification/Rofs.thy ===== *)
theory Rofs
  imports Paging BlockMem
begin

text \<open>
  The read-only file system \<^verbatim>\<open>student-distrib/rofs.c\<close>: the boot block with its directory
  entries, the inodes and the data blocks of the image that \<open>init_rofs\<close> is given, read in place
  from memory, with directory lookup by name and by index and the block-wise \<open>read_data\<close>. The
  second half relates them to what the image stands for: a list of directory entries and, for each
  inode, a list of bytes. The file and directory drivers that work on open files are in
  \<open>Files\<close>.
\<close>

section \<open>State and layout\<close>

record rofs = paging +
  boot_block :: u32
  inodes :: u32
  data_blocks :: u32

definition FILE_NAME_LENGTH :: u32 where [const_defs]: "FILE_NAME_LENGTH = 32"

text \<open>\<open>sizeof(boot_block_t)\<close>, \<open>sizeof(inode_t)\<close> and \<open>sizeof(data_block_t)\<close>.\<close>

definition BLOCK_SIZE :: u32 where [const_defs]: "BLOCK_SIZE = 4096"

record dentry =
  file_name :: "u8 list"
  file_type :: u32
  inode_num :: u32
  reserved :: "u8 list"

text \<open>
  The structure at an address, as \<open>memcpy(dentry, ..., sizeof(dentry_t))\<close> copies it: the name in
  bytes 0 to 31, the type at 32, the inode at 36, the rest reserved.
\<close>

definition load_dentry :: "bytes \<Rightarrow> u32 \<Rightarrow> dentry" where
  "load_dentry m a =
     \<lparr>file_name = map (\<lambda>i. m (a + of_nat i)) [0..<32], file_type = load32 m (a + 32),
      inode_num = load32 m (a + 36), reserved = map (\<lambda>i. m (a + 40 + of_nat i)) [0..<24]\<rparr>"

definition num_dir_entries :: "'a rofs_scheme \<Rightarrow> u32" where
  "num_dir_entries s = load32 (mem s) (boot_block s)"

definition num_inodes :: "'a rofs_scheme \<Rightarrow> u32" where
  "num_inodes s = load32 (mem s) (boot_block s + 4)"

text \<open>\<open>&boot_block->dentries[i]\<close>, \<open>&inodes[i]\<close> and the fields of an inode.\<close>

definition dentry_at :: "'a rofs_scheme \<Rightarrow> u32 \<Rightarrow> u32" where
  "dentry_at s i = boot_block s + 64 + 64 * i"

definition inode_at :: "'a rofs_scheme \<Rightarrow> u32 \<Rightarrow> u32" where
  "inode_at s i = inodes s + BLOCK_SIZE * i"

definition inode_length :: "'a rofs_scheme \<Rightarrow> u32 \<Rightarrow> u32" where
  "inode_length s node = load32 (mem s) node"

definition data_block_num :: "'a rofs_scheme \<Rightarrow> u32 \<Rightarrow> u32 \<Rightarrow> u32" where
  "data_block_num s node block = load32 (mem s) (node + 4 + 4 * block)"

section \<open>Operations\<close>

definition init_rofs :: "u32 \<Rightarrow> 'a rofs_scheme \<Rightarrow> 'a rofs_scheme" where
  "init_rofs base s =
     (let boot_block_size = BLOCK_SIZE;
          s = s\<lparr>boot_block := base\<rparr>;
          s = s\<lparr>inodes := base + boot_block_size\<rparr>
      in s\<lparr>data_blocks := base + boot_block_size + num_inodes s * BLOCK_SIZE\<rparr>)"

text \<open>The result \<open>-1\<close> with nothing copied is \<open>None\<close>, the result \<open>0\<close> is the copied entry.\<close>

function dentry_scan :: "'a rofs_scheme \<Rightarrow> bytes \<Rightarrow> u32 \<Rightarrow> dentry option" where
  "dentry_scan s fname i =
     (if i < num_dir_entries s then
        if strncmp fname (view (mem s) (dentry_at s i)) FILE_NAME_LENGTH \<noteq> 0
        then dentry_scan s fname (i + 1)
        else Some (load_dentry (mem s) (dentry_at s i))
      else None)"
  by pat_completeness auto
termination
  by (relation "measure (\<lambda>(s, fname, i). unat (num_dir_entries s) - unat i)") (auto simp: word_up_measure)

declare dentry_scan.simps [simp del, loop_unfold]

definition read_dentry_by_name :: "'a rofs_scheme \<Rightarrow> bytes \<Rightarrow> dentry option" where
  "read_dentry_by_name s fname = dentry_scan s fname 0"

definition read_dentry_by_index :: "'a rofs_scheme \<Rightarrow> u32 \<Rightarrow> dentry option" where
  "read_dentry_by_index s index =
     (if index \<ge> num_dir_entries s then None else Some (load_dentry (mem s) (dentry_at s index)))"

text \<open>
  \<open>read_data\<close> copies byte by byte: \<open>(i + offset) >> 12\<close> selects the block, the low twelve bits
  the byte in it. The loop counter is compared with the unsigned length; the value returned is its
  signed reading. The buffer is what the pointer sees, outside the image.
\<close>

function read_loop :: "'a rofs_scheme \<Rightarrow> u32 \<Rightarrow> u32 \<Rightarrow> u32 \<Rightarrow> u32 \<Rightarrow> bytes \<Rightarrow> bytes" where
  "read_loop s node offset len i buf =
     (if i < len then
        let block = drop_bit 12 (i + offset);
            block_offset = (i + offset) AND 0xFFF;
            c = mem s (data_blocks s + BLOCK_SIZE * data_block_num s node block + block_offset)
        in read_loop s node offset len (i + 1) (buf(i := c))
      else buf)"
  by pat_completeness auto
termination
  by (relation "measure (\<lambda>(s, node, offset, len, i, buf). unat len - unat i)") (auto simp: word_up_measure)

declare read_loop.simps [simp del, loop_unfold]

definition read_data :: "'a rofs_scheme \<Rightarrow> u32 \<Rightarrow> u32 \<Rightarrow> bytes \<Rightarrow> u32 \<Rightarrow> int \<times> bytes" where
  "read_data s inode offset buf len =
     (if inode \<ge> num_inodes s then (- 1, buf)
      else
        let node = inode_at s inode
        in if offset > inode_length s node then (- 1, buf)
           else
             let len = (if offset + len > inode_length s node then inode_length s node - offset else len)
             in (sint len, read_loop s node offset len 0 buf))"

definition FILE_TYPE_RTC :: u32 where [const_defs]: "FILE_TYPE_RTC = 0"
definition FILE_TYPE_DIR :: u32 where [const_defs]: "FILE_TYPE_DIR = 1"
definition FILE_TYPE_FILE :: u32 where [const_defs]: "FILE_TYPE_FILE = 2"

definition MAX_FILES :: int where [const_defs]: "MAX_FILES = 8"

definition file_open :: "'a rofs_scheme \<Rightarrow> bytes \<Rightarrow> int" where
  "file_open s filename =
     (case read_dentry_by_name s filename of
        None \<Rightarrow> - 1
      | Some dentry \<Rightarrow> if file_type dentry \<noteq> FILE_TYPE_FILE then - 1 else 0)"

definition file_close :: "int \<Rightarrow> int" where
  "file_close fd = (if fd < 0 \<or> fd > MAX_FILES then - 1 else 0)"

definition dir_open :: "'a rofs_scheme \<Rightarrow> bytes \<Rightarrow> int" where
  "dir_open s filename =
     (case read_dentry_by_name s filename of
        None \<Rightarrow> - 1
      | Some dentry \<Rightarrow> if file_type dentry \<noteq> FILE_TYPE_DIR then - 1 else 0)"

definition dir_close :: "int \<Rightarrow> int" where
  "dir_close fd = (if fd < 0 \<or> fd > MAX_FILES then - 1 else 0)"

section \<open>The directory as a list\<close>

definition fs_dir :: "'a rofs_scheme \<Rightarrow> dentry list" where
  "fs_dir s = map (\<lambda>i. load_dentry (mem s) (dentry_at s (of_nat i))) [0..<unat (num_dir_entries s)]"

text \<open>A list of bytes as the array a pointer to it sees.\<close>

definition arr :: "u8 list \<Rightarrow> bytes" where
  "arr xs = (\<lambda>i. if unat i < length xs then xs ! unat i else 0)"

text \<open>A C string names an entry: they agree on 32 bytes or up to an earlier common NUL.\<close>

definition names :: "bytes \<Rightarrow> dentry \<Rightarrow> bool" where
  "names fname d \<longleftrightarrow> strncmp fname (arr (file_name d)) FILE_NAME_LENGTH = 0"

lemma str_agree_cong: "(\<And>i. i < n \<Longrightarrow> t i = u i) \<Longrightarrow> str_agree s t n \<longleftrightarrow> str_agree s u n"
  by (auto simp: str_agree_def)

lemma names_load:
  "names fname (load_dentry m a) \<longleftrightarrow> strncmp fname (view m a) FILE_NAME_LENGTH = 0"
  unfolding names_def strncmp_0_iff
  by (rule str_agree_cong)
    (simp add: arr_def load_dentry_def FILE_NAME_LENGTH_def word_less_nat_alt del: upt_Suc)

lemma dentry_scan_find:
  "i \<le> num_dir_entries s \<Longrightarrow> dentry_scan s fname i = find (names fname) (drop (unat i) (fs_dir s))"
proof (induction i rule: word_up_induct)
  case stop
  then show ?case by (simp add: dentry_scan.simps [of s fname "num_dir_entries s"] fs_dir_def)
next
  case (step i)
  then have i: "unat i < length (fs_dir s)" by (simp add: fs_dir_def word_less_nat_alt)
  have "fs_dir s ! unat i = load_dentry (mem s) (dentry_at s i)"
    using i by (simp add: fs_dir_def)
  then have "drop (unat i) (fs_dir s) = load_dentry (mem s) (dentry_at s i) # drop (unat (i + 1)) (fs_dir s)"
    using i word_Suc_less [OF step.hyps] by (simp add: Cons_nth_drop_Suc [symmetric])
  then show ?case using step by (simp add: dentry_scan.simps [of s fname i] names_load)
qed

lemma read_dentry_by_name_find: "read_dentry_by_name s fname = find (names fname) (fs_dir s)"
  using dentry_scan_find [of 0 s fname] by (simp add: read_dentry_by_name_def)

lemma read_dentry_by_index_nth:
  "read_dentry_by_index s index = (if unat index < length (fs_dir s) then Some (fs_dir s ! unat index) else None)"
  by (auto simp: read_dentry_by_index_def fs_dir_def word_less_nat_alt word_le_nat_alt)

section \<open>A file as a list of bytes\<close>

text \<open>Byte \<open>k\<close> of a file, through the inode's block numbers.\<close>

definition file_byte :: "'a rofs_scheme \<Rightarrow> u32 \<Rightarrow> u32 \<Rightarrow> u8" where
  "file_byte s node k =
     mem s (data_blocks s + BLOCK_SIZE * data_block_num s node (drop_bit 12 k) + (k AND 0xFFF))"

definition file_bytes :: "'a rofs_scheme \<Rightarrow> u32 \<Rightarrow> u8 list" where
  "file_bytes s inode =
     map (\<lambda>k. file_byte s (inode_at s inode) (of_nat k)) [0..<unat (inode_length s (inode_at s inode))]"

lemma length_file_bytes [simp]:
  "length (file_bytes s inode) = unat (inode_length s (inode_at s inode))"
  by (simp add: file_bytes_def)

lemma read_loop_eq:
  "i \<le> len \<Longrightarrow> read_loop s node offset len i buf =
     (\<lambda>k. if i \<le> k \<and> k < len then file_byte s node (k + offset) else buf k)"
proof (induction i arbitrary: buf rule: word_up_induct)
  case stop
  then show ?case by (auto simp: read_loop.simps [of s node offset len len] fun_eq_iff)
next
  case (step i)
  have "read_loop s node offset len i buf =
      read_loop s node offset len (i + 1) (buf(i := file_byte s node (i + offset)))"
    using step.hyps by (simp add: read_loop.simps [of s node offset len i] file_byte_def)
  also have "\<dots> = (\<lambda>k. if i + 1 \<le> k \<and> k < len then file_byte s node (k + offset)
      else (buf(i := file_byte s node (i + offset))) k)"
    by (rule step.IH)
  finally show ?case
    using step.hyps by (auto simp: fun_eq_iff word_le_Suc_cases [OF step.hyps])
qed

text \<open>
  A file of a size the loop counter can hold, and a request that stays below \<open>2^32\<close>: the code reads
  exactly the requested part of the file.
\<close>

lemma read_data_eq:
  assumes "inode < num_inodes s" and "offset \<le> inode_length s (inode_at s inode)"
    and "unat offset + unat len < 2 ^ 32" and "unat (inode_length s (inode_at s inode)) < 2 ^ 31"
  defines "xs \<equiv> take (unat len) (drop (unat offset) (file_bytes s inode))"
  shows "read_data s inode offset buf len =
    (int (length xs), \<lambda>k. if unat k < length xs then xs ! unat k else buf k)"
proof -
  let ?node = "inode_at s inode" let ?L = "inode_length s ?node"
  define n where "n = (if offset + len > ?L then ?L - offset else len)"
  have sum: "unat (offset + len) = unat offset + unat len"
    using assms(3) by (simp add: unat_word_ariths(1))
  have n: "unat n = length xs"
    using assms(2) by (auto simp: n_def xs_def word_less_nat_alt word_le_nat_alt sum unat_sub)
  have lim: "length xs \<le> unat ?L - unat offset" by (simp add: xs_def)
  have "sint n = int (length xs)"
    using n lim assms(4) sint_unat_small [of n] by linarith
  moreover have "read_loop s ?node offset n 0 buf =
      (\<lambda>k. if unat k < length xs then xs ! unat k else buf k)"
  proof (rule ext)
    fix k
    have "file_byte s ?node (k + offset) = xs ! unat k" if "unat k < length xs"
    proof -
      have "unat offset + unat k < unat ?L" using that lim by simp
      moreover have "of_nat (unat offset + unat k) = k + offset" by simp
      ultimately show ?thesis using that by (simp add: xs_def file_bytes_def add.commute)
    qed
    then show "read_loop s ?node offset n 0 buf k = (if unat k < length xs then xs ! unat k else buf k)"
      using n by (auto simp: read_loop_eq word_less_nat_alt)
  qed
  ultimately show ?thesis
    using assms(1,2) by (auto simp: read_data_def Let_def n_def not_le not_less)
qed

lemma read_data_errors:
  "num_inodes s \<le> inode \<Longrightarrow> read_data s inode offset buf len = (- 1, buf)"
  "inode_length s (inode_at s inode) < offset \<Longrightarrow> read_data s inode offset buf len = (- 1, buf)"
  by (simp_all add: read_data_def)

text \<open>
  Reading a sequence in pieces: what a reader with a position promises for requests up to a limit,
  and that pieces of any sizes, read one after another, are a prefix of the sequence.
\<close>

locale seq_reader =
  fixes content :: "'i \<Rightarrow> 'a list" and ok :: "'i \<Rightarrow> bool"
    and read_at :: "'i \<Rightarrow> nat \<Rightarrow> nat \<Rightarrow> 'a list" and limit :: nat
  assumes read_at: "ok i \<Longrightarrow> p \<le> length (content i) \<Longrightarrow> n \<le> limit \<Longrightarrow>
    read_at i p n = take n (drop p (content i))"
begin

fun read_all :: "'i \<Rightarrow> nat \<Rightarrow> nat list \<Rightarrow> 'a list" where
  "read_all i p [] = []"
| "read_all i p (n # ns) = read_at i p n @ read_all i (p + length (read_at i p n)) ns"

lemma read_all_prefix:
  "ok i \<Longrightarrow> p \<le> length (content i) \<Longrightarrow> \<forall>n\<in>set ns. n \<le> limit \<Longrightarrow>
   read_all i p ns = take (sum_list ns) (drop p (content i))"
proof (induction ns arbitrary: p)
  case (Cons n ns)
  let ?k = "length (read_at i p n)"
  have r: "read_at i p n = take n (drop p (content i))" using Cons.prems by (simp add: read_at)
  then have k: "?k = min n (length (content i) - p)" by simp
  then have "p + ?k \<le> length (content i)" using Cons.prems by simp
  then have "read_all i p (n # ns) = take n (drop p (content i)) @ take (sum_list ns) (drop (p + ?k) (content i))"
    using Cons r by simp
  also have "\<dots> = take (n + sum_list ns) (drop p (content i))"
    by (cases "n \<le> length (content i) - p") (simp_all add: k take_add add.commute)
  finally show ?case by simp
qed simp

lemma read_all_whole:
  "ok i \<Longrightarrow> \<forall>n\<in>set ns. n \<le> limit \<Longrightarrow> length (content i) \<le> sum_list ns \<Longrightarrow> read_all i 0 ns = content i"
  using read_all_prefix [of i 0 ns] by simp

end

text \<open>The bytes one call of \<open>read_data\<close> at a position delivers.\<close>

definition data_chunk :: "'a rofs_scheme \<Rightarrow> u32 \<Rightarrow> nat \<Rightarrow> nat \<Rightarrow> u8 list" where
  "data_chunk s n p k =
     (case read_data s n (of_nat p) (\<lambda>_. 0) (of_nat k) of
        (r, buf) \<Rightarrow> map (\<lambda>i. buf (of_nat i)) [0..<nat r])"

text \<open>An inode that exists and holds a file of less than \<open>2^31\<close> bytes.\<close>

definition inode_ok :: "'a rofs_scheme \<Rightarrow> u32 \<Rightarrow> bool" where
  "inode_ok s n \<longleftrightarrow> n < num_inodes s \<and> unat (inode_length s (inode_at s n)) < 2 ^ 31"

lemma data_chunk_eq:
  assumes "inode_ok s n" and "p \<le> length (file_bytes s n)" and "k \<le> 2 ^ 31"
  shows "data_chunk s n p k = take k (drop p (file_bytes s n))"
proof -
  let ?xs = "take k (drop p (file_bytes s n))"
  have L: "unat (inode_length s (inode_at s n)) < 2 ^ 31" using assms(1) by (simp add: inode_ok_def)
  then have w: "unat (of_nat p :: u32) = p" "unat (of_nat k :: u32) = k"
    using assms(2,3) by (simp_all add: unat_of_nat)
  have "read_data s n (of_nat p) (\<lambda>_. 0) (of_nat k) =
      (int (length ?xs), \<lambda>i. if unat i < length ?xs then ?xs ! unat i else 0)"
    by (rule read_data_eq [of n s "of_nat p" "of_nat k" "\<lambda>_. 0", unfolded w])
      (use assms L w in \<open>simp_all add: inode_ok_def word_le_nat_alt\<close>)
  moreover have "unat (of_nat i :: u32) = i" if "i < length ?xs" for i
  proof -
    have "i < 2 ^ 32" using that L by auto
    then show ?thesis by (simp add: unat_of_nat)
  qed
  ultimately show ?thesis by (auto simp: data_chunk_def intro: nth_equalityI)
qed

interpretation rofs_file: seq_reader "\<lambda>(s, n). file_bytes s n" "\<lambda>(s, n). inode_ok s n"
    "\<lambda>(s, n). data_chunk s n" "2 ^ 31"
  by unfold_locales (auto simp: data_chunk_eq)

section \<open>Claims\<close>

text \<open>
  \<open>read_dentry_by_name\<close> finds the first entry of the directory that the name matches, and
  fails exactly when there is none; \<open>read_dentry_by_index\<close> gives the entry at a valid index and fails
  past the end.
\<close>

theorem dentry_lookup:
  "read_dentry_by_name s fname = find (names fname) (fs_dir s)
   \<and> read_dentry_by_index s index =
       (if unat index < length (fs_dir s) then Some (fs_dir s ! unat index) else None)"
  using read_dentry_by_name_find read_dentry_by_index_nth by blast

text \<open>
  For an existing inode and an offset within its file, \<open>read_data\<close> copies the requested part
  of the file, cut at its end, to the buffer, changes nothing else of the buffer and returns the number
  of bytes; a bad inode or an offset past the end is refused with -1.
\<close>

theorem read_data_correct:
  assumes "unat offset + unat len < 2 ^ 32" and "unat (inode_length s (inode_at s inode)) < 2 ^ 31"
    and "xs = take (unat len) (drop (unat offset) (file_bytes s inode))"
  shows "read_data s inode offset buf len =
    (if inode < num_inodes s \<and> offset \<le> inode_length s (inode_at s inode)
     then (int (length xs), \<lambda>k. if unat k < length xs then xs ! unat k else buf k)
     else (- 1, buf))"
  using read_data_eq [of inode s offset len buf] read_data_errors [of s inode offset buf len] assms
  by (auto simp: not_le not_less)

text \<open>A small image: one file named \<open>a\<close> holding three bytes.\<close>

definition tiny_image :: bytes where
  "tiny_image a =
     (if a \<in> {0x500000, 0x500004, 0x500008} then 1
      else if a = 0x500040 then 97 else if a = 0x500060 then 2
      else if a = 0x501000 then 3
      else if a = 0x502000 then 104 else if a = 0x502001 then 105 else if a = 0x502002 then 1
      else 0)"

definition tiny_fs :: rofs where
  "tiny_fs = init_rofs 0x500000 (paging.extend (blank_paging\<lparr>mem := tiny_image\<rparr>)
     \<lparr>boot_block = 0, inodes = 0, data_blocks = 0\<rparr>)"

lemma tiny_fs_facts:
  "num_inodes tiny_fs = 1" "inode_length tiny_fs (inode_at tiny_fs 0) = 3"
  "file_bytes tiny_fs 0 = [104, 105, 1]"
  by (simp_all add: tiny_fs_def init_rofs_def Let_def num_inodes_def inode_length_def inode_at_def
      file_bytes_def file_byte_def data_block_num_def paging.defs blank_paging_def load32_def
      tiny_image_def BLOCK_SIZE_def upt_conv_Cons)

theorem read_data_correct_witness: "fst (read_data tiny_fs 0 1 (\<lambda>_. 0) 100) = 2"
  using read_data_correct [of 1 100 tiny_fs 0 "[105, 1]" "\<lambda>_. 0"] by (simp add: tiny_fs_facts)

text \<open>
  The sum \<open>offset + length\<close> wraps: a length of \<open>2^32 - 1\<close> at offset 1 is not cut to the file.
\<close>

lemma read_data_wraps:
  "fst (read_data tiny_fs 0 1 (\<lambda>_. 0) (- 1)) = - 1
   \<and> snd (read_data tiny_fs 0 1 (\<lambda>_. 0) (- 1)) = read_loop tiny_fs (inode_at tiny_fs 0) 1 (- 1) 0 (\<lambda>_. 0)"
  by (simp add: read_data_def Let_def tiny_fs_facts)

end
