(* ===== verification/Process.thy ===== *)
theory Process
  imports Rofs
begin

text \<open>
  The state of the kernel above the drivers: the three terminals of \<^verbatim>\<open>terminal.h\<close>, the keyboard
  globals of \<^verbatim>\<open>keyboard.c\<close>, the process control blocks of \<^verbatim>\<open>syscalls.h\<close>, the task
  state segment fields and the stack registers the kernel's inline assembly reads; and the functions
  of \<^verbatim>\<open>syscalls.c\<close> that allocate and find process control blocks.

  Function pointers in \<open>fileops_t\<close> are named by the function they hold. A process control block
  lives at the bottom of its 8 KB kernel stack and is found by its address; its \<open>args\<close> array, which
  the code passes to \<open>memset\<close>, \<open>memcpy\<close> and \<open>strncpy\<close>, stays in memory at its offset in the
  structure.
\<close>

section \<open>Data\<close>

datatype open_fn = Terminal_open | Rtc_open | Dir_open | File_open | Fail_open
datatype close_fn = Rtc_close | Dir_close | File_close | Fail_close
datatype read_fn = Terminal_read | Rtc_read | Dir_read | File_read | Fail_read
datatype write_fn = Terminal_write | Rtc_write | Fail_write

record fileops_t =
  op_open :: open_fn
  op_close :: close_fn
  op_read :: read_fn
  op_write :: write_fn

definition stdin_ops :: fileops_t where
  "stdin_ops = \<lparr>op_open = Terminal_open, op_close = Fail_close, op_read = Terminal_read, op_write = Fail_write\<rparr>"
definition stdout_ops :: fileops_t where
  "stdout_ops = \<lparr>op_open = Terminal_open, op_close = Fail_close, op_read = Fail_read, op_write = Terminal_write\<rparr>"
definition rtc_ops :: fileops_t where
  "rtc_ops = \<lparr>op_open = Rtc_open, op_close = Rtc_close, op_read = Rtc_read, op_write = Rtc_write\<rparr>"
definition dir_ops :: fileops_t where
  "dir_ops = \<lparr>op_open = Dir_open, op_close = Dir_close, op_read = Dir_read, op_write = Fail_write\<rparr>"
definition file_ops :: fileops_t where
  "file_ops = \<lparr>op_open = File_open, op_close = File_close, op_read = File_read, op_write = Fail_write\<rparr>"
definition fail_ops :: fileops_t where
  "fail_ops = \<lparr>op_open = Fail_open, op_close = Fail_close, op_read = Fail_read, op_write = Fail_write\<rparr>"

lemmas ops_defs = stdin_ops_def stdout_ops_def rtc_ops_def dir_ops_def file_ops_def fail_ops_def

record file_t =
  inode :: u32
  flags :: u32
  pos :: u32
  fileops :: fileops_t

record pcb_t =
  files :: "nat \<Rightarrow> file_t"
  pid :: u8
  pcb_esp :: u32
  pcb_ebp :: u32
  parent_pid :: u32
  parent_esp :: u32
  parent_ebp :: u32

record terminal_t =
  num :: u8
  term_key_buffer :: bytes
  term_key_buffer_pos :: u32
  pos_x :: int
  pos_y :: int
  term_esp :: u32
  term_ebp :: u32
  term_pid :: u8
  vid_mem :: u32
  num_processes :: int
  init :: int

text \<open>
  \<open>key_buffer\<close> points at the buffer of one of the terminals, given by its index, or is null;
  \<open>esp\<close> and \<open>ebp\<close> are the stack registers in the running kernel code.
\<close>

record kernel = rofs +
  terminal :: "int \<Rightarrow> terminal_t"
  term_cur :: int
  key_buffer :: "int option"
  key_buffer_pos :: u32
  enter_pressed :: u8
  shift_pressed :: u8
  capslock_state :: u8
  ctrl_pressed :: u8
  alt_pressed :: u8
  keys_state :: u8
  right_bound :: int
  processes_flags :: u8
  pcbs :: "u32 \<Rightarrow> pcb_t"
  tss_esp0 :: u32
  tss_ss0 :: u16
  esp_temp :: u32
  ebp_temp :: u32
  esp :: u32
  ebp :: u32

definition MAX_TERMINALS :: int where [const_defs]: "MAX_TERMINALS = 3"
definition KEY_BUFFER_SIZE :: u32 where [const_defs]: "KEY_BUFFER_SIZE = 128"
definition MAX_ARGS_LENGTH :: u32 where [const_defs]: "MAX_ARGS_LENGTH = 128"
definition MAX_PROCESSES :: int where [const_defs]: "MAX_PROCESSES = 6"
definition FILE_OPEN :: u32 where [const_defs]: "FILE_OPEN = 1"
definition PCB_MASK :: u32 where [const_defs]: "PCB_MASK = 0x00FFE000"
definition KERNEL_DS :: u16 where [const_defs]: "KERNEL_DS = 0x18"

text \<open>\<open>pcb->args\<close>: after eight \<open>file_t\<close> of 28 bytes and the \<open>pid\<close> byte.\<close>

definition args_at :: "u32 \<Rightarrow> u32" where
  "args_at p = p + 225"

abbreviation upd_terminal :: "int \<Rightarrow> (terminal_t \<Rightarrow> terminal_t) \<Rightarrow> 'a kernel_scheme \<Rightarrow> 'a kernel_scheme" where
  "upd_terminal i f s \<equiv> s\<lparr>terminal := (terminal s)(i := f (terminal s i))\<rparr>"

abbreviation upd_pcb :: "u32 \<Rightarrow> (pcb_t \<Rightarrow> pcb_t) \<Rightarrow> 'a kernel_scheme \<Rightarrow> 'a kernel_scheme" where
  "upd_pcb p f s \<equiv> s\<lparr>pcbs := (pcbs s)(p := f (pcbs s p))\<rparr>"

abbreviation upd_file :: "u32 \<Rightarrow> nat \<Rightarrow> (file_t \<Rightarrow> file_t) \<Rightarrow> 'a kernel_scheme \<Rightarrow> 'a kernel_scheme" where
  "upd_file p i f s \<equiv> upd_pcb p (\<lambda>b. b\<lparr>files := (files b)(i := f (files b i))\<rparr>) s"

section \<open>Process control blocks\<close>

definition can_execute :: "'a kernel_scheme \<Rightarrow> bool" where
  "can_execute s =
     (let total = fold (\<lambda>i total. total + num_processes (terminal s (int i))) [0..<3] 0
      in total < MAX_PROCESSES)"

definition get_pcb :: "u32 \<Rightarrow> u32" where
  "get_pcb n = PHYSICAL_START - EIGHT_KB_BLOCK * (n + 1)"

definition get_current_pcb :: "'a kernel_scheme \<Rightarrow> u32" where
  "get_current_pcb s = esp s AND PCB_MASK"

text \<open>The search for a free process number: the first clear flag is set and returned, or \<open>-1\<close>.\<close>

fun new_pid_loop :: "nat \<Rightarrow> nat \<Rightarrow> 'a kernel_scheme \<Rightarrow> int \<times> 'a kernel_scheme" where
  "new_pid_loop 0 i s = (- 1, s)"
| "new_pid_loop (Suc n) i s =
     (if processes_flags s AND push_bit i 1 \<noteq> 0 then new_pid_loop n (i + 1) s
      else (int i, s\<lparr>processes_flags := processes_flags s OR push_bit i 1\<rparr>))"

definition get_new_pid :: "'a kernel_scheme \<Rightarrow> int \<times> 'a kernel_scheme" where
  "get_new_pid s = new_pid_loop (nat MAX_PROCESSES) 0 s"

definition new_files :: "(nat \<Rightarrow> file_t) \<Rightarrow> nat \<Rightarrow> file_t" where
  "new_files old =
     (let fs = old(0 := (old 0)\<lparr>fileops := stdin_ops, flags := FILE_OPEN, pos := 0\<rparr>);
          fs = fs(1 := (fs 1)\<lparr>fileops := stdout_ops, flags := FILE_OPEN, pos := 0\<rparr>)
      in fold (\<lambda>i fs. fs(i := (fs i)\<lparr>fileops := fail_ops, flags := 0, inode := 0, pos := 0\<rparr>))
           [2..<nat MAX_FILES] fs)"

definition create_pcb :: "'a kernel_scheme \<Rightarrow> u32 option \<times> 'a kernel_scheme" where
  "create_pcb s =
     (let (n, s) = get_new_pid s
      in if n < 0 then (None, s)
         else
           let p = get_pcb (word_of_int n);
               s = upd_pcb p (\<lambda>b. b\<lparr>pid := word_of_int n\<rparr>) s;
               t = terminal s (term_cur s - 1);
               s = upd_pcb p (\<lambda>b. b\<lparr>parent_pid := (if num_processes t = 0 then word_of_int n
                                                     else ucast (term_pid t))\<rparr>) s;
               s = upd_pcb p (\<lambda>b. b\<lparr>files := new_files (files b)\<rparr>) s;
               s = s\<lparr>mem := memset (mem s) (args_at p) 0 MAX_ARGS_LENGTH\<rparr>
           in (Some p, s))"

section \<open>Where a process control block is\<close>

lemma and_push_1: "w AND push_bit i 1 \<noteq> 0 \<longleftrightarrow> bit w i" for w :: u8
  by (simp add: and_exp_eq_0_iff_not_bit)

lemma new_pid_loop_eq:
  "new_pid_loop n i s =
     (case find (\<lambda>k. \<not> bit (processes_flags s) k) [i..<i + n] of
        None \<Rightarrow> (- 1, s)
      | Some k \<Rightarrow> (int k, s\<lparr>processes_flags := processes_flags s OR push_bit k 1\<rparr>))"
proof (induction n arbitrary: i)
  case (Suc n)
  have "[i..<i + Suc n] = i # [Suc i..<Suc i + n]" by (simp add: upt_conv_Cons del: upt_Suc)
  then show ?case using Suc [of "Suc i"] by (simp add: and_exp_eq_0_iff_not_bit del: upt_Suc)
qed simp

text \<open>The process numbers in use, and the least free one.\<close>

definition free_pid :: "u8 \<Rightarrow> nat option" where
  "free_pid f = find (\<lambda>k. \<not> bit f k) [0..<6]"

lemma get_new_pid_eq:
  "get_new_pid s =
     (case free_pid (processes_flags s) of
        None \<Rightarrow> (- 1, s)
      | Some k \<Rightarrow> (int k, s\<lparr>processes_flags := processes_flags s OR push_bit k 1\<rparr>))"
  by (simp add: get_new_pid_def new_pid_loop_eq free_pid_def MAX_PROCESSES_def del: upt_Suc new_pid_loop.simps)

lemma free_pid_Some:
  "free_pid f = Some k \<longleftrightarrow> k < 6 \<and> \<not> bit f k \<and> (\<forall>j<k. bit f j)"
  by (auto simp: free_pid_def find_Some_iff simp del: upt_Suc)

lemma free_pid_None: "free_pid f = None \<longleftrightarrow> (\<forall>k<6. bit f k)"
  by (auto simp: free_pid_def find_None_iff simp del: upt_Suc)

lemma get_pcb_eq: "get_pcb n = 0x800000 - 0x2000 * n - 0x2000"
  by (simp add: get_pcb_def const_defs algebra_simps)

lemma unat_get_pcb: "n < 1024 \<Longrightarrow> unat (get_pcb n) = 0x800000 - 0x2000 * (unat n + 1)"
proof -
  assume "n < 1024"
  then have n: "unat n < 1024" by (simp add: word_less_nat_alt)
  have m: "unat (0x2000 * (n + 1)) = 0x2000 * (unat n + 1)"
    using n by (simp add: unat_word_ariths)
  then have "0x2000 * (n + 1) \<le> 0x800000" using n by (simp add: word_le_nat_alt)
  then have "unat (0x800000 - 0x2000 * (n + 1)) = 0x800000 - 0x2000 * (unat n + 1)"
    using m by (simp only: unat_sub) simp
  then show ?thesis by (simp add: get_pcb_def const_defs)
qed

text \<open>
  A stack pointer anywhere in the kernel stack of process \<open>n\<close> finds that process's block: the stack
  starts at \<open>PHYSICAL_START - n * EIGHT_KB_BLOCK\<close> and shares its 8 KB with the block.
\<close>

lemma mask_8k_stack:
  fixes e b :: u32
  assumes b: "b AND 0x1FFF = 0" and b2: "b AND PCB_MASK = b" and e: "e - b < 0x2000"
  shows "e AND PCB_MASK = b"
proof -
  have m: "bit (0x1FFF :: u32) n \<longleftrightarrow> n < 13" for n
  proof -
    have "(0x1FFF :: u32) = mask 13" by (simp add: mask_eq_exp_minus_1)
    then show ?thesis by (simp only: bit_mask_iff) auto
  qed
  have d: "(e - b) AND 0x1FFF = e - b"
  proof -
    have "(0x1FFF :: u32) = mask 13" by (simp add: mask_eq_exp_minus_1)
    then have "(e - b) AND 0x1FFF = take_bit 13 (e - b)" by (simp only: take_bit_eq_mask)
    moreover have "unat (e - b) < 2 ^ 13" using e by (simp add: word_less_nat_alt)
    ultimately show ?thesis
      by (simp add: take_bit_eq_mod word_unat_eq_iff unat_mod_distrib)
  qed
  have "b AND (e - b) = 0"
  proof -
    have "b AND (e - b) = (b AND 0x1FFF) AND (e - b)" by (metis d and.assoc and.commute)
    then show ?thesis by (simp add: b)
  qed
  then have "b + (e - b) = b OR (e - b)" by (rule disjunctive_add_eq_or)
  then have "e = b OR (e - b)" by simp
  then have "e AND PCB_MASK = (b AND PCB_MASK) OR ((e - b) AND PCB_MASK)"
    using bit.conj_disj_distrib2 [of b "e - b" PCB_MASK] by metis
  moreover have "(e - b) AND PCB_MASK = ((e - b) AND 0x1FFF) AND PCB_MASK" by (simp only: d)
  moreover have "0x1FFF AND PCB_MASK = 0" by (simp add: PCB_MASK_def)
  ultimately show ?thesis by (simp add: b2 and.assoc)
qed

lemma small_pid_cases: "n < 6 \<Longrightarrow> n = 0 \<or> n = 1 \<or> n = 2 \<or> n = 3 \<or> n = 4 \<or> n = 5" for n :: u32
proof -
  assume "n < 6"
  then have "unat n < 6" by (simp add: word_less_nat_alt)
  then have "unat n = 0 \<or> unat n = 1 \<or> unat n = 2 \<or> unat n = 3 \<or> unat n = 4 \<or> unat n = 5" by linarith
  then show ?thesis by (simp add: word_unat_eq_iff)
qed

lemma get_pcb_masks: "n < 6 \<Longrightarrow> get_pcb n AND 0x1FFF = 0 \<and> get_pcb n AND PCB_MASK = get_pcb n"
  by (drule small_pid_cases) (auto simp: get_pcb_def const_defs)

lemma get_current_pcb_stack:
  "n < 6 \<Longrightarrow> esp s - get_pcb n < EIGHT_KB_BLOCK \<Longrightarrow> get_current_pcb s = get_pcb n"
  unfolding get_current_pcb_def EIGHT_KB_BLOCK_def
  by (rule mask_8k_stack) (simp_all add: get_pcb_masks)

lemma get_pcb_inj: "n < 6 \<Longrightarrow> k < 6 \<Longrightarrow> get_pcb n = get_pcb k \<longleftrightarrow> n = k"
  by (drule small_pid_cases, drule small_pid_cases) (auto simp: get_pcb_def const_defs)

lemma ucast_small_pid: "k < 256 \<Longrightarrow> (ucast (of_nat k :: u8) :: u32) = of_nat k"
  by (simp add: word_unat_eq_iff unsigned_ucast_eq unat_of_nat take_bit_nat_eq_self)

section \<open>A new process control block\<close>

lemma new_files_eq:
  "new_files old i =
     (if i = 0 then (old 0)\<lparr>fileops := stdin_ops, flags := FILE_OPEN, pos := 0\<rparr>
      else if i = 1 then (old 1)\<lparr>fileops := stdout_ops, flags := FILE_OPEN, pos := 0\<rparr>
      else if i < 8 then (old i)\<lparr>fileops := fail_ops, flags := 0, inode := 0, pos := 0\<rparr>
      else old i)"
proof -
  have "[2..<8] = [2, 3, 4, 5, 6, 7 :: nat]" by (simp add: upt_conv_Cons)
  then have "new_files old = (\<lambda>i. if i = 0 then (old 0)\<lparr>fileops := stdin_ops, flags := FILE_OPEN, pos := 0\<rparr>
      else if i = 1 then (old 1)\<lparr>fileops := stdout_ops, flags := FILE_OPEN, pos := 0\<rparr>
      else if i \<in> {2, 3, 4, 5, 6, 7} then (old i)\<lparr>fileops := fail_ops, flags := 0, inode := 0, pos := 0\<rparr>
      else old i)"
    by (auto simp: new_files_def MAX_FILES_def Let_def fun_eq_iff)
  moreover have "i < 8 \<longleftrightarrow> i = 0 \<or> i = 1 \<or> i \<in> {2, 3, 4, 5, 6, 7}" by auto
  ultimately show ?thesis by auto
qed

text \<open>The block \<open>create_pcb\<close> leaves for process \<open>k\<close>.\<close>

definition new_block :: "nat \<Rightarrow> 'a kernel_scheme \<Rightarrow> pcb_t" where
  "new_block k s =
     (let b = pcbs s (get_pcb (of_nat k)); t = terminal s (term_cur s - 1)
      in b\<lparr>pid := of_nat k,
           parent_pid := (if num_processes t = 0 then of_nat k else ucast (term_pid t)),
           files := new_files (files b)\<rparr>)"

lemma create_pcb_eq:
  "create_pcb s =
     (case free_pid (processes_flags s) of
        None \<Rightarrow> (None, s)
      | Some k \<Rightarrow>
          (Some (get_pcb (of_nat k)),
           s\<lparr>processes_flags := processes_flags s OR push_bit k 1,
             pcbs := (pcbs s)(get_pcb (of_nat k) := new_block k s),
             mem := fill (mem s) (args_at (get_pcb (of_nat k))) 0 128\<rparr>))"
  by (auto simp: create_pcb_def get_new_pid_eq new_block_def Let_def memset_eq MAX_ARGS_LENGTH_def
      split: option.splits)

section \<open>Claims\<close>

text \<open>
  Claim C33. Kernel code running anywhere on the 8 KB kernel stack of process \<open>n\<close> finds that process's
  control block, and different processes have different blocks.
\<close>

theorem current_pcb_of_stack:
  assumes "n < 6" and "k < 6" and "esp s - get_pcb n < EIGHT_KB_BLOCK"
  shows "get_current_pcb s = get_pcb n \<and> (get_pcb k = get_current_pcb s \<longleftrightarrow> k = n)"
  using assms get_current_pcb_stack [of n s] get_pcb_inj [of k n] by simp

definition blank_file :: file_t where
  "blank_file = \<lparr>inode = 0, flags = 0, pos = 0, fileops = fail_ops\<rparr>"

definition blank_pcb :: pcb_t where
  "blank_pcb = \<lparr>files = (\<lambda>_. blank_file), pid = 0, pcb_esp = 0, pcb_ebp = 0, parent_pid = 0,
     parent_esp = 0, parent_ebp = 0\<rparr>"

definition blank_terminal :: terminal_t where
  "blank_terminal = \<lparr>num = 0, term_key_buffer = (\<lambda>_. 0), term_key_buffer_pos = 0, pos_x = 0, pos_y = 0,
     term_esp = 0, term_ebp = 0, term_pid = 0, vid_mem = 0x6401000, num_processes = 0, init = 0\<rparr>"

text \<open>A kernel state to evaluate on: the small image, zeroed blocks, a stack pointer in process 0.\<close>

definition blank_kernel :: kernel where
  "blank_kernel = rofs.extend tiny_fs
     \<lparr>terminal = (\<lambda>_. blank_terminal), term_cur = 1, key_buffer = Some 0, key_buffer_pos = 0,
      enter_pressed = 0, shift_pressed = 0, capslock_state = 0, ctrl_pressed = 0, alt_pressed = 0,
      keys_state = 0, right_bound = 7, processes_flags = 0, pcbs = (\<lambda>_. blank_pcb), tss_esp0 = 0x800000,
      tss_ss0 = KERNEL_DS, esp_temp = 0, ebp_temp = 0, esp = 0x7FFF00, ebp = 0x7FFF40\<rparr>"

lemma blank_kernel_simps [simp]:
  "esp blank_kernel = 0x7FFF00" "processes_flags blank_kernel = 0" "pcbs blank_kernel = (\<lambda>_. blank_pcb)"
  "terminal blank_kernel = (\<lambda>_. blank_terminal)" "term_cur blank_kernel = 1" "key_buffer blank_kernel = Some 0"
  by (simp_all add: blank_kernel_def rofs.defs)

theorem current_pcb_of_stack_witness: "get_current_pcb blank_kernel = get_pcb 0"
  using current_pcb_of_stack [of 0 1 blank_kernel] by (simp add: get_pcb_def const_defs)

text \<open>
  \<open>create_pcb\<close> takes the least free process number: it marks it, and gives the process a
  table with the terminal on descriptors 0 and 1 and all others closed, cleared arguments and the
  running process of the terminal as parent (itself when there is none); with all six numbers taken it
  fails and changes nothing.
\<close>

theorem create_pcb_correct:
  "create_pcb s =
     (case free_pid (processes_flags s) of
        None \<Rightarrow> (None, s)
      | Some k \<Rightarrow>
          (Some (get_pcb (of_nat k)),
           s\<lparr>processes_flags := processes_flags s OR push_bit k 1,
             pcbs := (pcbs s)(get_pcb (of_nat k) := new_block k s),
             mem := fill (mem s) (args_at (get_pcb (of_nat k))) 0 128\<rparr>))
   \<and> (free_pid f = Some k \<longleftrightarrow> k < 6 \<and> \<not> bit f k \<and> (\<forall>j<k. bit f j))"
  using create_pcb_eq [of s] free_pid_Some [of f k] by blast

theorem create_pcb_correct_witness: "fst (create_pcb blank_kernel) = Some (get_pcb 0)"
proof -
  have "free_pid 0 = Some 0" by (simp add: free_pid_Some)
  then show ?thesis using create_pcb_correct [of blank_kernel 0 0] by simp
qed

end
