(* ===== verification/Terminal.thy ===== *)
theory Terminal
  imports Process
begin

text \<open>
  The terminal driver \<^verbatim>\<open>student-distrib/terminal.c\<close>: reading a line from the key buffer, writing
  to the screen, and saving and loading a terminal's screen, cursor, key buffer position and stack;
  with \<open>clear_buffer\<close> of \<^verbatim>\<open>keyboard.c\<close>, which reading calls. Starting and switching terminals
  calls \<open>execute\<close> and is in \<open>Exec\<close>. The pages at \<open>TERM_MEM\<close> and the video page are mapped to
  themselves, so the copies between them work on the same addresses.
\<close>

section \<open>The key buffer\<close>

definition TERM_MEM :: u32 where [const_defs]: "TERM_MEM = 0x6400000"
definition TERM_1_MEM :: u32 where [const_defs]: "TERM_1_MEM = 0x6401000"
definition TERM_2_MEM :: u32 where [const_defs]: "TERM_2_MEM = 0x6402000"
definition TERM_3_MEM :: u32 where [const_defs]: "TERM_3_MEM = 0x6403000"
definition MAGIC_SIZE :: u32 where [const_defs]: "MAGIC_SIZE = 4"

text \<open>\<open>key_buffer[i]\<close>, read and written: through a null pointer or past the array it is a fault.\<close>

definition key_buffer_get :: "u32 \<Rightarrow> 'a kernel_scheme \<Rightarrow> fault + u8" where
  "key_buffer_get i s =
     (case key_buffer s of
        None \<Rightarrow> Inl PageFault
      | Some t \<Rightarrow> if i < KEY_BUFFER_SIZE then Inr (term_key_buffer (terminal s t) i) else Inl OutOfBounds)"

definition key_buffer_set :: "u32 \<Rightarrow> u8 \<Rightarrow> 'a kernel_scheme \<Rightarrow> fault + 'a kernel_scheme" where
  "key_buffer_set i c s =
     (case key_buffer s of
        None \<Rightarrow> Inl PageFault
      | Some t \<Rightarrow>
          if i < KEY_BUFFER_SIZE
          then Inr (upd_terminal t (\<lambda>b. b\<lparr>term_key_buffer := (term_key_buffer b)(i := c)\<rparr>) s)
          else Inl OutOfBounds)"

fun clear_loop :: "nat \<Rightarrow> u32 \<Rightarrow> 'a kernel_scheme \<Rightarrow> fault + 'a kernel_scheme" where
  "clear_loop 0 i s = Inr s"
| "clear_loop (Suc n) i s =
     (case key_buffer_set i 0 s of Inl e \<Rightarrow> Inl e | Inr s \<Rightarrow> clear_loop n (i + 1) s)"

definition clear_buffer :: "'a kernel_scheme \<Rightarrow> fault + 'a kernel_scheme" where
  "clear_buffer s =
     (let s = s\<lparr>key_buffer_pos := 0\<rparr>;
          s = s\<lparr>right_bound := 7\<rparr>
      in clear_loop (unat KEY_BUFFER_SIZE) 0 s)"

section \<open>Driver operations\<close>

definition terminal_open :: int where
  "terminal_open = 0"

definition terminal_close :: "int \<Rightarrow> int" where
  "terminal_close fd = 0"

text \<open>
  The copying loop of \<open>terminal_read\<close>: it reads \<open>key_buffer[i]\<close> before it looks at \<open>nbytes\<close>.
\<close>

function read_keys :: "'a kernel_scheme \<Rightarrow> int \<Rightarrow> bytes \<Rightarrow> int \<Rightarrow> fault + int \<times> bytes" where
  "read_keys s nbytes buf i =
     (case key_buffer_get (word_of_int i) s of
        Inl e \<Rightarrow> Inl e
      | Inr c \<Rightarrow>
          if c \<noteq> 0 \<and> i < nbytes then read_keys s nbytes (buf(word_of_int i := c)) (i + 1)
          else Inr (i, buf))"
  by pat_completeness auto
termination
  by (relation "measure (\<lambda>(s, nbytes, buf, i). nat (nbytes - i))") auto

declare read_keys.simps [simp del, loop_unfold]

text \<open>
  While \<open>enter_pressed\<close> is 0 the caller waits (\<open>None\<close>); the keyboard handler raises it.
\<close>

definition terminal_read ::
  "bytes \<Rightarrow> int \<Rightarrow> 'a kernel_scheme \<Rightarrow> (fault + int \<times> bytes \<times> 'a kernel_scheme) option" where
  "terminal_read buf nbytes s =
     (if enter_pressed s = 0 then None
      else
        let s = s\<lparr>enter_pressed := 0\<rparr>
        in case read_keys s nbytes buf 0 of
             Inl e \<Rightarrow> Some (Inl e)
           | Inr (bytes_read, buf) \<Rightarrow>
               (case clear_buffer s of
                  Inl e \<Rightarrow> Some (Inl e)
                | Inr s \<Rightarrow> Some (Inr (bytes_read, buf, s))))"

function write_chars :: "bytes \<Rightarrow> int \<Rightarrow> int \<Rightarrow> 'a console_scheme \<Rightarrow> int \<times> 'a console_scheme" where
  "write_chars buf nbytes i s =
     (if i < nbytes \<and> buf (word_of_int i) \<noteq> 0
      then write_chars buf nbytes (i + 1) (putc (buf (word_of_int i)) s)
      else (i, s))"
  by pat_completeness auto
termination
  by (relation "measure (\<lambda>(buf, nbytes, i, s). nat (nbytes - i))") auto

declare write_chars.simps [simp del, loop_unfold]

definition terminal_write :: "bytes \<Rightarrow> int \<Rightarrow> 'a console_scheme \<Rightarrow> int \<times> 'a console_scheme" where
  "terminal_write buf nbytes s = write_chars buf nbytes 0 s"

definition screen_bytes :: u32 where
  "screen_bytes = word_of_int (2 * NUM_ROWS * NUM_COLS)"

definition terminal_save :: "int \<Rightarrow> 'a kernel_scheme \<Rightarrow> int \<times> 'a kernel_scheme" where
  "terminal_save term s =
     (let s = s\<lparr>esp_temp := esp s, ebp_temp := ebp s\<rparr>;
          s = upd_terminal (term - 1) (\<lambda>t. t\<lparr>term_esp := esp_temp s\<rparr>) s;
          s = upd_terminal (term - 1) (\<lambda>t. t\<lparr>term_ebp := ebp_temp s\<rparr>) s;
          s = upd_terminal (term - 1) (\<lambda>t. t\<lparr>term_key_buffer_pos := key_buffer_pos s\<rparr>) s;
          s = upd_terminal (term - 1) (\<lambda>t. t\<lparr>pos_x := get_screen_x s\<rparr>) s;
          s = upd_terminal (term - 1) (\<lambda>t. t\<lparr>pos_y := get_screen_y s\<rparr>) s;
          s = s\<lparr>mem := memcpy (mem s) (vid_mem (terminal s (term - 1))) VIDEO screen_bytes\<rparr>
      in (0, s))"

definition kernel_stack :: "u8 \<Rightarrow> u32" where
  "kernel_stack n = PHYSICAL_START - ucast n * EIGHT_KB_BLOCK - MAGIC_SIZE"

definition terminal_load :: "int \<Rightarrow> 'a kernel_scheme \<Rightarrow> int \<times> 'a kernel_scheme" where
  "terminal_load term s =
     (let s = s\<lparr>esp_temp := term_esp (terminal s (term - 1)), ebp_temp := term_ebp (terminal s (term - 1))\<rparr>;
          s = s\<lparr>tss_ss0 := KERNEL_DS\<rparr>;
          s = s\<lparr>tss_esp0 := kernel_stack (term_pid (terminal s (term - 1)))\<rparr>;
          s = remap VIRTUAL_START (PHYSICAL_START + ucast (term_pid (terminal s (term - 1))) * FOUR_MB_BLOCK) s;
          s = s\<lparr>key_buffer := Some (term - 1)\<rparr>;
          s = s\<lparr>key_buffer_pos := term_key_buffer_pos (terminal s (term - 1))\<rparr>;
          s = set_screen_pos (pos_x (terminal s (term - 1))) (pos_y (terminal s (term - 1))) s;
          s = update_cursor_loc (get_screen_x s) (get_screen_y s) s;
          s = s\<lparr>mem := memcpy (mem s) VIDEO (vid_mem (terminal s (term - 1))) screen_bytes\<rparr>;
          s = s\<lparr>esp := esp_temp s, ebp := ebp_temp s\<rparr>
      in (0, s))"

section \<open>Writing\<close>

lemma write_chars_eq:
  "0 \<le> i \<Longrightarrow> i \<le> nbytes \<Longrightarrow> write_chars buf nbytes i s =
     (let cs = takeWhile (\<lambda>c. c \<noteq> 0) (map (\<lambda>k. buf (word_of_int k)) [i..nbytes - 1])
      in (i + int (length cs), fold putc cs s))"
proof (induction buf nbytes i s rule: write_chars.induct)
  case (1 buf nbytes i s)
  consider "i = nbytes" | "i < nbytes" "buf (word_of_int i) = 0" | "i < nbytes" "buf (word_of_int i) \<noteq> 0"
    using "1.prems" by fastforce
  then show ?case
  proof cases
    case 3
    have "[i..nbytes - 1] = i # [i + 1..nbytes - 1]" using 3 by (simp add: upto_rec1)
    moreover have "write_chars buf nbytes i s = write_chars buf nbytes (i + 1) (putc (buf (word_of_int i)) s)"
      using 3 by (simp add: write_chars.simps [of buf nbytes i s])
    ultimately show ?thesis using "1.IH" 3 "1.prems" by (simp add: Let_def)
  next
    case 2
    then have "[i..nbytes - 1] = i # [i + 1..nbytes - 1]" by (simp add: upto_rec1)
    with 2 show ?thesis by (simp add: write_chars.simps [of buf nbytes i s])
  qed (simp add: write_chars.simps [of buf nbytes nbytes s])
qed

text \<open>The characters a write prints: those before the first NUL, at most \<open>nbytes\<close>.\<close>

definition written :: "bytes \<Rightarrow> int \<Rightarrow> u8 list" where
  "written buf nbytes = takeWhile (\<lambda>c. c \<noteq> 0) (map (\<lambda>k. buf (word_of_int k)) [0..nbytes - 1])"

lemma terminal_write_eq:
  "terminal_write buf nbytes s = (int (length (written buf nbytes)), fold putc (written buf nbytes) s)"
proof (cases "0 \<le> nbytes")
  case True
  then show ?thesis using write_chars_eq [of 0 nbytes buf s] by (simp add: terminal_write_def written_def Let_def)
next
  case False
  then show ?thesis by (simp add: terminal_write_def written_def write_chars.simps [of buf nbytes 0 s])
qed

lemma con_step_terminal_write: "con_step s (snd (terminal_write buf nbytes s))"
  by (simp add: terminal_write_eq con.ok_fold)

section \<open>Reading\<close>

text \<open>The line in a key buffer: its characters before the first NUL.\<close>

definition key_line :: "bytes \<Rightarrow> u8 list" where
  "key_line kb = takeWhile (\<lambda>c. c \<noteq> 0) (map (\<lambda>k. kb (of_nat k)) [0..<128])"

lemma key_line_nth: "k < length (key_line kb) \<Longrightarrow> kb (of_nat k) \<noteq> 0 \<and> key_line kb ! k = kb (of_nat k)"
proof -
  assume k: "k < length (key_line kb)"
  then have "key_line kb ! k = map (\<lambda>k. kb (of_nat k)) [0..<128] ! k"
    unfolding key_line_def by (rule takeWhile_nth)
  moreover have "k < 128"
    using k length_takeWhile_le [of "\<lambda>c. c \<noteq> 0" "map (\<lambda>k. kb (of_nat k)) [0..<128]"]
    by (simp add: key_line_def del: upt_Suc)
  moreover have "key_line kb ! k \<noteq> 0"
    using nth_mem [OF k] set_takeWhileD unfolding key_line_def by fastforce
  ultimately show ?thesis by (simp del: upt_Suc)
qed

lemma key_line_end: "length (key_line kb) < 128 \<Longrightarrow> kb (of_nat (length (key_line kb))) = 0"
  using nth_length_takeWhile [of "\<lambda>c. c \<noteq> 0" "map (\<lambda>k. kb (of_nat k)) [0..<128]"]
  by (simp add: key_line_def del: upt_Suc)

lemma read_keys_eq:
  assumes kb: "key_buffer s = Some t" "kb = term_key_buffer (terminal s t)"
    and n: "n = min (nat nbytes) (length (key_line kb))" "n < 128" and "i \<le> n"
  shows "read_keys s nbytes buf (int i) =
    Inr (int n, \<lambda>k. if i \<le> unat k \<and> unat k < n then key_line kb ! unat k else buf k)"
  using assms(5)
proof (induction "n - i" arbitrary: i buf)
  case 0
  then have i: "i = n" by simp
  have "kb (of_nat n) = 0" if "int n < nbytes"
  proof -
    have "n = length (key_line kb)" using n(1) that by linarith
    then show ?thesis using n(2) key_line_end [of kb] by simp
  qed
  then have "key_buffer_get (word_of_int (int i)) s = Inr (kb (of_nat n))"
    using i n(2) kb by (simp add: key_buffer_get_def KEY_BUFFER_SIZE_def word_less_nat_alt unat_of_nat)
  with \<open>int n < nbytes \<Longrightarrow> kb (of_nat n) = 0\<close> i show ?case
    by (auto simp: read_keys.simps [of s nbytes buf "int n"] fun_eq_iff)
next
  case (Suc d)
  then have i: "i < n" by simp
  then have c: "kb (of_nat i) \<noteq> 0" "key_line kb ! i = kb (of_nat i)" and "int i < nbytes"
    using key_line_nth [of i kb] n(1) by auto
  have u: "k = of_nat i \<longleftrightarrow> unat k = i" for k :: u32
    using i n(2) by (auto simp: unat_of_nat word_unat_eq_iff)
  have "key_buffer_get (word_of_int (int i)) s = Inr (kb (of_nat i))"
    using i n(2) kb by (simp add: key_buffer_get_def KEY_BUFFER_SIZE_def word_less_nat_alt unat_of_nat)
  then have "read_keys s nbytes buf (int i) = read_keys s nbytes (buf(of_nat i := kb (of_nat i))) (int (Suc i))"
    using c(1) \<open>int i < nbytes\<close> by (simp add: read_keys.simps [of s nbytes buf "int i"] add.commute)
  also have "\<dots> = Inr (int n, \<lambda>k. if Suc i \<le> unat k \<and> unat k < n then key_line kb ! unat k
      else (buf(of_nat i := kb (of_nat i))) k)"
    using Suc.hyps(2) i by (intro Suc.hyps(1)) simp_all
  also have "\<dots> = Inr (int n, \<lambda>k. if i \<le> unat k \<and> unat k < n then key_line kb ! unat k else buf k)"
    using i c(2) by (auto simp: fun_eq_iff u)
  finally show ?case .
qed

lemma clear_loop_eq:
  "key_buffer s = Some t \<Longrightarrow> i + n \<le> 128 \<Longrightarrow> clear_loop n (of_nat i) s =
     Inr (upd_terminal t (\<lambda>b. b\<lparr>term_key_buffer :=
        (\<lambda>k. if i \<le> unat k \<and> unat k < i + n then 0 else term_key_buffer b k)\<rparr>) s)"
proof (induction n arbitrary: i s)
  case 0
  have "(\<lambda>k. if i \<le> unat k \<and> unat k < i + 0 then 0 else f k) = f" for f :: bytes
    by (auto simp: fun_eq_iff)
  then show ?case by simp
next
  case (Suc n)
  have u: "k = of_nat i \<longleftrightarrow> unat k = i" for k :: u32
    using Suc.prems(2) by (auto simp: unat_of_nat word_unat_eq_iff)
  let ?s = "upd_terminal t (\<lambda>b. b\<lparr>term_key_buffer := (term_key_buffer b)(of_nat i := 0)\<rparr>) s"
  have "key_buffer_set (of_nat i) 0 s = Inr ?s"
    using Suc.prems by (simp add: key_buffer_set_def KEY_BUFFER_SIZE_def word_less_nat_alt unat_of_nat)
  then have "clear_loop (Suc n) (of_nat i) s = clear_loop n (of_nat (Suc i)) ?s"
    by (simp add: add.commute)
  also have "\<dots> = Inr (upd_terminal t (\<lambda>b. b\<lparr>term_key_buffer :=
        (\<lambda>k. if Suc i \<le> unat k \<and> unat k < Suc i + n then 0 else term_key_buffer b k)\<rparr>) ?s)"
    using Suc.prems by (intro Suc.IH) simp_all
  also have "\<dots> = Inr (upd_terminal t (\<lambda>b. b\<lparr>term_key_buffer :=
        (\<lambda>k. if i \<le> unat k \<and> unat k < i + Suc n then 0 else term_key_buffer b k)\<rparr>) s)"
    by (auto simp: fun_eq_iff u intro!: kernel.equality terminal_t.equality)
  finally show ?case .
qed

lemma clear_buffer_eq:
  "key_buffer s = Some t \<Longrightarrow> clear_buffer s =
     Inr (upd_terminal t (\<lambda>b. b\<lparr>term_key_buffer :=
        (\<lambda>k. if unat k < 128 then 0 else term_key_buffer b k)\<rparr>) (s\<lparr>key_buffer_pos := 0, right_bound := 7\<rparr>))"
  using clear_loop_eq [of "s\<lparr>key_buffer_pos := 0, right_bound := 7\<rparr>" t 0 128]
  by (simp add: clear_buffer_def KEY_BUFFER_SIZE_def)

lemma terminal_read_eq:
  assumes "enter_pressed s \<noteq> 0" and "key_buffer s = Some t"
    and "line = key_line (term_key_buffer (terminal s t))"
    and "n = min (nat nbytes) (length line)" and "n < 128"
  shows "terminal_read buf nbytes s =
    Some (Inr (int n, \<lambda>k. if unat k < n then line ! unat k else buf k,
      upd_terminal t (\<lambda>b. b\<lparr>term_key_buffer := (\<lambda>k. if unat k < 128 then 0 else term_key_buffer b k)\<rparr>)
        (s\<lparr>enter_pressed := 0, key_buffer_pos := 0, right_bound := 7\<rparr>)))"
proof -
  let ?s = "s\<lparr>enter_pressed := 0\<rparr>"
  have "read_keys ?s nbytes buf (int 0) =
      Inr (int n, \<lambda>k. if 0 \<le> unat k \<and> unat k < n then line ! unat k else buf k)"
    unfolding assms(3) by (rule read_keys_eq) (use assms in simp_all)
  moreover have "clear_buffer ?s =
      Inr (upd_terminal t (\<lambda>b. b\<lparr>term_key_buffer := (\<lambda>k. if unat k < 128 then 0 else term_key_buffer b k)\<rparr>)
        (?s\<lparr>key_buffer_pos := 0, right_bound := 7\<rparr>))"
    by (rule clear_buffer_eq) (use assms in simp)
  ultimately show ?thesis using assms(1) by (simp add: terminal_read_def Let_def)
qed

lemma read_keys_overrun:
  assumes "key_buffer s = Some t" and "length (key_line (term_key_buffer (terminal s t))) = 128"
    and "128 \<le> nbytes" and "i \<le> 128"
  shows "read_keys s nbytes buf (int i) = Inl OutOfBounds"
  using assms(4)
proof (induction "128 - i" arbitrary: i buf)
  case 0
  then have "i = 128" by simp
  then show ?case
    using assms(1) by (simp add: read_keys.simps [of s nbytes buf 128] key_buffer_get_def KEY_BUFFER_SIZE_def)
next
  case (Suc d)
  let ?kb = "term_key_buffer (terminal s t)"
  have i: "i < 128" using Suc.hyps(2) by simp
  then have "?kb (of_nat i) \<noteq> 0" using key_line_nth [of i ?kb] assms(2) by simp
  moreover have "key_buffer_get (word_of_int (int i)) s = Inr (?kb (of_nat i))"
    using i assms(1) by (simp add: key_buffer_get_def KEY_BUFFER_SIZE_def word_less_nat_alt unat_of_nat)
  ultimately have "read_keys s nbytes buf (int i) = read_keys s nbytes (buf(of_nat i := ?kb (of_nat i))) (int (Suc i))"
    using i assms(3) by (simp add: read_keys.simps [of s nbytes buf "int i"] add.commute)
  also have "\<dots> = Inl OutOfBounds" using Suc.hyps(2) i by (intro Suc.hyps(1)) simp_all
  finally show ?case .
qed

section \<open>Saving and loading a terminal\<close>

lemma screen_bytes_4000 [simp]: "screen_bytes = 4000"
  by (simp add: screen_bytes_def const_defs)

lemma term_mem_disjoint:
  "v \<in> {TERM_1_MEM, TERM_2_MEM, TERM_3_MEM} \<Longrightarrow> disjoint_blocks v VIDEO 4000 \<and> disjoint_blocks VIDEO v 4000"
  by (auto simp: disjoint_blocks_def const_defs)

lemma memcpy_screen:
  assumes "v \<in> {TERM_1_MEM, TERM_2_MEM, TERM_3_MEM}"
  shows "memcpy m v VIDEO 4000 = blit m v VIDEO 4000" "memcpy m VIDEO v 4000 = blit m VIDEO v 4000"
  using term_mem_disjoint [OF assms] by (auto simp: memcpy_blit disjoint_forward_ok)

text \<open>What \<open>terminal_save\<close> keeps of the running terminal in its structure.\<close>

definition saved_terminal :: "'a kernel_scheme \<Rightarrow> terminal_t \<Rightarrow> terminal_t" where
  "saved_terminal s t = t\<lparr>term_esp := esp s, term_ebp := ebp s, term_key_buffer_pos := key_buffer_pos s,
     pos_x := screen_x s, pos_y := screen_y s\<rparr>"

lemma terminal_save_eq:
  assumes "vid_mem (terminal s (term - 1)) \<in> {TERM_1_MEM, TERM_2_MEM, TERM_3_MEM}"
  shows "terminal_save term s =
    (0, s\<lparr>esp_temp := esp s, ebp_temp := ebp s,
          terminal := (terminal s)(term - 1 := saved_terminal s (terminal s (term - 1))),
          mem := blit (mem s) (vid_mem (terminal s (term - 1))) VIDEO 4000\<rparr>)"
  using memcpy_screen(1) [OF assms]
  by (simp add: terminal_save_def saved_terminal_def Let_def get_screen_x_def get_screen_y_def)

lemma terminal_load_fields:
  fixes s :: "'a kernel_scheme"
  assumes "vid_mem (terminal s (term - 1)) \<in> {TERM_1_MEM, TERM_2_MEM, TERM_3_MEM}"
  defines "u \<equiv> snd (terminal_load term s)" and "t \<equiv> terminal s (term - 1)"
  shows "screen_x u = pos_x t" "screen_y u = pos_y t" "key_buffer_pos u = term_key_buffer_pos t"
    "key_buffer u = Some (term - 1)" "esp u = term_esp t" "ebp u = term_ebp t"
    "mem u = blit (mem s) VIDEO (vid_mem t) 4000" "terminal u = terminal s" "term_cur u = term_cur s"
    "tss_esp0 u = kernel_stack (term_pid t)" "processes_flags u = processes_flags s" "pcbs u = pcbs s"
    "walked u = walked (remap VIRTUAL_START (frame_of (ucast (term_pid t))) s)"
    "fst (terminal_load term s) = 0"
  using memcpy_screen(2) [OF assms(1)] unfolding u_def t_def
  by (simp_all add: terminal_load_def Let_def set_screen_pos_def update_cursor_loc_eq remap_def
      refresh_tbl_def get_screen_x_def get_screen_y_def frame_of_def)

section \<open>Claims\<close>

text \<open>
  \<open>terminal_write\<close> prints the characters of the buffer up to the first NUL, at most \<open>nbytes\<close>,
  returns how many, and touches nothing but screen, cursor and ports.
\<close>

theorem terminal_write_prints:
  "terminal_write buf nbytes s = (int (length (written buf nbytes)), fold putc (written buf nbytes) s)
   \<and> con_step s (snd (terminal_write buf nbytes s))"
  using terminal_write_eq con_step_terminal_write by blast

text \<open>
  Once enter has been pressed, \<open>terminal_read\<close> copies the line in the key buffer, cut to
  \<open>nbytes\<close>, returns its length and leaves an empty key buffer and a cleared flag; before that it
  waits. The line must end inside the buffer or the request be shorter than the buffer.
\<close>

theorem terminal_read_line:
  assumes "key_buffer s = Some t" and "line = key_line (term_key_buffer (terminal s t))"
    and "n = min (nat nbytes) (length line)" and "n < 128"
  shows "terminal_read buf nbytes s =
    (if enter_pressed s = 0 then None
     else Some (Inr (int n, \<lambda>k. if unat k < n then line ! unat k else buf k,
       upd_terminal t (\<lambda>b. b\<lparr>term_key_buffer := (\<lambda>k. if unat k < 128 then 0 else term_key_buffer b k)\<rparr>)
         (s\<lparr>enter_pressed := 0, key_buffer_pos := 0, right_bound := 7\<rparr>))))"
proof (cases "enter_pressed s = 0")
  case True
  then show ?thesis by (simp add: terminal_read_def)
next
  case False
  then show ?thesis using terminal_read_eq [OF False assms] by simp
qed

theorem terminal_read_line_witness: "terminal_read (\<lambda>_. 0) 10 blank_kernel = None"
proof -
  have "enter_pressed blank_kernel = 0" by (simp add: blank_kernel_def rofs.defs)
  moreover have "key_line (term_key_buffer (terminal blank_kernel 0)) = []"
    by (simp add: key_line_def blank_terminal_def takeWhile_eq_Nil_iff hd_map)
  ultimately show ?thesis
    using terminal_read_line [of blank_kernel 0 "[]" 0 10 "\<lambda>_. 0"] by simp
qed

text \<open>A full key buffer read with a large request is read past its end.\<close>

lemma terminal_read_overrun:
  "key_buffer s = Some t \<Longrightarrow> length (key_line (term_key_buffer (terminal s t))) = 128 \<Longrightarrow>
   128 \<le> nbytes \<Longrightarrow> enter_pressed s \<noteq> 0 \<Longrightarrow> terminal_read buf nbytes s = Some (Inl OutOfBounds)"
  using read_keys_overrun [of "s\<lparr>enter_pressed := 0\<rparr>" t nbytes 0 buf]
  by (simp add: terminal_read_def)

text \<open>
  Claim C32. Saving a terminal and loading it again later restores the whole screen, characters and
  attributes, the cursor, the key buffer position and the stack, and maps the user window to the
  terminal's process, if nothing has changed the terminal's structure or its backing page in between.
\<close>

theorem terminal_save_load:
  assumes vid: "vid_mem (terminal s (term - 1)) \<in> {TERM_1_MEM, TERM_2_MEM, TERM_3_MEM}"
    and saved: "s1 = snd (terminal_save term s)"
    and same: "terminal s2 (term - 1) = terminal s1 (term - 1)"
      "\<forall>i<4000. mem s2 (vid_mem (terminal s1 (term - 1)) + i) = mem s1 (vid_mem (terminal s1 (term - 1)) + i)"
    and i: "i < 4000" and u: "u = snd (terminal_load term s2)"
  shows "mem u (VIDEO + i) = mem s (VIDEO + i) \<and> screen_x u = screen_x s \<and> screen_y u = screen_y s
    \<and> key_buffer_pos u = key_buffer_pos s \<and> key_buffer u = Some (term - 1) \<and> esp u = esp s \<and> ebp u = ebp s
    \<and> translate T u VIRTUAL_START = Some (frame_of (ucast (term_pid (terminal s (term - 1)))), True)"
proof -
  let ?v = "vid_mem (terminal s (term - 1))"
  note sv = terminal_save_eq [OF vid]
  have t: "terminal s2 (term - 1) = saved_terminal s (terminal s (term - 1))"
    using same(1) by (simp add: saved sv)
  then have v: "vid_mem (terminal s2 (term - 1)) = ?v" by (simp add: saved_terminal_def)
  have "vid_mem (terminal s2 (term - 1)) \<in> {TERM_1_MEM, TERM_2_MEM, TERM_3_MEM}" using vid v by simp
  note ld = terminal_load_fields [OF this, folded u]
  have "unat i < 4000" using i by (simp add: word_less_nat_alt)
  then have "mem u (VIDEO + i) = mem s2 (?v + i)" by (simp add: ld v blit_def)
  also have "\<dots> = mem s1 (?v + i)" using same(2) i v t same(1) by simp
  also have "\<dots> = mem s (VIDEO + i)" using \<open>unat i < 4000\<close> by (simp add: saved sv blit_def)
  finally have m: "mem u (VIDEO + i) = mem s (VIDEO + i)" .
  have "translate T u VIRTUAL_START =
      translate T (remap VIRTUAL_START (frame_of (ucast (term_pid (terminal s (term - 1))))) s2) VIRTUAL_START"
    by (simp add: translate_def ld t saved_terminal_def)
  also have "\<dots> = Some (frame_of (ucast (term_pid (terminal s (term - 1)))) + (VIRTUAL_START AND 0x3FFFFF), True)"
    by (rule remap_inside) (simp_all add: frame_aligned)
  finally have "translate T u VIRTUAL_START = Some (frame_of (ucast (term_pid (terminal s (term - 1)))), True)"
    by (simp add: VIRTUAL_START_def)
  with m show ?thesis by (simp add: ld t saved_terminal_def)
qed

theorem terminal_save_load_witness:
  "mem (snd (terminal_load 1 (snd (terminal_save 1 blank_kernel)))) 0xB8000 = mem blank_kernel 0xB8000"
  using terminal_save_load [of blank_kernel 1 "snd (terminal_save 1 blank_kernel)" "snd (terminal_save 1 blank_kernel)" 0
      "snd (terminal_load 1 (snd (terminal_save 1 blank_kernel)))" some_tables]
  by (simp add: blank_terminal_def TERM_1_MEM_def VIDEO_def)

end
