(* ===== verification/Files.thy ===== *)
theory Files
  imports Terminal
begin

text \<open>
  Open files: the file and directory drivers of \<^verbatim>\<open>rofs.c\<close> that work on a process's file table,
  the calls through the function pointers of \<open>fileops_t\<close>, and the system calls \<open>read\<close>, \<open>write\<close>,
  \<open>open\<close> and \<open>close\<close> of \<^verbatim>\<open>syscalls.c\<close> (prefixed with \<open>sys_\<close> here). A pointer argument is what it
  points at, \<open>None\<close> when it is null; a call that fills a buffer returns the buffer.
\<close>

section \<open>File and directory drivers\<close>

text \<open>The loop of \<open>file_read\<close> that blanks what is not printable, on unsigned bytes.\<close>

definition show_char :: "u8 \<Rightarrow> u8" where
  "show_char c = (if (c < 32 \<or> c > 126) \<and> c \<noteq> 10 \<and> c \<noteq> 9 then 32 else c)"

function show_loop :: "int \<Rightarrow> int \<Rightarrow> bytes \<Rightarrow> bytes" where
  "show_loop n i buf =
     (if i < n then show_loop n (i + 1) (buf(word_of_int i := show_char (buf (word_of_int i)))) else buf)"
  by pat_completeness auto
termination
  by (relation "measure (\<lambda>(n, i, buf). nat (n - i))") auto

declare show_loop.simps [simp del, loop_unfold]

definition cur_file :: "'a kernel_scheme \<Rightarrow> int \<Rightarrow> file_t" where
  "cur_file s fd = files (pcbs s (get_current_pcb s)) (nat fd)"

definition file_read ::
  "int \<Rightarrow> bytes \<Rightarrow> int \<Rightarrow> 'a kernel_scheme \<Rightarrow> int \<times> bytes \<times> 'a kernel_scheme" where
  "file_read fd buf nbytes s =
     (if fd < 0 \<or> fd > MAX_FILES then (- 1, buf, s)
      else
        let f = cur_file s fd;
            (bytes_read, buf) = read_data s (inode f) (pos f) buf (word_of_int nbytes)
        in if bytes_read < 0 then (- 1, buf, s)
           else
             let buf = show_loop bytes_read 0 buf
             in (bytes_read, buf,
                 upd_file (get_current_pcb s) (nat fd) (\<lambda>f. f\<lparr>pos := pos f + word_of_int bytes_read\<rparr>) s))"

text \<open>
  \<open>dir_read\<close> measures the name with \<open>strlen\<close>, which does not stop at the end of the name field:
  \<open>None\<close> would be a scan that meets no NUL at all.
\<close>

definition dir_read ::
  "int \<Rightarrow> bytes \<Rightarrow> int \<Rightarrow> 'a kernel_scheme \<Rightarrow> (int \<times> bytes \<times> 'a kernel_scheme) option" where
  "dir_read fd buf nbytes s =
     (let f = cur_file s fd
      in if pos f \<ge> num_dir_entries s then Some (0, buf, s)
         else
           let name = view (mem s) (dentry_at s (pos f));
               copy_length = (if nbytes > 32 then 32 else nbytes);
               buf = strncpy buf name (word_of_int copy_length);
               s = upd_file (get_current_pcb s) (nat fd) (\<lambda>f. f\<lparr>pos := pos f + 1\<rparr>) s
           in case strlen name of
                None \<Rightarrow> None
              | Some n \<Rightarrow> Some (if sint n > 32 then 32 else sint n, buf, s))"

section \<open>Calls through the file operations\<close>

definition fail :: int where
  "fail = - 1"

fun call_open :: "open_fn \<Rightarrow> device \<Rightarrow> bytes \<Rightarrow> 'a kernel_scheme \<Rightarrow> int \<times> 'a kernel_scheme" where
  "call_open Terminal_open dev filename s = (terminal_open, s)"
| "call_open Rtc_open dev filename s = rtc_open dev s"
| "call_open Dir_open dev filename s = (dir_open s filename, s)"
| "call_open File_open dev filename s = (file_open s filename, s)"
| "call_open Fail_open dev filename s = (fail, s)"

fun call_close :: "close_fn \<Rightarrow> device \<Rightarrow> int \<Rightarrow> 'a kernel_scheme \<Rightarrow> int \<times> 'a kernel_scheme" where
  "call_close Rtc_close dev fd s = rtc_close dev s"
| "call_close Dir_close dev fd s = (dir_close fd, s)"
| "call_close File_close dev fd s = (file_close fd, s)"
| "call_close Fail_close dev fd s = (fail, s)"

fun call_read :: "read_fn \<Rightarrow> int \<Rightarrow> bytes \<Rightarrow> int \<Rightarrow> 'a kernel_scheme \<Rightarrow>
    (fault + int \<times> bytes \<times> 'a kernel_scheme) option" where
  "call_read Terminal_read fd buf nbytes s = terminal_read buf nbytes s"
| "call_read Rtc_read fd buf nbytes s = map_option (\<lambda>(r, s). Inr (r, buf, s)) (rtc_read s)"
| "call_read Dir_read fd buf nbytes s = map_option Inr (dir_read fd buf nbytes s)"
| "call_read File_read fd buf nbytes s = Some (Inr (file_read fd buf nbytes s))"
| "call_read Fail_read fd buf nbytes s = Some (Inr (fail, buf, s))"

fun call_write :: "write_fn \<Rightarrow> device \<Rightarrow> bytes \<Rightarrow> int \<Rightarrow> 'a kernel_scheme \<Rightarrow> int \<times> 'a kernel_scheme" where
  "call_write Terminal_write dev buf nbytes s = terminal_write buf nbytes s"
| "call_write Rtc_write dev buf nbytes s = rtc_write dev (Some buf) nbytes s"
| "call_write Fail_write dev buf nbytes s = (fail, s)"

section \<open>System calls on files\<close>

definition is_open :: "file_t \<Rightarrow> bool" where
  "is_open f \<longleftrightarrow> flags f AND FILE_OPEN \<noteq> 0"

definition sys_read :: "int \<Rightarrow> bytes option \<Rightarrow> int \<Rightarrow> 'a kernel_scheme \<Rightarrow>
    (fault + int \<times> bytes option \<times> 'a kernel_scheme) option" where
  "sys_read fd buf nbytes s =
     (case buf of
        None \<Rightarrow> Some (Inr (- 1, None, s))
      | Some b \<Rightarrow>
          if fd < 0 \<or> fd \<ge> MAX_FILES then Some (Inr (- 1, buf, s))
          else if \<not> is_open (cur_file s fd) then Some (Inr (- 1, buf, s))
          else map_option (map_sum id (\<lambda>(r, b, s). (r, Some b, s)))
                 (call_read (op_read (fileops (cur_file s fd))) fd b nbytes s))"

definition sys_write :: "device \<Rightarrow> int \<Rightarrow> bytes option \<Rightarrow> int \<Rightarrow> 'a kernel_scheme \<Rightarrow>
    int \<times> 'a kernel_scheme" where
  "sys_write dev fd buf nbytes s =
     (case buf of
        None \<Rightarrow> (- 1, s)
      | Some b \<Rightarrow>
          if fd < 0 \<or> fd \<ge> MAX_FILES then (- 1, s)
          else if \<not> is_open (cur_file s fd) then (- 1, s)
          else call_write (op_write (fileops (cur_file s fd))) dev b nbytes s)"

text \<open>The first slot from 2 on whose file is not open.\<close>

fun find_slot :: "nat \<Rightarrow> nat \<Rightarrow> (nat \<Rightarrow> file_t) \<Rightarrow> nat option" where
  "find_slot 0 i fs = None"
| "find_slot (Suc n) i fs = (if \<not> is_open (fs i) then Some i else find_slot n (i + 1) fs)"

definition sys_open :: "device \<Rightarrow> bytes option \<Rightarrow> 'a kernel_scheme \<Rightarrow> int \<times> 'a kernel_scheme" where
  "sys_open dev filename s =
     (case filename of
        None \<Rightarrow> (- 1, s)
      | Some filename \<Rightarrow>
          (case read_dentry_by_name s filename of
             None \<Rightarrow> (- 1, s)
           | Some dentry \<Rightarrow>
               let p = get_current_pcb s
               in case find_slot 6 2 (files (pcbs s p)) of
                    None \<Rightarrow> (- 1, s)
                  | Some i \<Rightarrow>
                      let s = upd_file p i (\<lambda>f. f\<lparr>flags := flags f OR FILE_OPEN, pos := 0\<rparr>) s;
                          ops = (if file_type dentry = FILE_TYPE_RTC then Some rtc_ops
                                 else if file_type dentry = FILE_TYPE_DIR then Some dir_ops
                                 else if file_type dentry = FILE_TYPE_FILE then Some file_ops
                                 else None)
                      in case ops of
                           None \<Rightarrow> (- 1, upd_file p i (\<lambda>f. f\<lparr>flags := flags f AND NOT FILE_OPEN\<rparr>) s)
                         | Some ops \<Rightarrow>
                             let s = upd_file p i (\<lambda>f. f\<lparr>fileops := ops\<rparr>) s;
                                 (err, s) = call_open (op_open ops) dev filename s
                             in if err \<noteq> 0
                                then (- 1, upd_file p i (\<lambda>f. f\<lparr>flags := flags f AND NOT FILE_OPEN\<rparr>) s)
                                else (int i, upd_file p i (\<lambda>f. f\<lparr>inode := inode_num dentry\<rparr>) s)))"

definition sys_close :: "device \<Rightarrow> int \<Rightarrow> 'a kernel_scheme \<Rightarrow> int \<times> 'a kernel_scheme" where
  "sys_close dev fd s =
     (if fd < 0 \<or> fd \<ge> MAX_FILES then (- 1, s)
      else if \<not> is_open (cur_file s fd) then (- 1, s)
      else
        let (err, s) = call_close (op_close (fileops (cur_file s fd))) dev fd s
        in if err = 0
           then (err, upd_file (get_current_pcb s) (nat fd) (\<lambda>f. f\<lparr>flags := flags f AND NOT FILE_OPEN\<rparr>) s)
           else (err, s))"

section \<open>What the drivers deliver\<close>

lemma show_loop_eq:
  "0 \<le> i \<Longrightarrow> n \<le> 2 ^ 31 \<Longrightarrow> show_loop n i buf =
     (\<lambda>k. if i \<le> uint k \<and> uint k < n then show_char (buf k) else buf k)"
proof (induction n i buf rule: show_loop.induct)
  case (1 n i buf)
  show ?case
  proof (cases "i < n")
    case True
    have eq: "k = word_of_int i \<longleftrightarrow> uint k = i" for k :: u32
      using "1.prems" True by (intro word_of_int_eq_iff_range) auto
    have "show_loop n i buf = show_loop n (i + 1) (buf(word_of_int i := show_char (buf (word_of_int i))))"
      using True by (simp add: show_loop.simps [of n i buf])
    also have "\<dots> = (\<lambda>k. if i + 1 \<le> uint k \<and> uint k < n
        then show_char ((buf(word_of_int i := show_char (buf (word_of_int i)))) k)
        else (buf(word_of_int i := show_char (buf (word_of_int i)))) k)"
      using True "1.prems" by (intro "1.IH") simp_all
    finally show ?thesis using True by (auto simp: fun_eq_iff eq)
  next
    case False
    then show ?thesis by (auto simp: show_loop.simps [of n i buf] fun_eq_iff)
  qed
qed

lemma find_slot_eq: "find_slot n i fs = find (\<lambda>k. \<not> is_open (fs k)) [i..<i + n]"
proof (induction n arbitrary: i)
  case (Suc n)
  have "[i..<i + Suc n] = i # [Suc i..<Suc i + n]" by (simp add: upt_conv_Cons del: upt_Suc)
  then show ?case using Suc [of "Suc i"] by (simp del: upt_Suc)
qed simp

lemma find_slot_Some:
  "find_slot 6 2 fs = Some i \<longleftrightarrow> 2 \<le> i \<and> i < 8 \<and> \<not> is_open (fs i) \<and> (\<forall>j\<in>{2..<i}. is_open (fs j))"
proof
  have nth: "[2..<2 + 6] ! k = k + 2" if "k < 6" for k using that by (subst nth_upt) simp_all
  assume "find_slot 6 2 fs = Some i"
  then obtain k where "k < length [2..<2 + 6 :: nat]" "\<not> is_open (fs ([2..<2 + 6] ! k))" "i = [2..<2 + 6] ! k"
      "\<forall>j<k. \<not> \<not> is_open (fs ([2..<2 + 6] ! j))"
    unfolding find_slot_eq find_Some_iff by metis
  then have k: "k < 6" "\<not> is_open (fs (k + 2))" "i = k + 2" "\<forall>j<k. is_open (fs (j + 2))"
    using nth by (auto simp del: upt_Suc upt_rec_numeral)
  have "is_open (fs j)" if "j \<in> {2..<i}" for j
  proof -
    have "j - 2 < k" "j - 2 + 2 = j" using that k(3) by auto
    then show ?thesis using k(4) by metis
  qed
  with k show "2 \<le> i \<and> i < 8 \<and> \<not> is_open (fs i) \<and> (\<forall>j\<in>{2..<i}. is_open (fs j))" by simp
next
  have nth: "[2..<2 + 6] ! k = k + 2" if "k < 6" for k using that by (subst nth_upt) simp_all
  assume "2 \<le> i \<and> i < 8 \<and> \<not> is_open (fs i) \<and> (\<forall>j\<in>{2..<i}. is_open (fs j))"
  moreover from this obtain k where "i = k + 2" by (metis add.commute le_Suc_ex)
  ultimately show "find_slot 6 2 fs = Some i"
    unfolding find_slot_eq find_Some_iff
    by (intro exI [of _ k]) (auto simp: nth simp del: upt_Suc upt_rec_numeral)
qed

lemma find_slot_None: "find_slot 6 2 fs = None \<longleftrightarrow> (\<forall>i\<in>{2..<8}. is_open (fs i))"
proof -
  have "find_slot 6 2 fs = None \<longleftrightarrow> (\<forall>i\<in>{2..<2 + 6}. is_open (fs i))"
    unfolding find_slot_eq find_None_iff set_upt by blast
  then show ?thesis by simp
qed

text \<open>Reading an open file: the requested part of the file with what is not printable blanked.\<close>

lemma word_of_int_nat: "0 \<le> n \<Longrightarrow> word_of_int n = (of_nat (nat n) :: u32)"
  by (simp add: of_nat_nat)

lemma file_read_eq:
  assumes fd: "0 \<le> fd" "fd \<le> MAX_FILES" and f: "f = cur_file s fd" "inode_ok s (inode f)"
    and p: "unat (pos f) \<le> length (file_bytes s (inode f))" and n: "0 \<le> nbytes" "nbytes < 2 ^ 31"
    and xs: "xs = map show_char (take (nat nbytes) (drop (unat (pos f)) (file_bytes s (inode f))))"
  shows "file_read fd buf nbytes s =
    (int (length xs), \<lambda>k. if unat k < length xs then xs ! unat k else buf k,
     upd_file (get_current_pcb s) (nat fd) (\<lambda>f. f\<lparr>pos := pos f + of_nat (length xs)\<rparr>) s)"
proof -
  let ?ys = "take (nat nbytes) (drop (unat (pos f)) (file_bytes s (inode f)))"
  have len: "length xs = length ?ys" by (simp add: xs)
  have L: "unat (inode_length s (inode_at s (inode f))) < 2 ^ 31" using f(2) by (simp add: inode_ok_def)
  then have short: "length ?ys < 2 ^ 31" by auto
  have nb: "unat (word_of_int nbytes :: u32) = nat nbytes"
  proof -
    have "uint (word_of_int nbytes :: u32) = nbytes"
      using n by (intro uint_word_of_int_range) simp_all
    then show ?thesis by (simp only: unat_eq_nat_uint)
  qed
  have "read_data s (inode f) (pos f) buf (word_of_int nbytes) =
      (int (length ?ys), \<lambda>k. if unat k < length ?ys then ?ys ! unat k else buf k)"
    by (rule read_data_eq [of "inode f" s "pos f" "word_of_int nbytes" buf, unfolded nb])
      (use f(2) p n L nb in \<open>auto simp: inode_ok_def word_le_nat_alt nat_less_iff\<close>)
  moreover have "show_loop (int (length ?ys)) 0 (\<lambda>k. if unat k < length ?ys then ?ys ! unat k else buf k) =
      (\<lambda>k. if unat k < length xs then xs ! unat k else buf k)"
  proof -
    have "uint k < int (length ?ys) \<longleftrightarrow> unat k < length ?ys" for k :: u32
      by (simp only: uint_nat of_nat_less_iff)
    then show ?thesis
      using short len by (subst show_loop_eq) (auto simp: fun_eq_iff xs)
  qed
  ultimately show ?thesis
    using fd f(1) len by (simp add: file_read_def Let_def)
qed

section \<open>The driver contract\<close>

text \<open>
  What a driver operation on descriptor \<open>fd\<close> may change of the kernel above it: the position of that
  file of the current process, key buffers, the screen. Processes, terminals, stacks, page tables
  and every other part of the file tables stay as they are.
\<close>

definition same_terminal :: "terminal_t \<Rightarrow> terminal_t \<Rightarrow> bool" where
  "same_terminal t u \<longleftrightarrow> (\<exists>kb. u = t\<lparr>term_key_buffer := kb\<rparr>)"

definition same_file :: "file_t \<Rightarrow> file_t \<Rightarrow> bool" where
  "same_file f g \<longleftrightarrow> (\<exists>k. g = f\<lparr>pos := k\<rparr>)"

definition proc_view :: "'a kernel_scheme \<Rightarrow> u8 \<times> u32 \<times> u32 \<times> int \<times> int option \<times> u32 \<times> entries \<times> entries \<times> u32 \<times> u32 \<times> u32" where
  "proc_view s = (processes_flags s, esp s, ebp s, term_cur s, key_buffer s, tss_esp0 s, pg s, walked s,
     boot_block s, inodes s, data_blocks s)"

definition drv_step :: "int \<Rightarrow> 'a kernel_scheme \<Rightarrow> 'a kernel_scheme \<Rightarrow> bool" where
  "drv_step fd s t \<longleftrightarrow> proc_view t = proc_view s
     \<and> (\<forall>i. same_terminal (terminal s i) (terminal t i))
     \<and> (\<exists>k. pcbs t = pcbs (upd_file (get_current_pcb s) (nat fd) (\<lambda>f. f\<lparr>pos := k\<rparr>) s))
     \<and> (screen_inv s \<longrightarrow> screen_inv t \<and> (\<forall>a. a \<notin> text_cells \<longrightarrow> mem t a = mem s a))"

lemma same_terminal_refl [simp]: "same_terminal t t"
  unfolding same_terminal_def by (rule exI [of _ "term_key_buffer t"]) simp

lemma same_terminal_kb [simp]: "same_terminal t (t\<lparr>term_key_buffer := kb\<rparr>)"
  by (auto simp: same_terminal_def)

lemma file_pos_triv [simp]: "(fs :: nat \<Rightarrow> file_t)(i := (fs i)\<lparr>pos := pos (fs i)\<rparr>) = fs"
  by (simp add: fun_eq_iff)

lemma same_pcbs: "\<exists>k. pcbs s = pcbs (upd_file p i (\<lambda>f. f\<lparr>pos := k\<rparr>) s)"
  by (rule exI [of _ "pos (files (pcbs s p) i)"]) (simp add: fun_eq_iff)

lemma drv_step_refl [simp]: "drv_step fd s s"
  unfolding drv_step_def using same_pcbs [of s "get_current_pcb s" "nat fd"] by simp

text \<open>A driver: its four operations, each of which keeps to the contract.\<close>

locale driver =
  fixes d_open :: "device \<Rightarrow> bytes \<Rightarrow> 'a kernel_scheme \<Rightarrow> int \<times> 'a kernel_scheme"
    and d_close :: "device \<Rightarrow> int \<Rightarrow> 'a kernel_scheme \<Rightarrow> int \<times> 'a kernel_scheme"
    and d_read :: "int \<Rightarrow> bytes \<Rightarrow> int \<Rightarrow> 'a kernel_scheme \<Rightarrow> (fault + int \<times> bytes \<times> 'a kernel_scheme) option"
    and d_write :: "device \<Rightarrow> bytes \<Rightarrow> int \<Rightarrow> 'a kernel_scheme \<Rightarrow> int \<times> 'a kernel_scheme"
  assumes open_ok: "drv_step fd s (snd (d_open dev name s))"
    and close_ok: "drv_step fd s (snd (d_close dev fd s))"
    and read_ok: "d_read fd buf n s = Some (Inr (r, b, t)) \<Longrightarrow> drv_step fd s t"
    and write_ok: "drv_step fd s (snd (d_write dev buf n s))"
begin

text \<open>What every driver therefore keeps: which files are open, and with which operations.\<close>

lemma read_keeps_files:
  "d_read fd buf n s = Some (Inr (r, b, t)) \<Longrightarrow>
   flags (files (pcbs t p) i) = flags (files (pcbs s p) i) \<and>
   fileops (files (pcbs t p) i) = fileops (files (pcbs s p) i) \<and>
   inode (files (pcbs t p) i) = inode (files (pcbs s p) i)"
  by (drule read_ok) (auto simp: drv_step_def)

lemma write_keeps_files:
  "d_write dev buf n s = (r, t) \<Longrightarrow>
   flags (files (pcbs t p) i) = flags (files (pcbs s p) i) \<and>
   fileops (files (pcbs t p) i) = fileops (files (pcbs s p) i) \<and>
   inode (files (pcbs t p) i) = inode (files (pcbs s p) i)"
  using write_ok [of fd s dev buf n] by (auto simp: drv_step_def)

end

lemma drv_stepI:
  assumes "proc_view t = proc_view s" and "\<And>i. same_terminal (terminal s i) (terminal t i)"
    and "pcbs t = pcbs s" and "mem t = mem s" and "screen_x t = screen_x s" and "screen_y t = screen_y s"
  shows "drv_step fd s t"
  using assms same_pcbs [of s "get_current_pcb s" "nat fd"] by (simp add: drv_step_def screen_inv_def)

lemma drv_step_con: "con_step s t \<Longrightarrow> drv_step fd s t"
  using same_pcbs [of s "get_current_pcb s" "nat fd"]
  by (auto simp: con_step_def drv_step_def proc_view_def)

lemma drv_step_file_pos: "drv_step fd s (upd_file (get_current_pcb s) (nat fd) (\<lambda>f. f\<lparr>pos := g f\<rparr>) s)"
  by (auto simp: drv_step_def proc_view_def screen_inv_def)

lemma drv_step_rtc:
  "drv_step fd s (snd (rtc_open dev s))" "drv_step fd s (snd (rtc_close dev s))"
  "drv_step fd s (snd (rtc_write dev (Some buf) n s))" "rtc_read s = Some (r, t) \<Longrightarrow> drv_step fd s t"
proof -
  show "drv_step fd s (snd (rtc_open dev s))"
    using rtc_open_shape [of dev s] by (auto intro!: drv_stepI simp: proc_view_def)
  show "drv_step fd s (snd (rtc_close dev s))"
    by (rule drv_stepI) (simp_all add: rtc_close_eq disable_irq_eq proc_view_def)
  show "drv_step fd s (snd (rtc_write dev (Some buf) n s))"
    by (rule drv_stepI) (simp_all add: rtc_write_eq proc_view_def)
  show "rtc_read s = Some (r, t) \<Longrightarrow> drv_step fd s t"
    by (rule drv_stepI) (auto simp: rtc_read_def proc_view_def split: if_splits)
qed

lemma key_buffer_set_step: "key_buffer_set i c s = Inr t \<Longrightarrow> drv_step fd s t \<and> pcbs t = pcbs s \<and> mem t = mem s
    \<and> screen_x t = screen_x s \<and> screen_y t = screen_y s"
  by (auto simp: key_buffer_set_def proc_view_def intro!: drv_stepI
      split: option.splits if_splits)

lemma same_terminal_trans: "same_terminal t u \<Longrightarrow> same_terminal u v \<Longrightarrow> same_terminal t v"
  by (auto simp: same_terminal_def)

lemma drv_step_same:
  assumes "drv_step fd s t" and "drv_step fd t u" and "pcbs t = pcbs s" and "pcbs u = pcbs t"
  shows "drv_step fd s u"
  using assms same_pcbs [of s "get_current_pcb s" "nat fd"]
  by (auto simp: drv_step_def intro: same_terminal_trans)

lemma clear_loop_step: "clear_loop n i s = Inr t \<Longrightarrow> drv_step fd s t \<and> pcbs t = pcbs s"
proof (induction n arbitrary: i s)
  case (Suc n)
  then obtain u where u: "key_buffer_set i 0 s = Inr u" "clear_loop n (i + 1) u = Inr t"
    by (auto split: sum.splits)
  then show ?case
    using key_buffer_set_step [OF u(1), of fd] Suc.IH [OF u(2)] drv_step_same [of fd s u t] by simp
qed simp

lemma drv_step_terminal_read:
  assumes "terminal_read buf n s = Some (Inr (r, b, t))"
  shows "drv_step fd s t"
proof -
  let ?s = "s\<lparr>enter_pressed := 0, key_buffer_pos := 0, right_bound := 7\<rparr>"
  have "clear_loop (unat KEY_BUFFER_SIZE) 0 ?s = Inr t"
    using assms by (auto simp: terminal_read_def clear_buffer_def Let_def split: if_splits sum.splits)
  then have "drv_step fd ?s t" "pcbs t = pcbs ?s" using clear_loop_step by blast+
  moreover have "drv_step fd s ?s" by (rule drv_stepI) (simp_all add: proc_view_def)
  ultimately show ?thesis using drv_step_same [of fd s ?s t] by simp
qed

lemma drv_step_file_read: "file_read fd buf n s = (r, b, t) \<Longrightarrow> drv_step fd s t"
  using drv_step_file_pos [of fd s]
  by (auto simp: file_read_def Let_def split: if_splits prod.splits)

lemma drv_step_dir_read: "dir_read fd buf n s = Some (r, b, t) \<Longrightarrow> drv_step fd s t"
  using drv_step_file_pos [of fd s "\<lambda>f. pos f + 1"]
  by (auto simp: dir_read_def Let_def split: if_splits option.splits)

interpretation ops: driver "call_open (op_open ops)" "call_close (op_close ops)"
    "call_read (op_read ops)" "call_write (op_write ops)" for ops
proof unfold_locales
  fix fd and s :: "'a kernel_scheme" and dev name
  show "drv_step fd s (snd (call_open (op_open ops) dev name s))"
    by (cases "op_open ops") (simp_all add: drv_step_rtc)
next
  fix fd and s :: "'a kernel_scheme" and dev
  show "drv_step fd s (snd (call_close (op_close ops) dev fd s))"
    by (cases "op_close ops") (simp_all add: drv_step_rtc)
next
  fix fd and s t :: "'a kernel_scheme" and buf b n r
  assume "call_read (op_read ops) fd buf n s = Some (Inr (r, b, t))"
  then show "drv_step fd s t"
    by (cases "op_read ops")
      (auto intro: drv_step_terminal_read drv_step_rtc drv_step_file_read drv_step_dir_read)
next
  fix fd and s :: "'a kernel_scheme" and dev buf n
  show "drv_step fd s (snd (call_write (op_write ops) dev buf n s))"
    by (cases "op_write ops") (simp_all add: drv_step_rtc drv_step_con con_step_terminal_write)
qed

section \<open>The file table of a process\<close>

text \<open>
  Descriptors 0 and 1 are the terminal and stay open; any other open descriptor has the operations
  of the clock, of a directory or of a file.
\<close>

definition files_ok :: "(nat \<Rightarrow> file_t) \<Rightarrow> bool" where
  "files_ok fs \<longleftrightarrow> is_open (fs 0) \<and> fileops (fs 0) = stdin_ops \<and> is_open (fs 1) \<and> fileops (fs 1) = stdout_ops
     \<and> (\<forall>i\<in>{2..<8}. is_open (fs i) \<longrightarrow> fileops (fs i) \<in> {rtc_ops, dir_ops, file_ops})"

definition cur_files :: "'a kernel_scheme \<Rightarrow> nat \<Rightarrow> file_t" where
  "cur_files s = files (pcbs s (get_current_pcb s))"

lemma drv_step_cur_pcb: "drv_step fd s t \<Longrightarrow> get_current_pcb t = get_current_pcb s"
  by (simp add: drv_step_def proc_view_def get_current_pcb_def)

lemma drv_step_files: "drv_step fd s t \<Longrightarrow>
    flags (cur_files t i) = flags (cur_files s i) \<and> fileops (cur_files t i) = fileops (cur_files s i) \<and>
    inode (cur_files t i) = inode (cur_files s i)"
  by (frule drv_step_cur_pcb) (auto simp: drv_step_def cur_files_def)

lemma drv_step_files_ok: "drv_step fd s t \<Longrightarrow> files_ok (cur_files s) \<Longrightarrow> files_ok (cur_files t)"
  using drv_step_files [of fd s t] by (simp add: files_ok_def is_open_def)

text \<open>The operations \<open>open\<close> chooses for a file type.\<close>

definition type_ops :: "u32 \<Rightarrow> fileops_t option" where
  "type_ops ty = (if ty = FILE_TYPE_RTC then Some rtc_ops else if ty = FILE_TYPE_DIR then Some dir_ops
     else if ty = FILE_TYPE_FILE then Some file_ops else None)"

lemma dentry_pcbs [simp]: "read_dentry_by_name (s\<lparr>pcbs := b\<rparr>) name = read_dentry_by_name s name"
  by (simp add: read_dentry_by_name_find fs_dir_def num_dir_entries_def dentry_at_def)

lemma call_open_ok:
  assumes "read_dentry_by_name s name = Some d" and "type_ops (file_type d) = Some ops"
  shows "\<exists>es b oc m. call_open (op_open ops) dev name s =
    (0, s\<lparr>io := es, intr := b, int_occur := oc, slave_mask := m\<rparr>)"
proof -
  consider "ops = rtc_ops" | "ops = dir_ops" "file_type d = FILE_TYPE_DIR"
    | "ops = file_ops" "file_type d = FILE_TYPE_FILE"
    using assms(2) by (auto simp: type_ops_def split: if_splits)
  then show ?thesis
  proof cases
    case 1
    then show ?thesis using rtc_open_shape [of dev s] by (auto simp: rtc_ops_def)
  next
    case 2
    then show ?thesis using assms(1)
      by (auto simp: dir_ops_def dir_open_def intro!: exI [of _ "io s"] exI [of _ "intr s"]
          exI [of _ "int_occur s"] exI [of _ "slave_mask s"])
  next
    case 3
    then show ?thesis using assms(1)
      by (auto simp: file_ops_def file_open_def intro!: exI [of _ "io s"] exI [of _ "intr s"]
          exI [of _ "int_occur s"] exI [of _ "slave_mask s"])
  qed
qed

lemma sys_open_ok:
  assumes "read_dentry_by_name s name = Some d" and "find_slot 6 2 (cur_files s) = Some i"
    and "type_ops (file_type d) = Some ops"
  shows "\<exists>es b oc m. sys_open dev (Some name) s =
    (int i, (upd_file (get_current_pcb s) i
       (\<lambda>f. \<lparr>inode = inode_num d, flags = flags f OR FILE_OPEN, pos = 0, fileops = ops\<rparr>) s)
       \<lparr>io := es, intr := b, int_occur := oc, slave_mask := m\<rparr>)"
proof -
  let ?p = "get_current_pcb s"
  let ?s = "upd_file ?p i (\<lambda>f. f\<lparr>fileops := ops\<rparr>)
      (upd_file ?p i (\<lambda>f. f\<lparr>flags := flags f OR FILE_OPEN, pos := 0\<rparr>) s)"
  have "read_dentry_by_name ?s name = Some d" using assms(1) by simp
  then obtain es b oc m where c: "call_open (op_open ops) dev name ?s =
      (0, ?s\<lparr>io := es, intr := b, int_occur := oc, slave_mask := m\<rparr>)"
    using call_open_ok assms(3) by blast
  have "sys_open dev (Some name) s =
      (int i, upd_file ?p i (\<lambda>f. f\<lparr>inode := inode_num d\<rparr>)
        (?s\<lparr>io := es, intr := b, int_occur := oc, slave_mask := m\<rparr>))"
    using assms c unfolding sys_open_def type_ops_def cur_files_def by (simp add: Let_def)
  then show ?thesis
    by (intro exI [of _ es] exI [of _ b] exI [of _ oc] exI [of _ m])
      (cases "files (pcbs s ?p) i", simp)
qed

lemma sys_open_bad_type:
  assumes "read_dentry_by_name s name = Some d" and "find_slot 6 2 (cur_files s) = Some i"
    and "type_ops (file_type d) = None"
  shows "sys_open dev (Some name) s = (- 1, upd_file (get_current_pcb s) i
     (\<lambda>f. f\<lparr>pos := 0, flags := (flags f OR FILE_OPEN) AND NOT FILE_OPEN\<rparr>) s)"
proof -
  have "file_type d \<noteq> FILE_TYPE_RTC" "file_type d \<noteq> FILE_TYPE_DIR" "file_type d \<noteq> FILE_TYPE_FILE"
    using assms(3) by (auto simp: type_ops_def split: if_splits)
  then show ?thesis
    using assms(1,2) unfolding sys_open_def cur_files_def by (simp add: Let_def)
qed

lemma sys_open_refused:
  "sys_open dev None s = (- 1, s)"
  "read_dentry_by_name s name = None \<Longrightarrow> sys_open dev (Some name) s = (- 1, s)"
  "find_slot 6 2 (cur_files s) = None \<Longrightarrow> sys_open dev (Some name) s = (- 1, s)"
  by (simp_all add: sys_open_def cur_files_def Let_def split: option.splits)

text \<open>Which descriptor a call of \<open>open\<close> returns, on every path.\<close>

lemma sys_open_result:
  "fst (sys_open dev (Some name) s) =
     (case read_dentry_by_name s name of
        None \<Rightarrow> - 1
      | Some d \<Rightarrow> (case find_slot 6 2 (cur_files s) of
            None \<Rightarrow> - 1
          | Some i \<Rightarrow> if type_ops (file_type d) = None then - 1 else int i))"
proof -
  consider "read_dentry_by_name s name = None" | "find_slot 6 2 (cur_files s) = None"
    | d i where "read_dentry_by_name s name = Some d" "find_slot 6 2 (cur_files s) = Some i"
      "type_ops (file_type d) = None"
    | d i ops where "read_dentry_by_name s name = Some d" "find_slot 6 2 (cur_files s) = Some i"
      "type_ops (file_type d) = Some ops"
    by (metis option.exhaust)
  then show ?thesis
  proof cases
    case 4
    then show ?thesis using sys_open_ok [of s name d i ops dev] by auto
  qed (auto simp: sys_open_refused sys_open_bad_type split: option.splits)
qed

lemma open_flag: "(x OR FILE_OPEN) AND FILE_OPEN \<noteq> 0" "(x AND NOT FILE_OPEN) AND FILE_OPEN = 0" for x :: u32
proof -
  have "bit ((x OR FILE_OPEN) AND FILE_OPEN) 0" by (simp add: FILE_OPEN_def bit_simps)
  then show "(x OR FILE_OPEN) AND FILE_OPEN \<noteq> 0" by force
  show "(x AND NOT FILE_OPEN) AND FILE_OPEN = 0" by (simp add: and.assoc)
qed

lemma FILE_OPEN_nonzero: "FILE_OPEN \<noteq> 0"
  by (simp add: FILE_OPEN_def)

lemma type_ops_in: "type_ops ty = Some ops \<Longrightarrow> ops \<in> {rtc_ops, dir_ops, file_ops}"
  by (auto simp: type_ops_def split: if_splits)

lemma files_ok_upd:
  "files_ok fs \<Longrightarrow> 2 \<le> i \<Longrightarrow> (is_open g \<Longrightarrow> fileops g \<in> {rtc_ops, dir_ops, file_ops}) \<Longrightarrow> files_ok (fs(i := g))"
  by (auto simp: files_ok_def)

lemma cur_files_upd [simp]:
  "cur_files (s\<lparr>pcbs := (pcbs s)(get_current_pcb s := b)\<rparr>) = files b"
  by (simp add: cur_files_def get_current_pcb_def)

lemma cur_files_fields [simp]:
  "cur_files (s\<lparr>io := es, intr := b, int_occur := oc, slave_mask := m\<rparr>) = cur_files s"
  by (simp add: cur_files_def get_current_pcb_def)

lemma files_ok_open: "files_ok (cur_files s) \<Longrightarrow> files_ok (cur_files (snd (sys_open dev name s)))"
proof (cases name)
  case None
  then show "files_ok (cur_files s) \<Longrightarrow> ?thesis" by (simp add: sys_open_refused)
next
  case (Some n)
  assume ok: "files_ok (cur_files s)"
  consider "read_dentry_by_name s n = None \<or> find_slot 6 2 (cur_files s) = None"
    | d i where "read_dentry_by_name s n = Some d" "find_slot 6 2 (cur_files s) = Some i"
      "type_ops (file_type d) = None"
    | d i ops where "read_dentry_by_name s n = Some d" "find_slot 6 2 (cur_files s) = Some i"
      "type_ops (file_type d) = Some ops"
    by (metis option.exhaust)
  then show ?thesis
  proof cases
    case 1
    then show ?thesis using ok Some by (auto simp: sys_open_refused)
  next
    case 2
    then have "2 \<le> i" by (simp add: find_slot_Some)
    with 2 ok Some show ?thesis
      by (auto simp: sys_open_bad_type is_open_def open_flag cur_files_def [symmetric] intro!: files_ok_upd)
  next
    case 3
    then have "2 \<le> i" by (simp add: find_slot_Some)
    with 3 ok Some sys_open_ok [OF 3, of dev] type_ops_in [OF 3(3)] show ?thesis
      by (auto simp: cur_files_def [symmetric] intro!: files_ok_upd)
  qed
qed

section \<open>Closing, and what the calls keep\<close>

lemma cur_file_files: "cur_file s fd = cur_files s (nat fd)"
  by (simp add: cur_file_def cur_files_def)

lemma sys_close_terminal:
  assumes "files_ok (cur_files s)" and "fd = 0 \<or> fd = 1"
  shows "sys_close dev fd s = (- 1, s)"
  using assms by (auto simp: sys_close_def cur_file_files files_ok_def stdin_ops_def stdout_ops_def
      fail_def MAX_FILES_def)

lemma sys_close_refused:
  "fd < 0 \<or> 8 \<le> fd \<or> \<not> is_open (cur_files s (nat fd)) \<Longrightarrow> sys_close dev fd s = (- 1, s)"
  by (auto simp: sys_close_def cur_file_files MAX_FILES_def)

lemma call_close_ok:
  assumes "ops \<in> {rtc_ops, dir_ops, file_ops}" and "0 \<le> fd" "fd < 8"
  shows "fst (call_close (op_close ops) dev fd s) = 0"
  using assms by (auto simp: ops_defs dir_close_def file_close_def rtc_close_eq MAX_FILES_def)

lemma sys_close_ok:
  assumes ok: "files_ok (cur_files s)" and fd: "2 \<le> fd" "fd < 8" and o: "is_open (cur_files s (nat fd))"
  shows "fst (sys_close dev fd s) = 0"
    and "\<not> is_open (cur_files (snd (sys_close dev fd s)) (nat fd))"
    and "i \<noteq> nat fd \<Longrightarrow> flags (cur_files (snd (sys_close dev fd s)) i) = flags (cur_files s i)"
    and "files_ok (cur_files (snd (sys_close dev fd s)))"
proof -
  let ?ops = "fileops (cur_files s (nat fd))"
  have ops: "?ops \<in> {rtc_ops, dir_ops, file_ops}"
  proof -
    have "nat fd \<in> {2..<8}" using fd by auto
    then show ?thesis using ok o unfolding files_ok_def by blast
  qed
  obtain t where t: "call_close (op_close ?ops) dev fd s = (0, t)"
    using call_close_ok [OF ops, of fd dev s] fd by (metis prod.collapse order_trans zero_le_numeral)
  have step: "drv_step fd s t" using ops.close_ok [of fd s ?ops dev] t by simp
  let ?u = "upd_file (get_current_pcb t) (nat fd) (\<lambda>f. f\<lparr>flags := flags f AND NOT FILE_OPEN\<rparr>) t"
  have res: "sys_close dev fd s = (0, ?u)"
    using fd o t by (simp add: sys_close_def cur_file_files MAX_FILES_def)
  have files: "cur_files ?u = (cur_files t)(nat fd := (cur_files t (nat fd))
      \<lparr>flags := flags (cur_files t (nat fd)) AND NOT FILE_OPEN\<rparr>)"
    by (simp add: cur_files_def [symmetric])
  show "fst (sys_close dev fd s) = 0" by (simp add: res)
  show "\<not> is_open (cur_files (snd (sys_close dev fd s)) (nat fd))"
    unfolding res snd_conv files by (simp add: is_open_def open_flag)
  show "i \<noteq> nat fd \<Longrightarrow> flags (cur_files (snd (sys_close dev fd s)) i) = flags (cur_files s i)"
    unfolding res snd_conv files using drv_step_files [OF step, of i] by simp
  show "files_ok (cur_files (snd (sys_close dev fd s)))"
    unfolding res snd_conv files
    by (rule files_ok_upd) (use drv_step_files_ok [OF step ok] fd in \<open>auto simp: is_open_def open_flag\<close>)
qed

lemma files_ok_close: "files_ok (cur_files s) \<Longrightarrow> files_ok (cur_files (snd (sys_close dev fd s)))"
proof -
  assume ok: "files_ok (cur_files s)"
  consider "fd < 0 \<or> 8 \<le> fd \<or> \<not> is_open (cur_files s (nat fd))" | "fd = 0 \<or> fd = 1"
    | "2 \<le> fd" "fd < 8" "is_open (cur_files s (nat fd))"
    by linarith
  then show ?thesis
    by cases (use ok in \<open>simp_all add: sys_close_refused sys_close_terminal sys_close_ok(4)\<close>)
qed

lemma sys_read_step: "sys_read fd buf n s = Some (Inr (r, b, t)) \<Longrightarrow> drv_step fd s t"
proof -
  assume r: "sys_read fd buf n s = Some (Inr (r, b, t))"
  show ?thesis
  proof (cases buf)
    case None
    with r show ?thesis by (simp add: sys_read_def)
  next
    case (Some c)
    then have "t = s \<or> (\<exists>b'. call_read (op_read (fileops (cur_file s fd))) fd c n s = Some (Inr (r, b', t)))"
      using r
      by (cases "call_read (op_read (fileops (cur_file s fd))) fd c n s"; cases "the (call_read (op_read (fileops (cur_file s fd))) fd c n s)")
        (auto simp: sys_read_def split: if_splits)
    then show ?thesis using ops.read_ok by (metis drv_step_refl)
  qed
qed

lemma sys_write_step: "drv_step fd s (snd (sys_write dev fd buf n s))"
  using ops.write_ok by (auto simp: sys_write_def split: option.splits)

section \<open>Reading a file from end to end\<close>

lemma image_pcbs [simp]:
  "file_bytes (s\<lparr>pcbs := b\<rparr>) n = file_bytes s n" "inode_ok (s\<lparr>pcbs := b\<rparr>) n = inode_ok s n"
  by (simp_all add: file_bytes_def file_byte_def inode_at_def inode_length_def data_block_num_def
      inode_ok_def num_inodes_def)

lemma shown_chunk:
  "inode_ok s n \<Longrightarrow> p \<le> length (map show_char (file_bytes s n)) \<Longrightarrow> k \<le> 2 ^ 31 - 1 \<Longrightarrow>
   map show_char (data_chunk s n p k) = take k (drop p (map show_char (file_bytes s n)))"
  by (simp add: data_chunk_eq take_map drop_map)

interpretation shown_file: seq_reader "\<lambda>(s, n). map show_char (file_bytes s n)" "\<lambda>(s, n). inode_ok s n"
    "\<lambda>(s, n) p k. map show_char (data_chunk s n p k)" "2 ^ 31 - 1"
  by unfold_locales (auto intro: shown_chunk)

text \<open>Successive \<open>read\<close> calls on one descriptor, and the bytes they deliver.\<close>

fun read_seq :: "int \<Rightarrow> nat list \<Rightarrow> 'a kernel_scheme \<Rightarrow> u8 list option" where
  "read_seq fd [] s = Some []"
| "read_seq fd (n # ns) s =
     (case sys_read fd (Some (\<lambda>_. 0)) (int n) s of
        Some (Inr (r, Some b, t)) \<Rightarrow>
          map_option (\<lambda>xs. map (\<lambda>k. b (of_nat k)) [0..<nat r] @ xs) (read_seq fd ns t)
      | _ \<Rightarrow> None)"

lemma sys_read_file:
  assumes "0 \<le> fd" "fd < 8" and f: "f = cur_file s fd" "is_open f" "fileops f = file_ops" "inode_ok s (inode f)"
    and p: "unat (pos f) \<le> length (file_bytes s (inode f))" and n: "n < 2 ^ 31"
    and xs: "xs = map show_char (data_chunk s (inode f) (unat (pos f)) n)"
  shows "sys_read fd (Some buf) (int n) s =
    Some (Inr (int (length xs), Some (\<lambda>k. if unat k < length xs then xs ! unat k else buf k),
      upd_file (get_current_pcb s) (nat fd) (\<lambda>f. f\<lparr>pos := pos f + of_nat (length xs)\<rparr>) s))"
proof -
  have "xs = map show_char (take (nat (int n)) (drop (unat (pos f)) (file_bytes s (inode f))))"
    using xs p n by (simp add: data_chunk_eq [OF f(4)])
  then have "file_read fd buf (int n) s =
      (int (length xs), \<lambda>k. if unat k < length xs then xs ! unat k else buf k,
       upd_file (get_current_pcb s) (nat fd) (\<lambda>f. f\<lparr>pos := pos f + of_nat (length xs)\<rparr>) s)"
    using assms by (intro file_read_eq) (simp_all add: MAX_FILES_def)
  then show ?thesis
    using assms by (simp add: sys_read_def MAX_FILES_def file_ops_def)
qed

lemma read_loop_pcbs [simp]:
  "read_loop (s\<lparr>pcbs := b\<rparr>) node offset len 0 buf = read_loop s node offset len 0 buf"
  by (auto simp: read_loop_eq file_byte_def data_block_num_def fun_eq_iff)

lemma read_data_pcbs [simp]: "read_data (s\<lparr>pcbs := b\<rparr>) n offset buf len = read_data s n offset buf len"
  by (simp add: read_data_def Let_def inode_at_def inode_length_def num_inodes_def)

lemma data_chunk_pcbs [simp]: "data_chunk (s\<lparr>pcbs := b\<rparr>) = data_chunk s"
  by (simp add: fun_eq_iff data_chunk_def)

lemma read_all_pcbs [simp]: "shown_file.read_all (s\<lparr>pcbs := b\<rparr>, n) p ns = shown_file.read_all (s, n) p ns"
  by (induction ns arbitrary: p) simp_all

lemma read_seq_all:
  assumes "0 \<le> fd" "fd < 8" and "is_open (cur_file s fd)" "fileops (cur_file s fd) = file_ops"
    and "inode (cur_file s fd) = n" "inode_ok s n" and "unat (pos (cur_file s fd)) = p"
    and "p \<le> length (file_bytes s n)" and "\<forall>k\<in>set ns. k < 2 ^ 31"
  shows "read_seq fd ns s = Some (shown_file.read_all (s, n) p ns)"
  using assms
proof (induction ns arbitrary: s p)
  case (Cons k ns)
  let ?xs = "map show_char (data_chunk s n p k)"
  let ?t = "upd_file (get_current_pcb s) (nat fd) (\<lambda>f. f\<lparr>pos := pos f + of_nat (length ?xs)\<rparr>) s"
  have r: "sys_read fd (Some (\<lambda>_. 0)) (int k) s =
      Some (Inr (int (length ?xs), Some (\<lambda>i. if unat i < length ?xs then ?xs ! unat i else 0), ?t))"
    using Cons.prems by (intro sys_read_file [where f = "cur_file s fd"]) simp_all
  have len: "length ?xs \<le> length (file_bytes s n) - p" and L: "length (file_bytes s n) < 2 ^ 31"
    using Cons.prems by (auto simp: data_chunk_eq inode_ok_def)
  have f: "cur_file ?t fd = (cur_file s fd)\<lparr>pos := pos (cur_file s fd) + of_nat (length ?xs)\<rparr>"
    by (simp add: cur_file_def get_current_pcb_def)
  have "unat (pos (cur_file s fd) + of_nat (length ?xs)) = p + length ?xs"
    using len L Cons.prems(7,8) by (simp add: unat_word_ariths(1) unat_of_nat)
  then have "read_seq fd ns ?t = Some (shown_file.read_all (?t, n) (p + length ?xs) ns)"
    using Cons.prems len f by (intro Cons.IH) (simp_all add: is_open_def)
  moreover have "map (\<lambda>i. if unat (of_nat i :: u32) < length ?xs then ?xs ! unat (of_nat i :: u32) else 0)
      [0..<length ?xs] = ?xs"
  proof -
    have "unat (of_nat i :: u32) = i" if "i < length ?xs" for i
      using that len L by (intro unat_of_nat_small) auto
    then show ?thesis by (auto intro: nth_equalityI)
  qed
  ultimately show ?case using r by simp
qed simp

lemma read_seq_prefix:
  assumes "0 \<le> fd" "fd < 8" and "is_open (cur_file s fd)" "fileops (cur_file s fd) = file_ops"
    and "inode_ok s (inode (cur_file s fd))" and "\<forall>k\<in>set ns. k < 2 ^ 31"
    and "unat (pos (cur_file s fd)) \<le> length (file_bytes s (inode (cur_file s fd)))"
  shows "read_seq fd ns s = Some (take (sum_list ns) (drop (unat (pos (cur_file s fd)))
      (map show_char (file_bytes s (inode (cur_file s fd))))))"
proof -
  let ?i = "(s, inode (cur_file s fd))" let ?p = "unat (pos (cur_file s fd))"
  have "read_seq fd ns s = Some (shown_file.read_all ?i ?p ns)"
    using assms by (intro read_seq_all) simp_all
  moreover have "shown_file.read_all ?i ?p ns =
      take (sum_list ns) (drop ?p (case ?i of (s, n) \<Rightarrow> map show_char (file_bytes s n)))"
    by (rule shown_file.read_all_prefix) (use assms in auto)
  ultimately show ?thesis by simp
qed

section \<open>Reading a directory\<close>

text \<open>The name of an entry: at most 32 characters, with no NUL when it fills the field.\<close>

definition dentry_name :: "dentry \<Rightarrow> u8 list" where
  "dentry_name d = takeWhile (\<lambda>c. c \<noteq> 0) (file_name d)"

lemma length_dentry_name: "length (file_name d) = 32 \<Longrightarrow> length (dentry_name d) \<le> 32"
  unfolding dentry_name_def using length_takeWhile_le [of "\<lambda>c. c \<noteq> 0" "file_name d"] by linarith

lemma strlen_name:
  assumes "d = load_dentry m a" and "file_type d < 256"
  shows "\<exists>n. strlen (view m a) = Some n \<and> (if sint n > 32 then 32 else sint n) = int (length (dentry_name d))"
proof -
  let ?v = "view m a"
  have "unat (file_type d) < 256" using assms(2) by (simp add: word_less_nat_alt)
  have z: "?v 33 = 0"
  proof -
    have "drop_bit 8 (file_type d) = 0"
      using \<open>unat (file_type d) < 256\<close>
      by (simp add: drop_bit_eq_div word_unat_eq_iff unat_div_distrib)
    then have "\<not> bit (file_type d) (8 + i)" for i
      by (metis bit_0_eq bit_drop_bit_eq bot_apply bot_bool_def comp_apply)
    moreover have "bit (?v 33) i \<Longrightarrow> bit (file_type d) (8 + i)" for i
      using bit_imp_le_length [of "?v 33" i]
      by (auto simp: assms(1) load_dentry_def load32_def bit_simps add.commute)
    ultimately show ?thesis by (metis bit_eq_iff bit_0_eq bot_apply bot_bool_def)
  qed
  then obtain n where n: "n \<le> 33" "cstr ?v n" using cstr_Least_exists by blast
  then have s: "strlen ?v = Some n" by (simp add: strlen_Some_iff)
  have un: "unat n \<le> 33" using n(1) by (simp add: word_le_nat_alt)
  then have sn: "sint n = int (unat n)" by (intro sint_unat_small) simp
  have names: "file_name d = map (\<lambda>i. ?v (of_nat i)) [0..<32]"
    by (simp add: assms(1) load_dentry_def)
  have nz: "?v (of_nat i) \<noteq> 0" if "i < unat n" for i
  proof -
    have "of_nat i < n" using that un by (simp add: word_less_nat_alt unat_of_nat_small)
    then show ?thesis using n(2) by (simp add: cstr_def)
  qed
  have "length (dentry_name d) = min 32 (unat n)"
  proof (cases "unat n < 32")
    case True
    have "dentry_name d = take (unat n) (file_name d)"
      unfolding dentry_name_def
    proof (rule takeWhile_eq_take_P_nth)
      show "\<And>i. i < unat n \<Longrightarrow> i < length (file_name d) \<Longrightarrow> file_name d ! i \<noteq> 0"
        using nz by (simp add: names del: upt_Suc upt_rec_numeral)
      show "unat n < length (file_name d) \<Longrightarrow> \<not> file_name d ! unat n \<noteq> 0"
        using n(2) True by (simp add: names cstr_def del: upt_Suc upt_rec_numeral)
    qed
    with True show ?thesis by (simp add: names del: upt_Suc upt_rec_numeral)
  next
    case False
    have "\<forall>c\<in>set (file_name d). c \<noteq> 0" using nz False by (auto simp: names simp del: upt_Suc upt_rec_numeral)
    then have "dentry_name d = file_name d" by (simp add: dentry_name_def takeWhile_eq_all_conv)
    with False show ?thesis by (simp add: names del: upt_Suc upt_rec_numeral)
  qed
  moreover have "(if 32 < int k then 32 else int k) = int (min 32 k)" for k by auto
  ultimately have "(if sint n > 32 then 32 else sint n) = int (length (dentry_name d))"
    unfolding sn by metis
  with s show ?thesis by blast
qed

lemma dir_read_eq:
  assumes "pos (cur_file s fd) < num_dir_entries s"
    and d: "d = fs_dir s ! unat (pos (cur_file s fd))" "file_type d < 256"
  shows "dir_read fd buf nbytes s =
    Some (int (length (dentry_name d)),
      strncpy buf (view (mem s) (dentry_at s (pos (cur_file s fd)))) (word_of_int (min nbytes 32)),
      upd_file (get_current_pcb s) (nat fd) (\<lambda>f. f\<lparr>pos := pos f + 1\<rparr>) s)"
proof -
  have "d = load_dentry (mem s) (dentry_at s (pos (cur_file s fd)))"
    using assms(1) by (simp add: d(1) fs_dir_def word_less_nat_alt)
  then obtain n where "strlen (view (mem s) (dentry_at s (pos (cur_file s fd)))) = Some n"
      "(if sint n > 32 then 32 else sint n) = int (length (dentry_name d))"
    using strlen_name d(2) by blast
  then show ?thesis using assms(1) by (auto simp: dir_read_def Let_def not_le min_def)
qed

lemma dir_read_end:
  "num_dir_entries s \<le> pos (cur_file s fd) \<Longrightarrow> dir_read fd buf nbytes s = Some (0, buf, s)"
  by (simp add: dir_read_def)

section \<open>Claims\<close>

text \<open>
  Claim C7. Successive \<open>read\<close> calls of any sizes on an open file deliver consecutive parts of the file
  from the current position on, cut at its end, with every byte that is not printable (newline and tab
  apart) shown as a space: concatenated they are one read of the sum of the sizes.
\<close>

theorem read_sequential:
  assumes "0 \<le> fd" "fd < 8" and "is_open (cur_file s fd)" "fileops (cur_file s fd) = file_ops"
    and "inode_ok s (inode (cur_file s fd))" and "\<forall>k\<in>set ns. k < 2 ^ 31"
    and "unat (pos (cur_file s fd)) \<le> length (file_bytes s (inode (cur_file s fd)))"
  shows "read_seq fd ns s = Some (take (sum_list ns) (drop (unat (pos (cur_file s fd)))
      (map show_char (file_bytes s (inode (cur_file s fd))))))"
  using assms by (rule read_seq_prefix)

definition reader_kernel :: kernel where
  "reader_kernel = upd_file (get_pcb 0) 2 (\<lambda>_. \<lparr>inode = 0, flags = 1, pos = 0, fileops = file_ops\<rparr>) blank_kernel"

lemma reader_kernel_file: "cur_file reader_kernel 2 = \<lparr>inode = 0, flags = 1, pos = 0, fileops = file_ops\<rparr>"
proof -
  have "get_current_pcb reader_kernel = get_pcb 0"
    by (simp add: reader_kernel_def get_current_pcb_def get_pcb_def const_defs)
  then show ?thesis by (simp add: cur_file_def) (simp add: reader_kernel_def)
qed

lemma reader_kernel_image:
  "file_bytes reader_kernel 0 = [104, 105, 1]" "inode_ok reader_kernel 0"
proof -
  have "file_bytes blank_kernel 0 = file_bytes tiny_fs 0" "inode_ok blank_kernel 0 = inode_ok tiny_fs 0"
    by (simp_all add: blank_kernel_def rofs.defs file_bytes_def file_byte_def inode_at_def inode_length_def
        data_block_num_def inode_ok_def num_inodes_def)
  then show "file_bytes reader_kernel 0 = [104, 105, 1]" "inode_ok reader_kernel 0"
    by (simp_all add: reader_kernel_def tiny_fs_facts) (simp add: inode_ok_def tiny_fs_facts)
qed

theorem read_sequential_witness: "read_seq 2 [2, 5] reader_kernel = Some [104, 105, 32]"
  using read_sequential [of 2 reader_kernel "[2, 5]"]
  by (simp add: reader_kernel_file reader_kernel_image is_open_def FILE_OPEN_def show_char_def)


lemma blank_kernel_lookup: "read_dentry_by_name blank_kernel (c_str ''a'') = Some (load_dentry tiny_image 0x500040)"
proof -
  let ?d = "load_dentry tiny_image 0x500040"
  have dir: "fs_dir blank_kernel = [?d]"
    by (simp add: fs_dir_def num_dir_entries_def blank_kernel_def rofs.defs tiny_fs_def init_rofs_def
        paging.defs blank_paging_def load32_def tiny_image_def dentry_at_def Let_def)
  have "strncmp_loop (c_str ''a'') (view tiny_image 0x500040) 32 1 = 0"
    by (simp add: strncmp_loop.simps [of _ _ _ 1] c_str_def tiny_image_def)
  then have "names (c_str ''a'') ?d"
    by (simp add: names_load strncmp_def FILE_NAME_LENGTH_def strncmp_loop.simps [of _ _ _ 0] c_str_def
        tiny_image_def)
  then show ?thesis by (simp add: read_dentry_by_name_find dir)
qed


text \<open>
  Claim C8. The file table of a process keeps its shape under all four calls: descriptors 0 and 1 stay
  open on the terminal, and every other open descriptor has the operations of the clock, of a directory
  or of a file.
\<close>

theorem file_table_invariant:
  assumes "files_ok (cur_files s)"
  shows "files_ok (cur_files (snd (sys_open dev name s)))
    \<and> files_ok (cur_files (snd (sys_close dev fd s)))
    \<and> files_ok (cur_files (snd (sys_write dev fd buf n s)))
    \<and> (sys_read fd buf n s = Some (Inr (r, b, t)) \<longrightarrow> files_ok (cur_files t))"
  using assms files_ok_open files_ok_close drv_step_files_ok [OF sys_write_step] drv_step_files_ok [OF sys_read_step]
  by metis

lemma new_files_ok: "files_ok (new_files old)"
  by (auto simp: files_ok_def new_files_eq is_open_def FILE_OPEN_def)

definition proc_kernel :: kernel where
  "proc_kernel = upd_pcb (get_pcb 0) (\<lambda>b. b\<lparr>files := new_files (files b)\<rparr>) blank_kernel"

lemma proc_kernel_ok: "files_ok (cur_files proc_kernel)"
proof -
  have "get_current_pcb proc_kernel = get_pcb 0"
    by (simp add: proc_kernel_def get_current_pcb_def get_pcb_def const_defs)
  then show ?thesis by (simp add: cur_files_def) (simp add: proc_kernel_def new_files_ok)
qed

theorem file_table_invariant_witness: "files_ok (cur_files (snd (sys_close (\<lambda>_ _. 0) 2 proc_kernel)))"
  using file_table_invariant [OF proc_kernel_ok] by blast

text \<open>
  Claim C30. \<open>close\<close> refuses descriptors 0 and 1, numbers out of range and descriptors that are not
  open, with -1 and nothing changed; any other descriptor is closed with 0, and no other descriptor's
  state changes.
\<close>

theorem sys_close_correct:
  assumes "files_ok (cur_files s)" and "t = snd (sys_close dev fd s)"
  shows "if 2 \<le> fd \<and> fd < 8 \<and> is_open (cur_files s (nat fd))
    then fst (sys_close dev fd s) = 0 \<and> \<not> is_open (cur_files t (nat fd))
      \<and> (i = nat fd \<or> flags (cur_files t i) = flags (cur_files s i))
    else sys_close dev fd s = (- 1, s)"
proof -
  consider "2 \<le> fd \<and> fd < 8 \<and> is_open (cur_files s (nat fd))"
    | "fd < 0 \<or> 8 \<le> fd \<or> \<not> is_open (cur_files s (nat fd))" | "fd = 0 \<or> fd = 1" by linarith
  then show ?thesis
  proof cases
    case 1
    then show ?thesis
      using assms sys_close_ok(1,2) [OF assms(1), of fd dev] sys_close_ok(3) [OF assms(1), of fd i dev] by auto
  next
    case 2
    then show ?thesis using sys_close_refused [OF 2, of dev] by auto
  next
    case 3
    then show ?thesis using sys_close_terminal [OF assms(1) 3, of dev] by auto
  qed
qed

theorem sys_close_correct_witness: "sys_close (\<lambda>_ _. 0) 1 proc_kernel = (- 1, proc_kernel)"
  using sys_close_correct [OF proc_kernel_ok refl, of 1 "\<lambda>_ _. 0"] by simp

text \<open>
  \<open>read\<close> and \<open>write\<close> with a null buffer, a descriptor out of range or one that is not open
  return -1 and change nothing.
\<close>

theorem bad_descriptor_refused:
  assumes "buf = None \<or> fd < 0 \<or> 8 \<le> fd \<or> \<not> is_open (cur_file s fd)"
  shows "sys_read fd buf n s = Some (Inr (- 1, buf, s)) \<and> sys_write dev fd buf n s = (- 1, s)"
  using assms by (cases buf) (auto simp: sys_read_def sys_write_def MAX_FILES_def)

theorem bad_descriptor_refused_witness: "sys_write (\<lambda>_ _. 0) 8 (Some (\<lambda>_. 0)) 4 blank_kernel = (- 1, blank_kernel)"
  using bad_descriptor_refused [of "Some (\<lambda>_. 0)" 8 blank_kernel 4 "\<lambda>_ _. 0"] by simp

text \<open>
  Reading a directory delivers the entry at the descriptor's position: the length of its name
  (at most 32), the name itself padded with NULs to the requested size, and the position moves to the
  next entry; past the last entry it returns 0 and stays.
\<close>

theorem dir_read_correct:
  assumes d: "d = fs_dir s ! unat (pos (cur_file s fd))" "file_type d < 256"
  shows "dir_read fd buf nbytes s =
    (if unat (pos (cur_file s fd)) < length (fs_dir s)
     then Some (int (length (dentry_name d)),
       strncpy buf (view (mem s) (dentry_at s (pos (cur_file s fd)))) (word_of_int (min nbytes 32)),
       upd_file (get_current_pcb s) (nat fd) (\<lambda>f. f\<lparr>pos := pos f + 1\<rparr>) s)
     else Some (0, buf, s))"
proof -
  have "length (fs_dir s) = unat (num_dir_entries s)" by (simp add: fs_dir_def)
  then show ?thesis
    using dir_read_eq [OF _ d, of buf nbytes] dir_read_end [of s fd buf nbytes]
    by (simp add: word_less_nat_alt word_le_nat_alt)
qed

theorem dir_read_correct_witness:
  "map_option fst (dir_read 2 (\<lambda>_. 0) 32 reader_kernel) = Some 1"
proof -
  let ?d = "load_dentry tiny_image 0x500040"
  have dir: "fs_dir reader_kernel = [?d]"
    by (simp add: reader_kernel_def fs_dir_def num_dir_entries_def blank_kernel_def rofs.defs tiny_fs_def
        init_rofs_def paging.defs blank_paging_def load32_def tiny_image_def dentry_at_def Let_def)
  have "file_type ?d < 256" "dentry_name ?d = [97]"
    by (simp_all add: load_dentry_def load32_def tiny_image_def dentry_name_def upt_conv_Cons)
  then show ?thesis
    using dir_read_correct [of ?d reader_kernel 2 "\<lambda>_. 0" 32] by (simp add: reader_kernel_file dir)
qed

end
