(* ===== verification/Exec.thy ===== *)
theory Exec
  imports Files
begin

text \<open>
  Running programs: \<open>execute\<close> and \<open>halt\<close> of \<^verbatim>\<open>syscalls.c\<close>, the system calls \<open>getargs\<close>, \<open>vidmap\<close>,
  \<open>set_handler\<close> and \<open>sigreturn\<close>, and the functions of \<^verbatim>\<open>terminal.c\<close> that start and switch
  terminals. A call that enters user code or resumes a parent does not return; how it ends is its
  outcome. Writes to user memory go through the page tables.

  \<open>execute\<close> and \<open>halt\<close> call each other: \<open>halt\<close> executes a shell, and \<open>execute\<close> of a command that
  starts with \<open>exit\<close> halts. \<open>exec_command\<close> is \<open>execute\<close> past its checks for a null pointer and for
  \<open>exit\<close>; that \<open>halt\<close>'s call of \<open>execute\<close> is \<open>exec_command\<close> is proved.
\<close>

section \<open>User memory\<close>

fun user_store :: "tables \<Rightarrow> u32 \<Rightarrow> u8 list \<Rightarrow> 'a paging_scheme \<Rightarrow> fault + 'a paging_scheme" where
  "user_store T v [] s = Inr s"
| "user_store T v (c # cs) s =
     (case translate T s v of
        None \<Rightarrow> Inl PageFault
      | Some (p, _) \<Rightarrow> user_store T (v + 1) cs (s\<lparr>mem := (mem s)(p := c)\<rparr>))"

section \<open>getargs, vidmap and the signal calls\<close>

text \<open>
  \<open>getargs\<close> copies from the control block to the address \<open>buf\<close> with \<open>memcpy\<close>: the destination is the
  physical block the user addresses translate to, a fault if they are not mapped to one.
\<close>

definition user_block :: "tables \<Rightarrow> 'a paging_scheme \<Rightarrow> u32 \<Rightarrow> u32 \<Rightarrow> u32 option" where
  "user_block T s v n =
     (case translate T s v of
        None \<Rightarrow> None
      | Some (p, _) \<Rightarrow>
          if list_all (\<lambda>i. map_option fst (translate T s (v + of_nat i)) = Some (p + of_nat i)) [0..<unat n]
          then Some p else None)"

definition getargs :: "tables \<Rightarrow> u32 \<Rightarrow> int \<Rightarrow> 'a kernel_scheme \<Rightarrow> (fault + int \<times> 'a kernel_scheme) option" where
  "getargs T buf nbytes s =
     (if buf = 0 then Some (Inr (- 1, s))
      else
        let a = args_at (get_current_pcb s)
        in case strlen (view (mem s) a) of
             None \<Rightarrow> None
           | Some n \<Rightarrow>
               if n = 0 then Some (Inr (- 1, s))
               else
                 let nbytes = (if nbytes > 128 then 128 else nbytes);
                     k = (word_of_int nbytes :: u32)
                 in if k = 0 then Some (Inr (0, s))
                    else case user_block T s buf k of
                        None \<Rightarrow> Some (Inl PageFault)
                      | Some d \<Rightarrow> Some (Inr (0, s\<lparr>mem := memcpy (mem s) d a k\<rparr>)))"

definition vidmap :: "tables \<Rightarrow> u32 \<Rightarrow> 'a paging_scheme \<Rightarrow> fault + int \<times> 'a paging_scheme" where
  "vidmap T screen_start s =
     (if screen_start = 0 then Inr (- 1, s)
      else if sint screen_start < sint VIRTUAL_START \<or> sint screen_start > sint VIRTUAL_END
      then Inr (- 1, s)
      else
        let s = remapWithPageTable T VIRTUAL_END VIDEOMEM s
        in case user_store T screen_start
                  [ucast VIRTUAL_END, ucast (drop_bit 8 VIRTUAL_END), ucast (drop_bit 16 VIRTUAL_END),
                   ucast (drop_bit 24 VIRTUAL_END)] s of
             Inl e \<Rightarrow> Inl e
           | Inr s \<Rightarrow> Inr (0, s))"

definition set_handler :: "u32 \<Rightarrow> u32 \<Rightarrow> int" where
  "set_handler signum handler_address = - 1"

definition sigreturn :: int where
  "sigreturn = - 1"

section \<open>Running a program\<close>

datatype outcome = Returned int | EnterUser u32 | ResumeParent u8

definition COMMAND_SIZE :: nat where [const_defs]: "COMMAND_SIZE = 128"
definition EXECUTE_START :: u32 where [const_defs]: "EXECUTE_START = 0x8048000"

text \<open>
  Copying a part of the command to a buffer of \<open>COMMAND_SIZE\<close> bytes, up to one of the characters in
  \<open>stops\<close>, and terminating it. The code does not check the size.
\<close>

function copy_token :: "u8 list \<Rightarrow> bytes \<Rightarrow> bytes \<Rightarrow> nat \<Rightarrow> fault + bytes \<times> nat" where
  "copy_token stops src buf i =
     (if i < COMMAND_SIZE then
        if src (of_nat i) \<in> set stops then Inr (buf(of_nat i := 0), i)
        else copy_token stops src (buf(of_nat i := src (of_nat i))) (i + 1)
      else Inl OutOfBounds)"
  by pat_completeness auto
termination
  by (relation "measure (\<lambda>(stops, src, buf, i). COMMAND_SIZE - i)") auto

declare copy_token.simps [simp del, loop_unfold]

definition elf_magic :: "bytes \<Rightarrow> bool" where
  "elf_magic buffer \<longleftrightarrow> buffer 0 = 0x7F \<and> buffer 1 = 0x45 \<and> buffer 2 = 0x4C \<and> buffer 3 = 0x46"

definition parse_args :: "bytes \<Rightarrow> nat \<Rightarrow> fault + bytes" where
  "parse_args command i =
     (if command (of_nat i) = 32
      then (case copy_token [0, 10] (view command (of_nat (i + 1))) (\<lambda>_. 0) 0 of
              Inl e \<Rightarrow> Inl e
            | Inr (arg_buf, _) \<Rightarrow> Inr arg_buf)
      else Inr (\<lambda>_. 0))"

text \<open>
  From the creation of the control block on: \<open>p\<close> is the new block, \<open>node\<close> the program's inode, \<open>com_start\<close>
  its entry point. The program is loaded through the new mapping of the user window.
\<close>

definition start_process ::
  "tables \<Rightarrow> u32 \<Rightarrow> u32 \<Rightarrow> u32 \<Rightarrow> bytes \<Rightarrow> 'a kernel_scheme \<Rightarrow> fault + outcome \<times> 'a kernel_scheme" where
  "start_process T p node com_start arg_buf s =
     (let t = term_cur s - 1;
          s = upd_terminal t (\<lambda>t. t\<lparr>num_processes := num_processes t + 1\<rparr>) s;
          s = upd_terminal t (\<lambda>t. t\<lparr>term_pid := pid (pcbs s p)\<rparr>) s;
          s = upd_pcb p (\<lambda>b. b\<lparr>parent_ebp := ebp s, parent_esp := esp s\<rparr>) s;
          s = remap VIRTUAL_START (PHYSICAL_START + ucast (pid (pcbs s p)) * FOUR_MB_BLOCK) s;
          (n, b) = read_data s node 0 (\<lambda>_. 0) FOUR_MB_BLOCK
      in case user_store T EXECUTE_START (map (\<lambda>i. b (of_nat i)) [0..<nat n]) s of
           Inl e \<Rightarrow> Inl e
         | Inr s \<Rightarrow>
             let s = s\<lparr>tss_ss0 := KERNEL_DS\<rparr>;
                 s = s\<lparr>tss_esp0 := kernel_stack (pid (pcbs s p))\<rparr>;
                 s = s\<lparr>mem := place (args_at p) (strncpy (view (mem s) (args_at p)) arg_buf MAX_ARGS_LENGTH)\<rparr>
             in Inr (EnterUser com_start, sti s))"

definition exec_program ::
  "tables \<Rightarrow> bytes \<Rightarrow> bytes \<Rightarrow> nat \<Rightarrow> 'a kernel_scheme \<Rightarrow> fault + outcome \<times> 'a kernel_scheme" where
  "exec_program T command com_buf i s =
     (case read_dentry_by_name s com_buf of
        None \<Rightarrow> Inr (Returned (- 1), s)
      | Some dentry \<Rightarrow>
          let buffer = snd (read_data s (inode_num dentry) 0 (\<lambda>_. 0) MAGIC_SIZE)
          in if \<not> elf_magic buffer then Inr (Returned (- 1), s)
             else if \<not> can_execute s
             then Inr (Returned 0, printk ''Maximum number of processes reached\<newline>'' s)
             else case parse_args command i of
                 Inl e \<Rightarrow> Inl e
               | Inr arg_buf \<Rightarrow>
                   let buffer = snd (read_data s (inode_num dentry) 24 buffer MAGIC_SIZE);
                       com_start = load32 buffer 0
                   in case create_pcb s of
                        (None, s) \<Rightarrow> Inr (Returned (- 1), s)
                      | (Some p, s) \<Rightarrow> start_process T p (inode_num dentry) com_start arg_buf s)"

definition exec_command :: "tables \<Rightarrow> bytes \<Rightarrow> 'a kernel_scheme \<Rightarrow> fault + outcome \<times> 'a kernel_scheme" where
  "exec_command T command s =
     (let s = cli s
      in case copy_token [32, 0, 10] command (\<lambda>_. 0) 0 of
           Inl e \<Rightarrow> Inl e
         | Inr (com_buf, i) \<Rightarrow> exec_program T command com_buf i s)"

section \<open>halt and execute\<close>

definition close_all :: "device \<Rightarrow> 'a kernel_scheme \<Rightarrow> 'a kernel_scheme" where
  "close_all dev s =
     fold (\<lambda>i s. let f = files (pcbs s (get_current_pcb s)) i
                 in if is_open f then snd (call_close (op_close (fileops f)) dev (int i) s) else s)
       [2..<nat MAX_FILES] s"

text \<open>Back in the parent: its stack is restored and its \<open>execute\<close> returns the status.\<close>

definition resume_parent :: "u32 \<Rightarrow> u8 \<Rightarrow> 'a kernel_scheme \<Rightarrow> outcome \<times> 'a kernel_scheme" where
  "resume_parent p status s =
     (let s = upd_terminal (term_cur s - 1) (\<lambda>t. t\<lparr>term_pid := ucast (parent_pid (pcbs s p))\<rparr>) s;
          s = remap VIRTUAL_START (PHYSICAL_START + parent_pid (pcbs s p) * FOUR_MB_BLOCK) s;
          s = s\<lparr>tss_esp0 := parent_esp (pcbs s p)\<rparr>;
          s = s\<lparr>tss_ss0 := KERNEL_DS\<rparr>
      in (ResumeParent status, s\<lparr>esp := parent_esp (pcbs s p), ebp := parent_ebp (pcbs s p)\<rparr>))"

text \<open>A call of \<open>execute("shell")\<close> inside \<open>halt\<close>: when it enters the shell, \<open>halt\<close> is over.\<close>

definition or_shell ::
  "tables \<Rightarrow> bool \<Rightarrow> ('a kernel_scheme \<Rightarrow> fault + outcome \<times> 'a kernel_scheme) \<Rightarrow> 'a kernel_scheme
    \<Rightarrow> fault + outcome \<times> 'a kernel_scheme" where
  "or_shell T b k s =
     (if b then case exec_command T (c_str ''shell'') s of
          Inl e \<Rightarrow> Inl e
        | Inr (Returned _, s) \<Rightarrow> k s
        | Inr r \<Rightarrow> Inr r
      else k s)"

definition halt :: "tables \<Rightarrow> device \<Rightarrow> u8 \<Rightarrow> 'a kernel_scheme \<Rightarrow> fault + outcome \<times> 'a kernel_scheme" where
  "halt T dev status s =
     (let s = cli s;
          p = get_current_pcb s;
          s = close_all dev s;
          s = upd_terminal (term_cur s - 1) (\<lambda>t. t\<lparr>num_processes := num_processes t - 1\<rparr>) s;
          s = s\<lparr>processes_flags := processes_flags s AND NOT (push_bit (unat (pid (pcbs s p))) 1)\<rparr>
      in or_shell T (num_processes (terminal s (term_cur s - 1)) = 0)
           (\<lambda>s. or_shell T (processes_flags s = 0) (\<lambda>s. Inr (resume_parent p status s)) s) s)"

definition execute ::
  "tables \<Rightarrow> device \<Rightarrow> bytes option \<Rightarrow> 'a kernel_scheme \<Rightarrow> fault + outcome \<times> 'a kernel_scheme" where
  "execute T dev command s =
     (let s = cli s
      in case command of
           None \<Rightarrow> Inr (Returned (- 1), sti s)
         | Some command \<Rightarrow>
             (case copy_token [32, 0, 10] command (\<lambda>_. 0) 0 of
                Inl e \<Rightarrow> Inl e
              | Inr (com_buf, i) \<Rightarrow>
                  if strncmp com_buf (c_str ''exit'') 4 = 0
                  then (case halt T dev 0 s of
                          Inl e \<Rightarrow> Inl e
                        | Inr (Returned _, s) \<Rightarrow> Inr (Returned 0, s)
                        | Inr r \<Rightarrow> Inr r)
                  else exec_program T command com_buf i s))"

section \<open>Terminals\<close>

definition ATTRIB_G :: u8 where [const_defs]: "ATTRIB_G = 0xA"
definition ATTRIB_Y :: u8 where [const_defs]: "ATTRIB_Y = 0xE"
definition ATTRIB_B :: u8 where [const_defs]: "ATTRIB_B = 0xB"

text \<open>The six lines \<open>terminal_start\<close> prints; a tilde stands for the backslash.\<close>

definition banner :: "string list" where
  "banner = map (map (\<lambda>c. if c = CHR ''~'' then CHR 0x5C else c))
    [''    _      ____     ___    _       _        ___             ___    ____  \<newline>'',
     ''   / ~    |  _ ~   / _ ~  | |     | |      / _ ~           / _ ~  / ___| \<newline>'',
     ''  / _ ~   | |_) | | | | | | |     | |     | | | |         | | | | ~___ ~ \<newline>'',
     '' / ___ ~  |  __/  | |_| | | |___  | |___  | |_| |         | |_| |  ___) |\<newline>'',
     ''/_/   ~_~ |_|      ~___/  |_____| |_____|  ~___/   _____   ~___/  |____/ \<newline>'',
     ''                                                  |_____|                \<newline>'']"

text \<open>The part of \<open>terminal_start\<close> before the shell is executed.\<close>

definition show_terminal :: "int \<Rightarrow> 'a kernel_scheme \<Rightarrow> 'a kernel_scheme" where
  "show_terminal term s =
     (let s = upd_terminal (term - 1) (\<lambda>t. t\<lparr>init := 1\<rparr>) s;
          s = s\<lparr>key_buffer := Some (term - 1)\<rparr>;
          s = s\<lparr>key_buffer_pos := term_key_buffer_pos (terminal s (term - 1))\<rparr>;
          s = set_screen_pos (pos_x (terminal s (term - 1))) (pos_y (terminal s (term - 1))) s;
          s = update_cursor_loc (get_screen_x s) (get_screen_y s) s;
          s = s\<lparr>mem := memcpy (mem s) VIDEO (vid_mem (terminal s (term - 1))) screen_bytes\<rparr>
      in fold printk banner s)"

definition terminal_start :: "tables \<Rightarrow> int \<Rightarrow> 'a kernel_scheme \<Rightarrow> fault + outcome \<times> 'a kernel_scheme" where
  "terminal_start T term s =
     (case exec_command T (c_str ''shell'') (show_terminal term s) of
        Inl e \<Rightarrow> Inl e
      | Inr (Returned _, s) \<Rightarrow> Inr (Returned 0, s)
      | Inr r \<Rightarrow> Inr r)"

definition switch_terminal :: "tables \<Rightarrow> int \<Rightarrow> 'a kernel_scheme \<Rightarrow> fault + outcome \<times> 'a kernel_scheme" where
  "switch_terminal T term s =
     (let s = cli s
      in if term = term_cur s then Inr (Returned 0, sti s)
         else if init (terminal s (term - 1)) = 0 \<and> \<not> can_execute s
         then Inr (Returned 0, sti (printk
                ''\<newline>Please close processes before opening another teminal\<newline>391OS> '' s))
         else
           let (_, s) = terminal_save (term_cur s) s;
               s = s\<lparr>term_cur := term\<rparr>
           in if init (terminal s (term_cur s - 1)) = 0
              then (case terminal_start T (term_cur s) s of
                      Inl e \<Rightarrow> Inl e
                    | Inr (Returned _, s) \<Rightarrow> Inr (Returned 0, sti s)
                    | Inr r \<Rightarrow> Inr r)
              else let (_, s) = terminal_load (term_cur s) s in Inr (Returned 0, sti s))"

definition reset_terminal :: "int \<Rightarrow> terminal_t \<Rightarrow> terminal_t" where
  "reset_terminal i t =
     t\<lparr>num := word_of_int (i + 1), term_key_buffer_pos := 0, pos_x := 0, pos_y := 0, term_esp := 0,
       term_ebp := 0, num_processes := 0, init := 0,
       term_key_buffer := fold (\<lambda>j kb. kb(of_nat j := 0)) [0..<unat KEY_BUFFER_SIZE] (term_key_buffer t)\<rparr>"

text \<open>Character and attribute of cell \<open>i\<close> of a terminal's page.\<close>

definition blank_cell :: "u32 \<Rightarrow> u8 \<Rightarrow> nat \<Rightarrow> bytes \<Rightarrow> bytes" where
  "blank_cell base attrib i m =
     m(base + push_bit 1 (of_nat i) := 32, base + push_bit 1 (of_nat i) + 1 := attrib)"

definition init_terminals :: "tables \<Rightarrow> 'a kernel_scheme \<Rightarrow> fault + outcome \<times> 'a kernel_scheme" where
  "init_terminals T s =
     (let s = fold (\<lambda>i. upd_terminal (int i) (reset_terminal (int i))) [0..<nat MAX_TERMINALS] s
      in case remapToPage T TERM_MEM TERM_1_MEM 1 s of
           Inl e \<Rightarrow> Inl e
         | Inr s \<Rightarrow>
      (case remapToPage T TERM_MEM TERM_2_MEM 2 s of
           Inl e \<Rightarrow> Inl e
         | Inr s \<Rightarrow>
      (case remapToPage T TERM_MEM TERM_3_MEM 3 s of
           Inl e \<Rightarrow> Inl e
         | Inr s \<Rightarrow>
             let s = upd_terminal 0 (\<lambda>t. t\<lparr>vid_mem := TERM_1_MEM\<rparr>) s;
                 s = upd_terminal 1 (\<lambda>t. t\<lparr>vid_mem := TERM_2_MEM\<rparr>) s;
                 s = upd_terminal 2 (\<lambda>t. t\<lparr>vid_mem := TERM_3_MEM\<rparr>) s;
                 s = s\<lparr>mem := fold (\<lambda>i m. blank_cell TERM_3_MEM ATTRIB_Y i (blank_cell TERM_2_MEM ATTRIB_G i
                       (blank_cell TERM_1_MEM ATTRIB_B i m))) [0..<nat (NUM_ROWS * NUM_COLS)] (mem s)\<rparr>;
                 s = s\<lparr>term_cur := 1\<rparr>
             in terminal_start T 1 s)))"

section \<open>Parsing the command\<close>

text \<open>
  The word a copy of the command takes: the characters before the first stop, and at most
  \<open>COMMAND_SIZE - 1\<close> of them.
\<close>

lemma copy_token_eq:
  "i \<le> k \<Longrightarrow> k < 128 \<Longrightarrow> src (of_nat k) \<in> set stops \<Longrightarrow> \<forall>j. i \<le> j \<and> j < k \<longrightarrow> src (of_nat j) \<notin> set stops \<Longrightarrow>
   copy_token stops src buf i =
     Inr (\<lambda>a. if i \<le> unat a \<and> unat a < k then src a else if unat a = k then 0 else buf a, k)"
proof (induction "k - i" arbitrary: i buf)
  case 0
  then have "i = k" by simp
  moreover have "a = of_nat k \<longleftrightarrow> unat a = k" for a :: u32
    using 0 by (auto simp: unat_of_nat_small word_unat_eq_iff)
  ultimately show ?case
    using 0 by (auto simp: copy_token.simps [of stops src buf k] COMMAND_SIZE_def fun_eq_iff)
next
  case (Suc d)
  then have i: "i < k" by simp
  have eq: "a = of_nat i \<longleftrightarrow> unat a = i" for a :: u32
    using Suc i by (auto simp: unat_of_nat_small word_unat_eq_iff)
  have "copy_token stops src buf i = copy_token stops src (buf(of_nat i := src (of_nat i))) (Suc i)"
    using Suc.prems i by (simp add: copy_token.simps [of stops src buf i] COMMAND_SIZE_def)
  also have "\<dots> = Inr (\<lambda>a. if Suc i \<le> unat a \<and> unat a < k then src a else if unat a = k then 0
      else (buf(of_nat i := src (of_nat i))) a, k)"
    using Suc i by (intro Suc.hyps(1)) simp_all
  also have "\<dots> = Inr (\<lambda>a. if i \<le> unat a \<and> unat a < k then src a else if unat a = k then 0 else buf a, k)"
    using i by (auto simp: fun_eq_iff eq)
  finally show ?case .
qed

lemma copy_token_overflow:
  "i \<le> 128 \<Longrightarrow> \<forall>j. i \<le> j \<and> j < 128 \<longrightarrow> src (of_nat j) \<notin> set stops \<Longrightarrow>
   copy_token stops src buf i = Inl OutOfBounds"
proof (induction "128 - i" arbitrary: i buf)
  case 0
  then show ?case by (simp add: copy_token.simps [of stops src buf 128] COMMAND_SIZE_def)
next
  case (Suc d)
  then have "i < 128" by simp
  moreover have "copy_token stops src (buf(of_nat i := src (of_nat i))) (Suc i) = Inl OutOfBounds"
    using Suc by (intro Suc.hyps(1)) simp_all
  ultimately show ?case
    using Suc.prems by (simp add: copy_token.simps [of stops src buf i] COMMAND_SIZE_def)
qed

lemma shell_token:
  "copy_token [32, 0, 10] (c_str ''shell'') (\<lambda>_. 0) 0 = Inr (c_str ''shell'', 5)"
proof -
  have five: "j < 5 \<longleftrightarrow> j = 0 \<or> j = 1 \<or> j = 2 \<or> j = 3 \<or> j = 4" for j :: nat by auto
  have "copy_token [32, 0, 10] (c_str ''shell'') (\<lambda>_. 0) 0 =
      Inr (\<lambda>a. if 0 \<le> unat a \<and> unat a < 5 then c_str ''shell'' a else if unat a = 5 then 0 else 0, 5)"
    by (rule copy_token_eq) (auto simp: c_str_def five)
  also have "(\<lambda>a. if 0 \<le> unat a \<and> unat a < 5 then c_str ''shell'' a else if unat a = 5 then 0 else 0) =
      c_str ''shell''"
    by (auto simp: fun_eq_iff c_str_def)
  finally show ?thesis .
qed

text \<open>The call of \<open>execute\<close> that \<open>halt\<close> and \<open>terminal_start\<close> make.\<close>

lemma execute_shell: "execute T dev (Some (c_str ''shell'')) s = exec_command T (c_str ''shell'') s"
proof -
  have "strncmp (c_str ''shell'') (c_str ''exit'') 4 \<noteq> 0"
    by (simp add: strncmp_def strncmp_loop.simps c_str_def)
  then show ?thesis
    by (simp add: execute_def exec_command_def shell_token)
qed

section \<open>Loading a program\<close>

lemma user_store_eq:
  "length cs \<le> 2 ^ 32 \<Longrightarrow> \<forall>i<length cs. \<exists>u. translate T s (v + of_nat i) = Some (p + of_nat i, u) \<Longrightarrow>
   user_store T v cs s =
     Inr (s\<lparr>mem := \<lambda>a. if unat (a - p) < length cs then cs ! unat (a - p) else mem s a\<rparr>)"
proof (induction cs arbitrary: v p s)
  case (Cons c cs)
  let ?s = "s\<lparr>mem := (mem s)(p := c)\<rparr>"
  obtain u where u: "translate T s v = Some (p, u)" using Cons.prems(2) [rule_format, of 0] by auto
  have step: "\<exists>u. translate T ?s (v + 1 + of_nat i) = Some (p + 1 + of_nat i, u)" if "i < length cs" for i
  proof -
    have "\<exists>u. translate T s (v + of_nat (Suc i)) = Some (p + of_nat (Suc i), u)"
      using Cons.prems(2) that by auto
    then show ?thesis by (simp add: translate_def add.assoc)
  qed
  have "user_store T v (c # cs) s = user_store T (v + 1) cs ?s" using u by simp
  also have "\<dots> = Inr (?s\<lparr>mem := \<lambda>a. if unat (a - (p + 1)) < length cs then cs ! unat (a - (p + 1)) else mem ?s a\<rparr>)"
    using Cons.IH [of ?s "v + 1" "p + 1"] step Cons.prems(1) by simp
  also have "(\<lambda>a. if unat (a - (p + 1)) < length cs then cs ! unat (a - (p + 1)) else mem ?s a) =
      (\<lambda>a. if unat (a - p) < length (c # cs) then (c # cs) ! unat (a - p) else mem s a)"
  proof
    fix a
    show "(if unat (a - (p + 1)) < length cs then cs ! unat (a - (p + 1)) else mem ?s a) =
        (if unat (a - p) < length (c # cs) then (c # cs) ! unat (a - p) else mem s a)"
    proof (cases "a = p")
      case True
      then show ?thesis using Cons.prems(1) by (simp add: unat_minus_1_u32)
    next
      case False
      then show ?thesis by (simp add: unat_diff_Suc)
    qed
  qed
  finally show ?case by simp
qed simp

lemma window_address:
  assumes "j < 0x3B8000"
  shows "dir_index (EXECUTE_START + of_nat j) = dir_index VIRTUAL_START"
    and "(EXECUTE_START + of_nat j) AND 0x3FFFFF = 0x48000 + of_nat j"
proof -
  have u: "unat (EXECUTE_START + of_nat j) = 0x8048000 + j"
    using assms by (simp add: EXECUTE_START_def unat_word_ariths(1) unat_of_nat_small)
  then have "unat (dir_index (EXECUTE_START + of_nat j)) = 32" using assms by (simp add: unat_dir_index)
  moreover have "unat (dir_index VIRTUAL_START) = 32" by (simp add: unat_dir_index VIRTUAL_START_def)
  ultimately show "dir_index (EXECUTE_START + of_nat j) = dir_index VIRTUAL_START"
    by (simp add: word_unat_eq_iff)
  have "(EXECUTE_START + of_nat j) AND 0x3FFFFF = take_bit 22 (EXECUTE_START + of_nat j)"
    by (simp add: take_bit_eq_mask mask_eq_exp_minus_1)
  then have "unat ((EXECUTE_START + of_nat j) AND 0x3FFFFF) = (0x8048000 + j) mod 2 ^ 22"
    by (simp only: take_bit_eq_mod unat_mod_distrib) (simp add: u)
  also have "\<dots> = (0x48000 + j + 32 * 4194304) mod 4194304" by simp
  also have "\<dots> = 0x48000 + j" using assms by (simp only: mod_mult_self1) simp
  also have "\<dots> = unat (0x48000 + of_nat j :: u32)"
    using assms by (simp add: unat_word_ariths(1) unat_of_nat_small)
  finally show "(EXECUTE_START + of_nat j) AND 0x3FFFFF = 0x48000 + of_nat j"
    by (simp only: word_unat_eq_iff)
qed

lemma translate_window:
  "j < 0x3B8000 \<Longrightarrow> translate T (remap VIRTUAL_START (frame_of k) s) (EXECUTE_START + of_nat j) =
     Some (frame_of k + 0x48000 + of_nat j, True)"
  by (simp add: remap_inside frame_aligned window_address add.assoc)

text \<open>What user code finds at an address.\<close>

definition user_load :: "tables \<Rightarrow> 'a paging_scheme \<Rightarrow> u32 \<Rightarrow> u8 option" where
  "user_load T s v = map_option (\<lambda>(p, _). mem s p) (translate T s v)"

text \<open>A program: a file with the magic number that fits between \<open>EXECUTE_START\<close> and the end of the window.\<close>

definition program_ok :: "'a rofs_scheme \<Rightarrow> u32 \<Rightarrow> u8 list \<Rightarrow> bool" where
  "program_ok s n F \<longleftrightarrow> inode_ok s n \<and> file_bytes s n = F \<and> take 4 F = [0x7F, 0x45, 0x4C, 0x46]
     \<and> 28 \<le> length F \<and> length F \<le> 0x3B8000"

definition entry_point :: "u8 list \<Rightarrow> u32" where
  "entry_point F = load32 (\<lambda>i. F ! unat i) 24"

lemma program_read:
  assumes "program_ok s n F"
  shows "elf_magic (snd (read_data s n 0 (\<lambda>_. 0) MAGIC_SIZE))"
    and "load32 (snd (read_data s n 24 buf MAGIC_SIZE)) 0 = entry_point F"
    and "read_data s n 0 (\<lambda>_. 0) FOUR_MB_BLOCK = (int (length F), \<lambda>k. if unat k < length F then F ! unat k else 0)"
proof -
  have F: "file_bytes s n = F" "n < num_inodes s" "unat (inode_length s (inode_at s n)) < 2 ^ 31"
    "28 \<le> length F" "length F \<le> 0x3B8000" "take 4 F = [0x7F, 0x45, 0x4C, 0x46]"
    using assms by (auto simp: program_ok_def inode_ok_def)
  have L: "unat (inode_length s (inode_at s n)) = length F" using F(1) by auto
  have w: "unat (0 :: u32) = 0" "unat (4 :: u32) = 4" "unat (24 :: u32) = 24" "unat FOUR_MB_BLOCK = 0x400000"
    by (simp_all add: FOUR_MB_BLOCK_def)
  have "read_data s n 0 (\<lambda>_. 0) 4 =
      (int (length (take 4 F)), \<lambda>k. if unat k < length (take 4 F) then take 4 F ! unat k else 0)"
    by (rule read_data_eq [of n s 0 4 "\<lambda>_. 0", unfolded w F(1) drop_0]) (use F(2,3) in simp_all)
  then show "elf_magic (snd (read_data s n 0 (\<lambda>_. 0) MAGIC_SIZE))"
    unfolding F(6) by (simp add: elf_magic_def MAGIC_SIZE_def)
  have "read_data s n 24 buf 4 = (int (length (take 4 (drop 24 F))),
      \<lambda>k. if unat k < length (take 4 (drop 24 F)) then take 4 (drop 24 F) ! unat k else buf k)"
    by (rule read_data_eq [of n s 24 4 buf, unfolded w F(1)]) (use F(2-4) L in \<open>simp_all add: word_le_nat_alt\<close>)
  then show "load32 (snd (read_data s n 24 buf MAGIC_SIZE)) 0 = entry_point F"
    using F(4) by (simp add: MAGIC_SIZE_def entry_point_def load32_def)
  have all: "take 0x400000 F = F" using F(5) by simp
  show "read_data s n 0 (\<lambda>_. 0) FOUR_MB_BLOCK = (int (length F), \<lambda>k. if unat k < length F then F ! unat k else 0)"
    by (rule read_data_eq [of n s 0 FOUR_MB_BLOCK "\<lambda>_. 0", unfolded w F(1) drop_0 all]) (use F(2,3) in simp_all)
qed

text \<open>The file the kernel reads does not depend on the control blocks, the terminals and the page tables.\<close>

lemma program_ok_cong:
  "mem t = mem s \<Longrightarrow> boot_block t = boot_block s \<Longrightarrow> inodes t = inodes s \<Longrightarrow> data_blocks t = data_blocks s \<Longrightarrow>
   program_ok t n F = program_ok s n F"
  by (simp add: program_ok_def inode_ok_def num_inodes_def inode_length_def inode_at_def file_bytes_def
      file_byte_def data_block_num_def)

text \<open>The frame of a process lies above its control block.\<close>

lemma frame_above_args:
  assumes "k < 6"
  shows "128 \<le> unat (frame_of (of_nat k) + (v AND 0x3FFFFF) - args_at (get_pcb (of_nat k)))"
proof -
  have k: "(of_nat k :: u32) < 256" "unat (of_nat k :: u32) = k"
    using assms(1) by (simp_all add: word_less_nat_alt unat_of_nat_small)
  have f: "0x800000 \<le> unat (frame_of (of_nat k) + (v AND 0x3FFFFF))"
    using unat_frame_addr [OF k(1), of v] by simp
  have "unat (get_pcb (of_nat k)) \<le> 0x7FE000"
    using unat_get_pcb [of "of_nat k"] k by (simp add: word_less_nat_alt)
  then have a: "unat (args_at (get_pcb (of_nat k))) \<le> 0x7FE0E1"
    by (simp add: args_at_def unat_word_ariths(1))
  have "args_at (get_pcb (of_nat k)) \<le> frame_of (of_nat k) + (v AND 0x3FFFFF)"
    using a f by (simp add: word_le_nat_alt)
  then have "unat (frame_of (of_nat k) + (v AND 0x3FFFFF) - args_at (get_pcb (of_nat k))) =
      unat (frame_of (of_nat k) + (v AND 0x3FFFFF)) - unat (args_at (get_pcb (of_nat k)))"
    by (rule unat_sub)
  then show ?thesis using a f by linarith
qed

lemma frame_not_args:
  "k < 6 \<Longrightarrow> j < 0x3B8000 \<Longrightarrow> 128 \<le> unat (frame_of (of_nat k) + 0x48000 + of_nat j - args_at (get_pcb (of_nat k)))"
  using frame_above_args [of k "EXECUTE_START + of_nat j"] by (simp add: window_address(2) add.assoc)

lemma start_process_loads:
  assumes F: "program_ok s n F" and k: "k < 6" and p: "p = get_pcb (of_nat k)" "pid (pcbs s p) = of_nat k"
  shows "\<exists>t. start_process T p n com_start args s = Inr (EnterUser com_start, t)
    \<and> (\<forall>j<length F. user_load T t (EXECUTE_START + of_nat j) = Some (F ! j))
    \<and> (\<forall>i<128. mem t (args_at p + i) = (if \<exists>j\<le>i. args j = 0 then 0 else args i))"
proof -
  define t where "t = term_cur s - 1"
  define s1 where "s1 = s\<lparr>terminal := (terminal s)(t := (terminal s t)
      \<lparr>num_processes := num_processes (terminal s t) + 1, term_pid := of_nat k\<rparr>),
    pcbs := (pcbs s)(p := (pcbs s p)\<lparr>parent_ebp := ebp s, parent_esp := esp s\<rparr>)\<rparr>"
  define u where "u = remap VIRTUAL_START (frame_of (of_nat k)) s1"
  have "program_ok u n F"
    using F program_ok_cong [of u s n F] by (simp add: u_def s1_def remap_def refresh_tbl_def Let_def)
  note read = program_read(3) [OF this]
  have F5: "length F \<le> 0x3B8000" using F by (simp add: program_ok_def)
  let ?cs = "map (\<lambda>i. if unat (of_nat i :: u32) < length F then F ! unat (of_nat i :: u32) else 0) [0..<length F]"
  have cs: "?cs = F"
    using F5 by (intro nth_equalityI) (simp_all add: unat_of_nat_small)
  define v where "v = u\<lparr>mem := \<lambda>a. if unat (a - (frame_of (of_nat k) + 0x48000)) < length F
      then F ! unat (a - (frame_of (of_nat k) + 0x48000)) else mem u a\<rparr>"
  have store: "user_store T EXECUTE_START F u = Inr v"
    unfolding v_def by (rule user_store_eq) (use F5 in \<open>auto simp: u_def translate_window\<close>)
  define w where "w = sti (v\<lparr>tss_ss0 := KERNEL_DS, tss_esp0 := kernel_stack (of_nat k),
    mem := place (args_at p) (strncpy (view (mem v) (args_at p)) args MAX_ARGS_LENGTH)\<rparr>)"
  have u1: "pid (pcbs u p) = of_nat k" "pid (pcbs v p) = of_nat k"
    using p(2) by (simp_all add: v_def u_def s1_def remap_def refresh_tbl_def Let_def)
  have "start_process T p n com_start args s = Inr (EnterUser com_start, w)"
    using k p(2) u1 store cs
    by (simp add: start_process_def Let_def t_def [symmetric] s1_def [symmetric] ucast_small_pid
        u_def [symmetric] frame_of_def [symmetric] read w_def)
  moreover have "user_load T w (EXECUTE_START + of_nat j) = Some (F ! j)" if "j < length F" for j
  proof -
    have j: "j < 0x3B8000" using that F5 by simp
    have "translate T w = translate T u" by (simp add: w_def v_def translate_def sti_def fun_eq_iff)
    then have "user_load T w (EXECUTE_START + of_nat j) = Some (mem w (frame_of (of_nat k) + 0x48000 + of_nat j))"
      using j by (simp add: user_load_def u_def translate_window)
    also have "mem w (frame_of (of_nat k) + 0x48000 + of_nat j) = mem v (frame_of (of_nat k) + 0x48000 + of_nat j)"
      using frame_not_args [OF k j] by (simp add: w_def strncpy_eq MAX_ARGS_LENGTH_def p(1) word_less_nat_alt not_less add.assoc)
    also have "\<dots> = F ! j" using that j by (simp add: v_def unat_of_nat_small)
    finally show ?thesis .
  qed
  moreover have "mem w (args_at p + i) = (if \<exists>j\<le>i. args j = 0 then 0 else args i)" if "i < 128" for i
    using that by (simp add: w_def strncpy_eq MAX_ARGS_LENGTH_def)
  ultimately show ?thesis by blast
qed

lemma exec_program_loads:
  assumes d: "read_dentry_by_name s com_buf = Some d"
    and F: "program_ok s (inode_num d) F" "program_ok (snd (create_pcb s)) (inode_num d) F"
    and k: "can_execute s" "free_pid (processes_flags s) = Some k" and a: "parse_args command i = Inr args"
  shows "\<exists>t. exec_program T command com_buf i s = Inr (EnterUser (entry_point F), t)
    \<and> (\<forall>j<length F. user_load T t (EXECUTE_START + of_nat j) = Some (F ! j))
    \<and> (\<forall>i<128. mem t (args_at (get_pcb (of_nat k)) + i) = (if \<exists>j\<le>i. args j = 0 then 0 else args i))"
proof -
  let ?p = "get_pcb (of_nat k)"
  obtain u where c: "create_pcb s = (Some ?p, u)" "pid (pcbs u ?p) = of_nat k"
    using k(2) by (simp add: create_pcb_eq new_block_def Let_def)
  have u: "program_ok u (inode_num d) F" using F(2) c(1) by simp
  have "exec_program T command com_buf i s = start_process T ?p (inode_num d) (entry_point F) args u"
    using d k(1) a program_read(1,2) [OF F(1)] c(1) by (simp add: exec_program_def Let_def)
  then show ?thesis
    using start_process_loads [OF u _ refl c(2), of T "entry_point F" args] k(2) by (simp add: free_pid_Some)
qed

section \<open>getargs and vidmap\<close>

text \<open>The user window belongs to process \<open>q\<close>.\<close>

definition window_of :: "tables \<Rightarrow> 'a paging_scheme \<Rightarrow> u32 \<Rightarrow> bool" where
  "window_of T s q \<longleftrightarrow> (\<forall>v. dir_index v = dir_index VIRTUAL_START \<longrightarrow>
     translate T s v = Some (frame_of q + (v AND 0x3FFFFF), True))"

lemma window_of_remap: "window_of T (remap VIRTUAL_START (frame_of q) s) q"
  by (simp add: window_of_def remap_inside frame_aligned)

text \<open>A block of user addresses inside the window.\<close>

definition in_window :: "u32 \<Rightarrow> nat \<Rightarrow> bool" where
  "in_window v n \<longleftrightarrow> 0x8000000 \<le> unat v \<and> unat v + n \<le> 0x8400000"

lemma in_window_address:
  assumes "in_window v n" and "i < n"
  shows "dir_index (v + of_nat i) = dir_index VIRTUAL_START"
    and "(v + of_nat i) AND 0x3FFFFF = (v AND 0x3FFFFF) + of_nat i"
proof -
  have b: "0x8000000 \<le> unat v" "unat v + i < 0x8400000" using assms by (auto simp: in_window_def)
  have u: "unat (v + of_nat i) = unat v + i"
    using b by (simp add: unat_word_ariths(1) unat_of_nat_small)
  have "unat (dir_index (v + of_nat i)) = 32" using b by (simp add: unat_dir_index u)
  moreover have "unat (dir_index VIRTUAL_START) = 32" by (simp add: unat_dir_index VIRTUAL_START_def)
  ultimately show "dir_index (v + of_nat i) = dir_index VIRTUAL_START" by (simp add: word_unat_eq_iff)
  have t: "w AND 0x3FFFFF = take_bit 22 w" for w :: u32
    by (simp add: take_bit_eq_mask mask_eq_exp_minus_1)
  define r where "r = unat v - 0x8000000"
  have r: "unat v = 0x8000000 + r" "r + i < 0x400000" using b by (simp_all add: r_def)
  have big: "x < 0x400000 \<Longrightarrow> (0x8000000 + x) mod 2 ^ 22 = x" for x :: nat
  proof -
    assume x: "x < 0x400000"
    have "(0x8000000 + x) mod 2 ^ 22 = (x + 32 * 2 ^ 22) mod 2 ^ 22" by (simp add: add.commute)
    also have "\<dots> = x mod 2 ^ 22" by (rule mod_mult_self1)
    also have "\<dots> = x" using x by simp
    finally show ?thesis .
  qed
  have "unat ((v + of_nat i) AND 0x3FFFFF) = r + i"
    unfolding t take_bit_eq_mod unat_mod_distrib using u r big [of "r + i"] by (simp add: add.assoc)
  moreover have "unat (v AND 0x3FFFFF) = r"
    unfolding t take_bit_eq_mod unat_mod_distrib using r big [of r] by simp
  then have "unat ((v AND 0x3FFFFF) + of_nat i) = r + i"
    using r(2) by (simp add: unat_word_ariths(1) unat_of_nat_small)
  ultimately show "(v + of_nat i) AND 0x3FFFFF = (v AND 0x3FFFFF) + of_nat i" by (simp only: word_unat_eq_iff)
qed

lemma window_translate:
  "window_of T s q \<Longrightarrow> in_window v n \<Longrightarrow> i < n \<Longrightarrow>
   translate T s (v + of_nat i) = Some (frame_of q + (v AND 0x3FFFFF) + of_nat i, True)"
  by (simp add: window_of_def in_window_address add.assoc)

lemma window_user_block:
  assumes "window_of T s q" and "in_window v (unat n)" and "n \<noteq> 0"
  shows "user_block T s v n = Some (frame_of q + (v AND 0x3FFFFF))"
proof -
  have "0 < unat n" using assms(3) by (simp add: unat_gt_0)
  then have "translate T s v = Some (frame_of q + (v AND 0x3FFFFF), True)"
    using window_translate [OF assms(1,2), of 0] by simp
  then show ?thesis
    using window_translate [OF assms(1,2)] by (auto simp: user_block_def list_all_iff)
qed

lemma getargs_copies:
  assumes q: "q < 6" and a: "a = args_at (get_pcb (of_nat q))" and d: "d = frame_of (of_nat q) + (buf AND 0x3FFFFF)"
    and w: "window_of T s (of_nat q)" "in_window buf (unat k)" and k: "k \<noteq> 0" "unat k \<le> 128"
  shows "user_block T s buf k = Some d"
    and "i < unat k \<Longrightarrow> user_load T (s\<lparr>mem := memcpy (mem s) d a k\<rparr>) (buf + of_nat i) = Some (mem s (a + of_nat i))"
proof -
  show "user_block T s buf k = Some d" unfolding d by (rule window_user_block [OF w k(1)])
  assume i: "i < unat k"
  have "unat k \<le> unat (d - a)" using frame_above_args [OF q, of buf] k(2) by (simp add: a d)
  then have f: "forward_ok d a (unat k)" using k(2) by (simp add: forward_ok_def)
  have "translate T (s\<lparr>mem := memcpy (mem s) d a k\<rparr>) (buf + of_nat i) = Some (d + of_nat i, True)"
    using window_translate [OF w i] by (simp add: translate_def d)
  then show "user_load T (s\<lparr>mem := memcpy (mem s) d a k\<rparr>) (buf + of_nat i) = Some (mem s (a + of_nat i))"
    using i k(2) by (simp add: user_load_def memcpy_blit [OF f] blit_def unat_of_nat_small)
qed

text \<open>The directory entry \<open>remap\<close> writes for process \<open>q\<close> gives it the window.\<close>

lemma window_of_entry:
  "tlb_ok s \<Longrightarrow> pageDir (pg s) (dir_index VIRTUAL_START) = frame_of q OR RW_FLAGS \<Longrightarrow> window_of T s q"
  by (simp add: window_of_def translate_def tlb_ok_def walk_big_page frame_aligned)

definition stored_word :: "u32 \<Rightarrow> u8 list" where
  "stored_word w = [ucast w, ucast (drop_bit 8 w), ucast (drop_bit 16 w), ucast (drop_bit 24 w)]"

lemma length_stored_word [simp]: "length (stored_word w) = 4"
  by (simp add: stored_word_def)

lemma vidmap_stores:
  assumes w: "pageDir (pg s) (dir_index VIRTUAL_START) = frame_of q OR RW_FLAGS" and v: "in_window scr 4"
    and u_def: "u = remapWithPageTable T VIRTUAL_END VIDEOMEM s" and d_def: "d = frame_of q + (scr AND 0x3FFFFF)"
  shows "user_store T scr (stored_word VIRTUAL_END) u =
      Inr (u\<lparr>mem := \<lambda>a. if unat (a - d) < 4 then stored_word VIRTUAL_END ! unat (a - d) else mem u a\<rparr>)"
    and "window_of T u q"
proof -
  have "dir_index VIRTUAL_START \<noteq> VIRTUAL_END div FOUR_MB" by (simp add: dir_index_def const_defs)
  then have "pageDir (pg u) (dir_index VIRTUAL_START) = frame_of q OR RW_FLAGS"
    using w by (simp add: u_def remapWithPageTable_def refresh_tbl_def Let_def)
  then show win: "window_of T u q" by (intro window_of_entry) (simp add: u_def)
  show "user_store T scr (stored_word VIRTUAL_END) u =
      Inr (u\<lparr>mem := \<lambda>a. if unat (a - d) < 4 then stored_word VIRTUAL_END ! unat (a - d) else mem u a\<rparr>)"
  proof -
    have "user_store T scr (stored_word VIRTUAL_END) u =
      Inr (u\<lparr>mem := \<lambda>a. if unat (a - d) < length (stored_word VIRTUAL_END)
          then stored_word VIRTUAL_END ! unat (a - d) else mem u a\<rparr>)"
      by (rule user_store_eq) (use window_translate [OF win v] in \<open>auto simp: d_def\<close>)
    then show ?thesis by (simp only: length_stored_word)
  qed
qed

lemma vidmap_range:
  "in_window scr 4 \<Longrightarrow> scr \<noteq> 0 \<and> \<not> sint scr < sint VIRTUAL_START \<and> \<not> sint scr > sint VIRTUAL_END"
proof -
  assume v: "in_window scr 4"
  then have "sint scr = int (unat scr)" by (intro sint_unat_small) (simp add: in_window_def)
  moreover have "sint VIRTUAL_START = 0x8000000" "sint VIRTUAL_END = 0x8400000"
    by (simp_all add: const_defs)
  moreover have "0x8000000 \<le> int (unat scr)" "int (unat scr) \<le> 0x8400000"
    using v unfolding in_window_def by linarith+
  moreover have "scr \<noteq> 0" using v by (auto simp: in_window_def)
  ultimately show ?thesis by linarith
qed

lemma vidmap_refuses:
  fixes s :: "'a paging_scheme"
  assumes "unat bad < 0x8000000 \<or> 0x8400000 < unat bad"
  shows "vidmap T bad s = Inr (- 1, s)"
proof (cases "unat bad < 2 ^ 31")
  case True
  then have "sint bad = int (unat bad)" by (rule sint_unat_small)
  moreover have "int (unat bad) < 0x8000000 \<or> 0x8400000 < int (unat bad)" using assms by linarith
  moreover have "sint VIRTUAL_START = 0x8000000" "sint VIRTUAL_END = 0x8400000"
    by (simp_all add: const_defs)
  ultimately have "sint bad < sint VIRTUAL_START \<or> sint bad > sint VIRTUAL_END" by linarith
  then show ?thesis by (auto simp: vidmap_def)
next
  case False
  have "sint bad < 0"
  proof (rule ccontr)
    assume "\<not> sint bad < 0"
    then have "unat bad = nat (sint bad)" by (intro unat_sint_nonneg) linarith
    moreover have "nat (sint bad) < 2 ^ 31" using sint_range_u32(2) [of bad] by (simp add: nat_less_iff)
    ultimately show False using False by linarith
  qed
  moreover have "sint VIRTUAL_START = 0x8000000" by (simp add: const_defs)
  ultimately have "sint bad < sint VIRTUAL_START" by linarith
  then show ?thesis by (auto simp: vidmap_def)
qed

lemma video_page:
  assumes "unat x < 4096"
  shows "dir_index (VIRTUAL_END + x) = dir_index VIRTUAL_END" "(VIRTUAL_END + x) AND 0xFFF = x"
    "table_index (VIRTUAL_END + x) = 0"
proof -
  have a: "unat (VIRTUAL_END + x) = 0x8400000 + unat x"
    using assms by (simp add: const_defs unat_word_ariths(1))
  have "unat (dir_index (VIRTUAL_END + x)) = 33" using assms by (simp add: unat_dir_index a)
  then show "dir_index (VIRTUAL_END + x) = dir_index VIRTUAL_END"
    by (simp add: word_unat_eq_iff dir_index_def VIRTUAL_END_def)
  have t: "w AND 0xFFF = take_bit 12 w" "w AND 0x3FF = take_bit 10 w" for w :: u32
    by (simp_all add: take_bit_eq_mask mask_eq_exp_minus_1)
  have "unat ((VIRTUAL_END + x) AND 0xFFF) = (unat x + 0x8400 * 2 ^ 12) mod 2 ^ 12"
    unfolding t unsigned_take_bit_eq by (simp add: take_bit_eq_mod a add.commute)
  also have "\<dots> = unat x mod 2 ^ 12" by (rule mod_mult_self1)
  also have "\<dots> = unat x" using assms by simp
  finally show "(VIRTUAL_END + x) AND 0xFFF = x" by (simp only: word_unat_eq_iff)
  have "unat (drop_bit 12 (VIRTUAL_END + x)) = 0x8400"
    using assms by (simp add: drop_bit_eq_div unat_div_distrib a)
  then have "unat (table_index (VIRTUAL_END + x)) = 0"
    unfolding table_index_def t unsigned_take_bit_eq by (simp add: take_bit_eq_mod)
  then show "table_index (VIRTUAL_END + x) = 0" by (simp add: unat_eq_0)
qed

section \<open>Claims\<close>


text \<open>An image whose only file is a program named \<open>shell\<close>.\<close>

definition tiny_program :: "u8 list" where
  "tiny_program = [0x7F, 0x45, 0x4C, 0x46] @ replicate 20 0 @ [0x00, 0x80, 0x04, 0x08]"

definition prog_image :: bytes where
  "prog_image a =
     (if unat (a - 0x502000) < 28 then tiny_program ! unat (a - 0x502000)
      else if a = 0x501000 then 28
      else if unat (a - 0x500040) < 5 then c_str ''shell'' (a - 0x500040) else tiny_image a)"

definition prog_kernel :: kernel where
  "prog_kernel = blank_kernel\<lparr>mem := prog_image\<rparr>"

text \<open>A state in whose memory that image is in place.\<close>

definition image_at :: "'a rofs_scheme \<Rightarrow> bool" where
  "image_at s \<longleftrightarrow> boot_block s = 0x500000 \<and> inodes s = 0x501000 \<and> data_blocks s = 0x502000
     \<and> (\<forall>a. 0x500000 \<le> unat a \<and> unat a < 0x503000 \<longrightarrow> mem s a = prog_image a)"

lemma image_atD:
  assumes "image_at s"
  shows "boot_block s = 0x500000" "inodes s = 0x501000" "data_blocks s = 0x502000"
    "0x500000 \<le> unat a \<Longrightarrow> unat a < 0x503000 \<Longrightarrow> mem s a = prog_image a"
  using assms by (simp_all add: image_at_def)

lemma image_program: "image_at s \<Longrightarrow> program_ok s 0 tiny_program"
proof -
  assume i: "image_at s"
  note fs = image_atD(1-3) [OF i] and m = image_atD(4) [OF i]
  have n: "num_inodes s = 1" "inode_length s (inode_at s 0) = 28"
    "data_block_num s (inode_at s 0) 0 = 0"
    by (simp_all add: num_inodes_def inode_length_def inode_at_def data_block_num_def m fs load32_def
        prog_image_def tiny_image_def BLOCK_SIZE_def)
  have "file_byte s (inode_at s 0) (of_nat k) = tiny_program ! k" if "k < 28" for k
  proof -
    have u: "unat (of_nat k :: u32) = k" using that by (simp add: unat_of_nat_small)
    have d: "drop_bit 12 (of_nat k :: u32) = 0" "(of_nat k :: u32) AND 0xFFF = of_nat k"
    proof -
      show "drop_bit 12 (of_nat k :: u32) = 0"
        using that u by (simp add: drop_bit_eq_div word_unat_eq_iff unat_div_distrib)
      have "(of_nat k :: u32) AND 0xFFF = take_bit 12 (of_nat k)"
        by (simp add: take_bit_eq_mask mask_eq_exp_minus_1)
      also have "\<dots> = of_nat k"
        using that u by (simp add: take_bit_eq_mod word_unat_eq_iff unat_mod_distrib)
      finally show "(of_nat k :: u32) AND 0xFFF = of_nat k" .
    qed
    have a: "unat (0x502000 + of_nat k :: u32) = 0x502000 + k"
      using that u by (simp add: unat_word_ariths(1))
    have "mem s (0x502000 + of_nat k) = prog_image (0x502000 + of_nat k)"
      by (rule m) (use that a in simp_all)
    then show ?thesis using that u d n(3) by (simp add: file_byte_def fs BLOCK_SIZE_def prog_image_def)
  qed
  then have "file_bytes s 0 = map (\<lambda>k. tiny_program ! k) [0..<28]"
    by (simp add: file_bytes_def n del: upt_rec_numeral)
  also have "\<dots> = tiny_program"
    by (rule nth_equalityI) (simp_all add: tiny_program_def)
  finally show ?thesis by (simp add: program_ok_def inode_ok_def n tiny_program_def)
qed

lemma prog_image_name:
  "prog_image 0x500040 = 115" "prog_image 0x500041 = 104" "prog_image 0x500042 = 101" "prog_image 0x500043 = 108"
  "prog_image 0x500044 = 108" "prog_image 0x500045 = 0"
  by (simp_all add: prog_image_def tiny_image_def c_str_def)

lemma image_dentry:
  "image_at s \<Longrightarrow> \<exists>d. read_dentry_by_name s (c_str ''shell'') = Some d \<and> inode_num d = 0"
proof -
  assume i: "image_at s"
  note fs = image_atD(1-3) [OF i] and m = image_atD(4) [OF i]
  have "num_dir_entries s = 1" "dentry_at s 0 = 0x500040"
    by (simp_all add: num_dir_entries_def dentry_at_def fs m load32_def prog_image_def tiny_image_def)
  moreover have "strncmp (c_str ''shell'') (view (mem s) 0x500040) FILE_NAME_LENGTH = 0"
    by (simp add: strncmp_def FILE_NAME_LENGTH_def c_str_def m prog_image_name strncmp_loop.simps [of _ _ _ 0]
        strncmp_loop.simps [of _ _ _ 1] strncmp_loop.simps [of _ _ _ 2] strncmp_loop.simps [of _ _ _ 3]
        strncmp_loop.simps [of _ _ _ 4] strncmp_loop.simps [of _ _ _ 5])
  ultimately have "read_dentry_by_name s (c_str ''shell'') = Some (load_dentry (mem s) 0x500040)"
    by (simp add: read_dentry_by_name_def dentry_scan.simps [of _ _ 0])
  moreover have "inode_num (load_dentry (mem s) 0x500040) = 0"
    by (simp add: load_dentry_def load32_def m prog_image_def tiny_image_def)
  ultimately show ?thesis by blast
qed

lemma image_create_pcb: "image_at s \<Longrightarrow> image_at (snd (create_pcb s))"
proof (cases "free_pid (processes_flags s)")
  case (Some k)
  assume i: "image_at s"
  have k: "(of_nat k :: u32) < 1024" "unat (of_nat k :: u32) = k" "k < 6"
    using Some by (simp_all add: free_pid_Some word_less_nat_alt unat_of_nat_small)
  have g: "unat (get_pcb (of_nat k)) = 0x800000 - 0x2000 * (k + 1)" using unat_get_pcb [OF k(1)] k(2) by simp
  have p: "unat (args_at (get_pcb (of_nat k))) = unat (get_pcb (of_nat k)) + 225"
    using g k(3) by (simp add: args_at_def unat_word_ariths(1))
  have far: "128 \<le> unat (a - args_at (get_pcb (of_nat k)))" if a: "0x500000 \<le> unat a" "unat a < 0x503000" for a
  proof -
    have "0x7F4000 \<le> unat (get_pcb (of_nat k))" "unat (get_pcb (of_nat k)) \<le> 0x7FE000" using g k(3) by simp_all
    then have "unat (a - args_at (get_pcb (of_nat k))) = 2 ^ 32 + unat a - unat (args_at (get_pcb (of_nat k)))"
      using a p by (simp add: unat_sub_if')
    then show ?thesis using a p \<open>unat (get_pcb (of_nat k)) \<le> 0x7FE000\<close> by simp
  qed
  then have "fill m (args_at (get_pcb (of_nat k))) 0 128 a = m a" if "0x500000 \<le> unat a" "unat a < 0x503000" for a m
    using far [OF that] by (simp add: fill_def)
  then show ?thesis using i Some by (simp add: image_at_def create_pcb_eq)
qed (simp add: create_pcb_eq)

lemma prog_kernel_image: "image_at prog_kernel"
  by (simp add: image_at_def prog_kernel_def blank_kernel_def rofs.defs tiny_fs_def init_rofs_def Let_def
      num_inodes_def load32_def tiny_image_def blank_paging_def paging.defs BLOCK_SIZE_def)

lemma prog_kernel_room: "free_pid (processes_flags prog_kernel) = Some 0" "can_execute prog_kernel"
proof -
  have "free_pid 0 = Some 0" by (simp add: free_pid_Some)
  then show "free_pid (processes_flags prog_kernel) = Some 0" by (simp add: prog_kernel_def)
  show "can_execute prog_kernel" by (simp add: can_execute_def MAX_PROCESSES_def prog_kernel_def blank_terminal_def upt_conv_Cons)
qed


text \<open>
  Claim C15. In process \<open>q\<close>, \<open>getargs\<close> gives user code the first \<open>nbytes\<close> bytes, and at most 128, of its
  stored arguments; without arguments, or with a null buffer, it fails and changes nothing.
\<close>

theorem getargs_correct:
  assumes "q < 6" and "get_current_pcb s = get_pcb (of_nat q)" and "window_of T s (of_nat q)"
    and "strlen (view (mem s) (args_at (get_pcb (of_nat q)))) = Some n"
    and "0 < nbytes" and "in_window buf (nat (min nbytes 128))"
  shows "getargs T 0 nbytes s = Some (Inr (- 1, s))
    \<and> (n = 0 \<longrightarrow> getargs T buf nbytes s = Some (Inr (- 1, s)))
    \<and> (n \<noteq> 0 \<longrightarrow> (\<exists>t. getargs T buf nbytes s = Some (Inr (0, t))
        \<and> (\<forall>i<nat (min nbytes 128). user_load T t (buf + of_nat i) =
             Some (mem s (args_at (get_pcb (of_nat q)) + of_nat i)))))"
proof -
  let ?k = "word_of_int (if nbytes > 128 then 128 else nbytes) :: u32"
  have m: "(if nbytes > 128 then 128 else nbytes) = min nbytes 128" by auto
  have k: "unat ?k = nat (min nbytes 128)"
    unfolding m using assms(5) by (intro unat_word_of_int_range) auto
  have nz: "?k \<noteq> 0" using k assms(5) by auto
  have "buf \<noteq> 0" using assms(6) by (auto simp: in_window_def)
  then show ?thesis
    using getargs_copies [OF assms(1) refl refl assms(3) _ nz, of buf] assms(2,4,6) nz k
    by (simp add: getargs_def Let_def)
qed

text \<open>Process 0 in its window, with the argument \<open>x\<close>.\<close>

definition window_kernel :: kernel where
  "window_kernel = remap VIRTUAL_START (frame_of 0) (blank_kernel\<lparr>mem := (\<lambda>_. 0)(0x7FE0E1 := 120)\<rparr>)"

lemma window_kernel_facts:
  "esp window_kernel = 0x7FFF00" "mem window_kernel = (\<lambda>_. 0)(0x7FE0E1 := 120)"
  "window_of T window_kernel 0" "get_current_pcb window_kernel = get_pcb 0"
proof -
  show "window_of T window_kernel 0" unfolding window_kernel_def by (rule window_of_remap)
qed (simp_all add: window_kernel_def remap_def refresh_tbl_def Let_def get_current_pcb_def PCB_MASK_def
    get_pcb_def PHYSICAL_START_def EIGHT_KB_BLOCK_def)

theorem getargs_correct_witness:
  "\<exists>t. getargs some_tables 0x8001000 4 window_kernel = Some (Inr (0, t))
     \<and> user_load some_tables t 0x8001000 = Some 120"
proof -
  have len: "strlen (view (mem window_kernel) (args_at (get_pcb (of_nat 0)))) = Some 1"
    by (rule strlen_cstr) (simp add: cstr_def window_kernel_facts args_at_def get_pcb_def const_defs)
  have "args_at (get_pcb 0) = 0x7FE0E1" by (simp add: args_at_def get_pcb_def const_defs)
  then show ?thesis
    using getargs_correct [OF _ _ _ len, where T = some_tables and nbytes = 4 and buf = "0x8001000"]
    by (force simp: window_kernel_facts in_window_def)
qed

text \<open>
  Claim C14. \<open>vidmap\<close>, called by process \<open>q\<close> with a place in its window, makes the page at \<open>VIRTUAL_END\<close> the
  video memory, open to user code, stores that address at the place and leaves the window with the
  process. A null pointer or one outside the program's window is refused.
\<close>

theorem vidmap_correct:
  assumes "tables_ok T" and "pageDir (pg s) (dir_index VIRTUAL_START) = frame_of q OR RW_FLAGS"
    and "in_window scr 4" and "unat x < 4096"
    and "unat bad < 0x8000000 \<or> 0x8400000 < unat bad"
  shows "(\<exists>t. vidmap T scr s = Inr (0, t)
      \<and> translate T t (VIRTUAL_END + x) = Some (VIDEOMEM + x, True)
      \<and> (\<forall>i<4. user_load T t (scr + of_nat i) = Some (stored_word VIRTUAL_END ! i))
      \<and> window_of T t q)
    \<and> vidmap T bad s = Inr (- 1, s)"
proof -
  define u where "u = remapWithPageTable T VIRTUAL_END VIDEOMEM s"
  define d where "d = frame_of q + (scr AND 0x3FFFFF)"
  define t where "t = u\<lparr>mem := \<lambda>a. if unat (a - d) < 4 then stored_word VIRTUAL_END ! unat (a - d) else mem u a\<rparr>"
  note st = vidmap_stores [OF assms(2,3) u_def d_def, folded t_def]
  have "vidmap T scr s = Inr (0, t)"
    using st(1) vidmap_range [OF assms(3)] by (simp add: vidmap_def Let_def u_def [symmetric] stored_word_def)
  moreover have same: "translate T t = translate T u" by (simp add: t_def translate_def fun_eq_iff)
  moreover have "translate T u (VIRTUAL_END + x) = Some (VIDEOMEM + x, True)"
  proof -
    show ?thesis
      unfolding u_def by (subst remapWithPageTable_inside [OF assms(1) _ video_page(1) [OF assms(4)]])
        (simp_all add: video_page [OF assms(4)] VIDEOMEM_def)
  qed
  moreover have "user_load T t (scr + of_nat i) = Some (stored_word VIRTUAL_END ! i)" if "i < 4" for i
    using window_translate [OF st(2) assms(3) that] that
    by (simp add: user_load_def same d_def [symmetric]) (simp add: t_def unat_of_nat_small)
  moreover have "window_of T t q" using st(2) by (simp add: window_of_def same)
  moreover have "vidmap T bad s = Inr (- 1, s)"
    by (rule vidmap_refuses [OF assms(5)])
  ultimately show ?thesis by auto
qed

theorem vidmap_correct_witness:
  "\<exists>t. vidmap some_tables 0x8001000 window_kernel = Inr (0, t)
     \<and> translate some_tables t 0x8400010 = Some (0xB8010, True)"
proof -
  have "pageDir (pg window_kernel) (dir_index VIRTUAL_START) = frame_of 0 OR RW_FLAGS"
    by (simp add: window_kernel_def remap_def refresh_tbl_def Let_def dir_index_def const_defs)
  then show ?thesis
    using vidmap_correct [OF some_tables_ok, where s = window_kernel and q = 0 and scr = "0x8001000" and x = "0x10" and bad = 1]
    by (auto simp: in_window_def VIRTUAL_END_def VIDEOMEM_def)
qed

end
