(* ===== verification/Procs.thy ===== *)
theory Procs
  imports Exec
begin

text \<open>
  What the process calls of \<^verbatim>\<open>syscalls.c\<close> and the terminal calls of \<^verbatim>\<open>terminal.c\<close> do to the set of
  processes, stated on an abstract state: each terminal has a stack of processes. The relation
  \<open>proc_rel\<close> says how the counters, the bit map of process numbers and the links between control
  blocks represent the stacks; \<open>execute\<close> pushes, \<open>halt\<close> pops, and every other system call leaves the
  stacks as they are.
\<close>

section \<open>Processes as stacks\<close>

text \<open>
  The abstract view: each terminal runs a stack of processes, the running one on top of the one that
  executed it; one terminal is the current one. \<open>execute\<close> pushes the least free process number on the
  current stack, \<open>halt\<close> pops it.
\<close>

record procs =
  current :: int
  stacks :: "int \<Rightarrow> nat list"

definition all_procs :: "procs \<Rightarrow> nat list" where
  "all_procs A = stacks A 0 @ stacks A 1 @ stacks A 2"

definition top_stack :: "procs \<Rightarrow> nat list" where
  "top_stack A = stacks A (current A - 1)"

definition set_top :: "nat list \<Rightarrow> procs \<Rightarrow> procs" where
  "set_top ps A = A\<lparr>stacks := (stacks A)(current A - 1 := ps)\<rparr>"

abbreviation pcb_of :: "'a kernel_scheme \<Rightarrow> nat \<Rightarrow> pcb_t" where
  "pcb_of s k \<equiv> pcbs s (get_pcb (of_nat k))"

text \<open>A stack pointer within the kernel stack of process \<open>k\<close>.\<close>

definition on_stack :: "nat \<Rightarrow> u32 \<Rightarrow> bool" where
  "on_stack k e \<longleftrightarrow> e - get_pcb (of_nat k) < EIGHT_KB_BLOCK"

text \<open>
  The control blocks of a stack of processes: each names its parent and the place on the parent's
  kernel stack to return to; the bottom one is its own parent.
\<close>

fun linked :: "(nat \<Rightarrow> pcb_t) \<Rightarrow> nat list \<Rightarrow> bool" where
  "linked b [] \<longleftrightarrow> True"
| "linked b [k] \<longleftrightarrow> pid (b k) = of_nat k \<and> parent_pid (b k) = of_nat k"
| "linked b (k # j # ks) \<longleftrightarrow> pid (b k) = of_nat k \<and> parent_pid (b k) = of_nat j
     \<and> on_stack j (parent_esp (b k)) \<and> linked b (j # ks)"

definition terms_ok :: "procs \<Rightarrow> (int \<Rightarrow> terminal_t) \<Rightarrow> bool" where
  "terms_ok A ts \<longleftrightarrow> (\<forall>t\<in>{0, 1, 2}. num_processes (ts t) = int (length (stacks A t))
     \<and> (stacks A t \<noteq> [] \<longrightarrow> term_pid (ts t) = of_nat (hd (stacks A t))))"

definition proc_rel :: "procs \<Rightarrow> 'a kernel_scheme \<Rightarrow> bool" where
  "proc_rel A s \<longleftrightarrow> current A = term_cur s \<and> current A \<in> {1, 2, 3} \<and> terms_ok A (terminal s)
     \<and> distinct (all_procs A) \<and> set (all_procs A) \<subseteq> {..<6}
     \<and> (\<forall>k. bit (processes_flags s) k \<longleftrightarrow> k \<in> set (all_procs A))
     \<and> (\<forall>t\<in>{0, 1, 2}. linked (pcb_of s) (stacks A t))"

lemma current_cases: "current A \<in> {1, 2, 3} \<Longrightarrow> current A - 1 \<in> {0, 1, 2}"
  by auto

lemma top_in_all: "current A \<in> {1, 2, 3} \<Longrightarrow> set (top_stack A) \<subseteq> set (all_procs A)"
  by (auto simp: top_stack_def all_procs_def)

lemma stacks_in_all: "t \<in> {0, 1, 2} \<Longrightarrow> set (stacks A t) \<subseteq> set (all_procs A)"
  by (auto simp: all_procs_def)

lemma linked_cong:
  "(\<And>k. k \<in> set ks \<Longrightarrow> pid (b k) = pid (c k) \<and> parent_pid (b k) = parent_pid (c k) \<and>
      parent_esp (b k) = parent_esp (c k)) \<Longrightarrow> linked b ks = linked c ks"
  by (induction b ks rule: linked.induct) auto

text \<open>What the relation looks at.\<close>

definition proc_same :: "'a kernel_scheme \<Rightarrow> 'a kernel_scheme \<Rightarrow> bool" where
  "proc_same s t \<longleftrightarrow> term_cur t = term_cur s \<and> processes_flags t = processes_flags s
     \<and> (\<forall>i. num_processes (terminal t i) = num_processes (terminal s i) \<and> term_pid (terminal t i) = term_pid (terminal s i))
     \<and> (\<forall>p. pid (pcbs t p) = pid (pcbs s p) \<and> parent_pid (pcbs t p) = parent_pid (pcbs s p)
          \<and> parent_esp (pcbs t p) = parent_esp (pcbs s p) \<and> parent_ebp (pcbs t p) = parent_ebp (pcbs s p))"

lemma proc_same_refl [simp]: "proc_same s s"
  by (simp add: proc_same_def)

lemma proc_same_trans: "proc_same s t \<Longrightarrow> proc_same t u \<Longrightarrow> proc_same s u"
  by (simp add: proc_same_def)

lemma proc_rel_same: "proc_rel A s \<Longrightarrow> proc_same s t \<Longrightarrow> proc_rel A t"
proof -
  assume r: "proc_rel A s" and s: "proc_same s t"
  have "linked (pcb_of t) ks = linked (pcb_of s) ks" for ks
    by (rule linked_cong) (use s in \<open>simp add: proc_same_def\<close>)
  moreover have "terms_ok A (terminal t) = terms_ok A (terminal s)"
    using s by (simp add: terms_ok_def proc_same_def)
  ultimately show ?thesis using r s unfolding proc_rel_def proc_same_def by metis
qed

lemma proc_same_con: "con_step s t \<Longrightarrow> proc_same s t"
  by (auto simp: con_step_def proc_same_def)

lemma same_terminal_procs:
  "same_terminal t u \<Longrightarrow> num_processes u = num_processes t \<and> term_pid u = term_pid t"
  by (auto simp: same_terminal_def)

lemma term_fields_kb:
  "vid_mem (t\<lparr>term_key_buffer := kb\<rparr>) = vid_mem t" "init (t\<lparr>term_key_buffer := kb\<rparr>) = init t"
  "term_esp (t\<lparr>term_key_buffer := kb\<rparr>) = term_esp t"
  by simp_all

lemma proc_same_drv: "drv_step fd s t \<Longrightarrow> proc_same s t"
  unfolding drv_step_def proc_same_def proc_view_def using same_terminal_procs by fastforce

text \<open>And what else of the kernel's state the calls on files and the console leave as it is.\<close>

definition term_same :: "'a kernel_scheme \<Rightarrow> 'a kernel_scheme \<Rightarrow> bool" where
  "term_same s t \<longleftrightarrow> (\<forall>i. vid_mem (terminal t i) = vid_mem (terminal s i) \<and> init (terminal t i) = init (terminal s i)
     \<and> term_esp (terminal t i) = term_esp (terminal s i))"

definition kern_same :: "'a kernel_scheme \<Rightarrow> 'a kernel_scheme \<Rightarrow> bool" where
  "kern_same s t \<longleftrightarrow> proc_same s t \<and> term_same s t \<and> esp t = esp s \<and> tss_esp0 t = tss_esp0 s
     \<and> walked t = walked s \<and> pg t = pg s"

lemma kern_same_refl [simp]: "kern_same s s"
  by (simp add: kern_same_def term_same_def)

lemma kern_same_trans: "kern_same s t \<Longrightarrow> kern_same t u \<Longrightarrow> kern_same s u"
  using proc_same_trans [of s t u] by (simp add: kern_same_def term_same_def)

lemma kern_same_con: "con_step s t \<Longrightarrow> kern_same s t"
  using proc_same_con [of s t] by (auto simp: con_step_def kern_same_def term_same_def)

lemma kern_same_drv: "drv_step fd s t \<Longrightarrow> kern_same s t"
proof -
  assume d: "drv_step fd s t"
  then have "same_terminal (terminal s i) (terminal t i)" for i by (simp add: drv_step_def)
  then have "term_same s t" unfolding term_same_def same_terminal_def by (metis term_fields_kb)
  then show ?thesis using d proc_same_drv [OF d] by (simp add: kern_same_def drv_step_def proc_view_def)
qed

section \<open>A new process is a push\<close>

lemma can_execute_eq:
  "can_execute s \<longleftrightarrow> num_processes (terminal s 0) + num_processes (terminal s 1) + num_processes (terminal s 2) < 6"
proof -
  have "[0..<3] = [0, 1, 2 :: nat]" by (simp add: upt_conv_Cons)
  then show ?thesis by (simp add: can_execute_def MAX_PROCESSES_def)
qed

lemma free_number: "distinct xs \<Longrightarrow> set xs \<subseteq> {..<6} \<Longrightarrow> length xs < 6 \<longleftrightarrow> (\<exists>k<6. k \<notin> set xs)" for xs :: "nat list"
proof -
  assume d: "distinct xs" "set xs \<subseteq> {..<6}"
  have "length xs = 6 \<longleftrightarrow> set xs = {..<6}"
  proof
    assume "length xs = 6"
    then have "card (set xs) = card {..<6 :: nat}" using d(1) by (simp add: distinct_card)
    then show "set xs = {..<6}" using d(2) by (intro card_subset_eq) simp_all
  next
    assume "set xs = {..<6}"
    then have "card (set xs) = 6" by simp
    then show "length xs = 6" using d(1) by (simp add: distinct_card)
  qed
  moreover have "length xs \<le> 6"
    using card_mono [OF _ d(2)] d(1) by (simp add: distinct_card)
  ultimately show ?thesis using d(2) by auto
qed

lemma proc_relD:
  assumes "proc_rel A s"
  shows "current A = term_cur s" "current A \<in> {1, 2, 3}" "distinct (all_procs A)" "set (all_procs A) \<subseteq> {..<6}"
    and "bit (processes_flags s) k \<longleftrightarrow> k \<in> set (all_procs A)"
    and "num_processes (terminal s (current A - 1)) = int (length (top_stack A))"
    and "top_stack A \<noteq> [] \<Longrightarrow> term_pid (terminal s (current A - 1)) = of_nat (hd (top_stack A))"
    and "linked (pcb_of s) (top_stack A)"
    and "t \<in> {0, 1, 2} \<Longrightarrow> linked (pcb_of s) (stacks A t)"
proof -
  show c: "current A \<in> {1, 2, 3}" using assms unfolding proc_rel_def by blast
  note i = current_cases [OF c]
  show "num_processes (terminal s (current A - 1)) = int (length (top_stack A))"
    "top_stack A \<noteq> [] \<Longrightarrow> term_pid (terminal s (current A - 1)) = of_nat (hd (top_stack A))"
    "linked (pcb_of s) (top_stack A)"
    using assms i unfolding proc_rel_def terms_ok_def top_stack_def by blast+
  show "t \<in> {0, 1, 2} \<Longrightarrow> linked (pcb_of s) (stacks A t)"
    using assms unfolding proc_rel_def by blast
qed (use assms in \<open>unfold proc_rel_def, blast+\<close>)

lemma can_execute_rel: "proc_rel A s \<Longrightarrow> can_execute s \<longleftrightarrow> free_pid (processes_flags s) \<noteq> None"
proof -
  assume r: "proc_rel A s"
  have "can_execute s \<longleftrightarrow> length (all_procs A) < 6"
  proof -
    have "terms_ok A (terminal s)" using r unfolding proc_rel_def by blast
    then show ?thesis by (auto simp: can_execute_eq terms_ok_def all_procs_def)
  qed
  also have "\<dots> \<longleftrightarrow> (\<exists>k<6. \<not> bit (processes_flags s) k)"
    using free_number proc_relD(3,4,5) [OF r] by simp
  also have "\<dots> \<longleftrightarrow> free_pid (processes_flags s) \<noteq> None"
    using free_pid_None [of "processes_flags s"] by auto
  finally show ?thesis .
qed

lemma pcb_of_other:
  "k < 6 \<Longrightarrow> j < 6 \<Longrightarrow> j \<noteq> k \<Longrightarrow> get_pcb (of_nat j) \<noteq> get_pcb (of_nat k)"
proof -
  assume k: "k < 6" "j < 6" "j \<noteq> k"
  then have "unat (of_nat j :: u32) = j" "unat (of_nat k :: u32) = k" by (simp_all add: unat_of_nat_small)
  then have "(of_nat j :: u32) < 6" "(of_nat k :: u32) < 6" "(of_nat j :: u32) \<noteq> of_nat k"
    using k by (auto simp: word_less_nat_alt)
  then show ?thesis using get_pcb_inj by blast
qed

lemma stacks_set_top:
  "t \<noteq> current A - 1 \<Longrightarrow> stacks (set_top ps A) t = stacks A t"
  "stacks (set_top ps A) (current A - 1) = ps" "current (set_top ps A) = current A"
  "top_stack (set_top ps A) = ps"
  by (simp_all add: set_top_def top_stack_def)

lemma set_all_set_top:
  assumes "current A \<in> {1, 2, 3}" and "distinct (all_procs A)"
  shows "set (all_procs (set_top (k # top_stack A) A)) = insert k (set (all_procs A))"
    and "k \<notin> set (all_procs A) \<Longrightarrow> distinct (all_procs (set_top (k # top_stack A) A))"
    and "top_stack A = p # ps \<Longrightarrow> set (all_procs (set_top ps A)) = set (all_procs A) - {p}"
    and "top_stack A = p # ps \<Longrightarrow> distinct (all_procs (set_top ps A))"
  using assms by (auto simp: all_procs_def set_top_def top_stack_def)

lemma push_rel:
  assumes r: "proc_rel A s" and k: "k < 6" "k \<notin> set (all_procs A)"
    and e: "top_stack A \<noteq> [] \<Longrightarrow> on_stack (hd (top_stack A)) (parent_esp b)"
    and b: "pid b = of_nat k" "parent_pid b = of_nat (if top_stack A = [] then k else hd (top_stack A))"
    and x: "num_processes x = num_processes (terminal s (term_cur s - 1)) + 1" "term_pid x = of_nat k"
    and t: "term_cur t = term_cur s" "processes_flags t = processes_flags s OR push_bit k 1"
      "terminal t = (terminal s)(term_cur s - 1 := x)" "pcbs t = (pcbs s)(get_pcb (of_nat k) := b)"
  shows "proc_rel (set_top (k # top_stack A) A) t"
proof -
  note c = proc_relD(1,2,3,4) [OF r]
  let ?A = "set_top (k # top_stack A) A"
  have same: "linked (pcb_of t) ks = linked (pcb_of s) ks" if "set ks \<subseteq> set (all_procs A)" for ks
  proof (rule linked_cong)
    fix j assume "j \<in> set ks"
    then have "j < 6" "j \<noteq> k" using that c(4) k(2) by auto
    then have "pcb_of t j = pcb_of s j" using pcb_of_other [OF k(1)] by (simp add: t(4))
    then show "pid (pcb_of t j) = pid (pcb_of s j) \<and> parent_pid (pcb_of t j) = parent_pid (pcb_of s j) \<and>
        parent_esp (pcb_of t j) = parent_esp (pcb_of s j)" by simp
  qed
  have new: "pcb_of t k = b" by (simp add: t(4))
  have "linked (pcb_of t) (top_stack A)"
    using same [OF top_in_all [OF c(2)]] proc_relD(8) [OF r] by simp
  then have top: "linked (pcb_of t) (k # top_stack A)"
    using b e new by (cases "top_stack A") simp_all
  have "linked (pcb_of t) (stacks ?A i)" if "i \<in> {0, 1, 2}" for i
  proof (cases "i = current A - 1")
    case True
    then show ?thesis using top by (simp add: stacks_set_top)
  next
    case False
    then show ?thesis
      using same [OF stacks_in_all [OF that]] proc_relD(9) [OF r that] by (simp add: stacks_set_top)
  qed
  moreover have "terms_ok ?A (terminal t)"
    using r x proc_relD(6) [OF r] unfolding proc_rel_def terms_ok_def
    by (auto simp: t(3) set_top_def c(1) top_stack_def)
  moreover have "bit (processes_flags t) j \<longleftrightarrow> j \<in> set (all_procs ?A)" for j
    using k proc_relD(5) [OF r, of j] set_all_set_top(1) [OF c(2,3), of k]
    by (auto simp: t(2) bit_simps)
  moreover have "current ?A = term_cur t" using c(1) t(1) by (simp add: stacks_set_top)
  moreover have "set (all_procs ?A) \<subseteq> {..<6}" "distinct (all_procs ?A)"
    using set_all_set_top(1,2) [OF c(2,3), of k] c(4) k by auto
  ultimately show ?thesis
    using c(2) unfolding proc_rel_def by (simp add: stacks_set_top)
qed

section \<open>execute refines push\<close>

lemma user_store_shape: "user_store T v cs s = Inr t \<Longrightarrow> \<exists>m. t = s\<lparr>mem := m\<rparr>"
proof (induction cs arbitrary: v s)
  case (Cons c cs)
  then obtain p u where "translate T s v = Some (p, u)" "user_store T (v + 1) cs (s\<lparr>mem := (mem s)(p := c)\<rparr>) = Inr t"
    by (auto split: option.splits)
  then show ?case using Cons.IH [of "v + 1" "s\<lparr>mem := (mem s)(p := c)\<rparr>"] by auto
next
  case Nil
  then show ?case by (intro exI [of _ "mem t"]) simp
qed

lemma start_process_fields:
  assumes "start_process T p node com_start arg_buf s = Inr (r, t)"
  shows "r = EnterUser com_start" "term_cur t = term_cur s" "processes_flags t = processes_flags s"
    "terminal t = (terminal s)(term_cur s - 1 := (terminal s (term_cur s - 1))
       \<lparr>num_processes := num_processes (terminal s (term_cur s - 1)) + 1, term_pid := pid (pcbs s p)\<rparr>)"
    "pcbs t = (pcbs s)(p := (pcbs s p)\<lparr>parent_ebp := ebp s, parent_esp := esp s\<rparr>)"
    "tss_esp0 t = kernel_stack (pid (pcbs s p))" "intr t"
    "walked t = walked (remap VIRTUAL_START (frame_of (ucast (pid (pcbs s p)))) s)" "tlb_ok t"
proof -
  let ?t = "term_cur s - 1"
  let ?x = "(terminal s ?t)\<lparr>num_processes := num_processes (terminal s ?t) + 1, term_pid := pid (pcbs s p)\<rparr>"
  let ?b = "(pcbs s p)\<lparr>parent_ebp := ebp s, parent_esp := esp s\<rparr>"
  let ?u = "remap VIRTUAL_START (frame_of (ucast (pid (pcbs s p)))) (s\<lparr>terminal := (terminal s)(?t := ?x), pcbs := (pcbs s)(p := ?b)\<rparr>)"
  obtain n b where nb: "read_data ?u node 0 (\<lambda>_. 0) FOUR_MB_BLOCK = (n, b)" by fastforce
  have "\<exists>v. user_store T EXECUTE_START (map (\<lambda>i. b (of_nat i)) [0..<nat n]) ?u = Inr v \<and>
      r = EnterUser com_start \<and>
      t = sti (v\<lparr>tss_ss0 := KERNEL_DS, tss_esp0 := kernel_stack (pid (pcbs v p)),
        mem := place (args_at p) (strncpy (view (mem v) (args_at p)) arg_buf MAX_ARGS_LENGTH)\<rparr>)"
    using assms nb by (auto simp: start_process_def Let_def frame_of_def split: sum.splits)
  then obtain m where "r = EnterUser com_start"
    "t = sti (?u\<lparr>mem := m, tss_ss0 := KERNEL_DS, tss_esp0 := kernel_stack (pid (pcbs ?u p)),
        mem := place (args_at p) (strncpy (view m (args_at p)) arg_buf MAX_ARGS_LENGTH)\<rparr>)"
    using user_store_shape by fastforce
  then show "r = EnterUser com_start" "term_cur t = term_cur s" "processes_flags t = processes_flags s"
    "terminal t = (terminal s)(?t := ?x)" "pcbs t = (pcbs s)(p := ?b)"
    "tss_esp0 t = kernel_stack (pid (pcbs s p))" "intr t"
    "walked t = walked (remap VIRTUAL_START (frame_of (ucast (pid (pcbs s p)))) s)" "tlb_ok t"
    by (simp_all add: tlb_ok_def remap_def refresh_tbl_def Let_def sti_def)
qed

lemma new_block_fields:
  "pid (new_block k s) = of_nat k"
  "parent_pid (new_block k s) = (if num_processes (terminal s (term_cur s - 1)) = 0 then of_nat k
     else ucast (term_pid (terminal s (term_cur s - 1))))"
  by (simp_all add: new_block_def Let_def)

text \<open>How \<open>exec_program\<close> ends: refused with no process touched, or a new process is started.\<close>

lemma exec_program_cases:
  assumes "exec_program T command com_buf i s = Inr (r, t)"
  obtains (refused) n where "r = Returned n" "con_step s t"
  | (full) n where "r = Returned n" "free_pid (processes_flags s) = None" "t = s" "can_execute s"
  | (started) d k args where "can_execute s" "read_dentry_by_name s com_buf = Some d"
      "free_pid (processes_flags s) = Some k" "parse_args command i = Inr args"
      "start_process T (get_pcb (of_nat k)) (inode_num d)
         (load32 (snd (read_data s (inode_num d) 24 (snd (read_data s (inode_num d) 0 (\<lambda>_. 0) MAGIC_SIZE)) MAGIC_SIZE)) 0)
         args
         (s\<lparr>processes_flags := processes_flags s OR push_bit k 1,
            pcbs := (pcbs s)(get_pcb (of_nat k) := new_block k s),
            mem := fill (mem s) (args_at (get_pcb (of_nat k))) 0 128\<rparr>) = Inr (r, t)"
proof (cases "read_dentry_by_name s com_buf")
  case None
  then show ?thesis using assms refused [of "- 1"] con_step_refl [of s] by (simp add: exec_program_def)
next
  case (Some d)
  let ?buf = "snd (read_data s (inode_num d) 0 (\<lambda>_. 0) MAGIC_SIZE)"
  consider "\<not> elf_magic ?buf" | "elf_magic ?buf" "\<not> can_execute s"
    | "elf_magic ?buf" "can_execute s" "free_pid (processes_flags s) = None"
    | k where "elf_magic ?buf" "can_execute s" "free_pid (processes_flags s) = Some k" by blast
  then show ?thesis
  proof cases
    case 1
    then show ?thesis using assms Some refused [of "- 1"] con_step_refl [of s] by (simp add: exec_program_def)
  next
    case 2
    have "con_step s (printk ''Maximum number of processes reached\<newline>'' s)"
      by (rule con_step_printk) simp
    then show ?thesis using 2 assms Some refused [of 0] by (simp add: exec_program_def)
  next
    case 3
    then show ?thesis using assms Some full [of "- 1"]
      by (auto simp: exec_program_def create_pcb_eq Let_def split: sum.splits)
  next
    case 4
    obtain args where "parse_args command i = Inr args"
      using 4 assms Some by (auto simp: exec_program_def Let_def split: sum.splits)
    then show ?thesis using 4 assms Some started [of d k args]
      by (simp add: exec_program_def Let_def create_pcb_eq)
  qed
qed

lemma exec_program_rel:
  assumes r: "proc_rel A s" and e: "top_stack A \<noteq> [] \<Longrightarrow> on_stack (hd (top_stack A)) (esp s)"
    and x: "exec_program T command com_buf i s = Inr (res, t)"
  shows "(\<exists>n. res = Returned n) \<and> kern_same s t \<or>
    (\<exists>eip k. res = EnterUser eip \<and> free_pid (processes_flags s) = Some k \<and> proc_rel (set_top (k # top_stack A) A) t
       \<and> tss_esp0 t = kernel_stack (of_nat k) \<and> intr t
       \<and> walked t = walked (remap VIRTUAL_START (frame_of (of_nat k)) s) \<and> tlb_ok t \<and> term_same s t)"
  using x
proof (cases rule: exec_program_cases)
  case (refused n)
  then show ?thesis using kern_same_con by blast
next
  case (full n)
  then show ?thesis using kern_same_refl by blast
next
  case (started d k args)
  let ?s = "s\<lparr>processes_flags := processes_flags s OR push_bit k 1,
      pcbs := (pcbs s)(get_pcb (of_nat k) := new_block k s),
      mem := fill (mem s) (args_at (get_pcb (of_nat k))) 0 128\<rparr>"
  note f = start_process_fields [OF started(5)]
  have k: "k < 6" "k \<notin> set (all_procs A)"
    using started(3) proc_relD(5) [OF r, of k] by (auto simp: free_pid_Some)
  have hd6: "top_stack A \<noteq> [] \<Longrightarrow> hd (top_stack A) < 256"
    using top_in_all [OF proc_relD(2) [OF r]] proc_relD(4) [OF r] by (cases "top_stack A") auto
  have "proc_rel (set_top (k # top_stack A) A) t"
    by (rule push_rel [OF r k, where b = "(new_block k s)\<lparr>parent_ebp := ebp s, parent_esp := esp s\<rparr>"
          and x = "(terminal s (term_cur s - 1))\<lparr>num_processes := num_processes (terminal s (term_cur s - 1)) + 1,
            term_pid := of_nat k\<rparr>"])
      (use e f hd6 proc_relD(1,6,7) [OF r] in \<open>auto simp: new_block_fields ucast_small_pid\<close>)
  moreover have "tss_esp0 t = kernel_stack (of_nat k)" "intr t"
    using f by (simp_all add: new_block_fields)
  moreover have "walked t = walked (remap VIRTUAL_START (frame_of (of_nat k)) s)"
    using f(8) k(1) by (simp add: new_block_fields ucast_small_pid remap_def refresh_tbl_def Let_def)
  moreover have "tlb_ok t" "term_same s t" using f(4,9) by (simp_all add: term_same_def)
  ultimately show ?thesis using f(1) started(3) by blast
qed

section \<open>halt refines pop\<close>

lemma close_all_step:
  fixes s :: "'a kernel_scheme"
  shows "kern_same s (close_all dev s)"
proof -
  define step where "step = (\<lambda>i (s :: 'a kernel_scheme). let f = files (pcbs s (get_current_pcb s)) i
      in if is_open f then snd (call_close (op_close (fileops f)) dev (int i) s) else s)"
  have one: "kern_same s (step i s)" for i and s :: "'a kernel_scheme"
    using kern_same_drv [OF ops.close_ok [where fd = "int i" and s = s and dev = dev
          and ops = "fileops (files (pcbs s (get_current_pcb s)) i)"]]
    by (simp add: step_def Let_def)
  have "kern_same s (fold step is s)" for "is"
  proof (induction "is" arbitrary: s)
    case (Cons i js)
    then show ?case using one [of s i] kern_same_trans by (metis fold_simps(2))
  qed simp
  then show ?thesis by (simp add: close_all_def step_def)
qed

lemma linked_tail: "linked b (p # ps) \<Longrightarrow> linked b ps"
  by (cases ps) simp_all

lemma pop_rel:
  assumes r: "proc_rel A s" and top: "top_stack A = p # ps"
    and x: "num_processes x = num_processes (terminal s (term_cur s - 1)) - 1"
      "ps \<noteq> [] \<Longrightarrow> term_pid x = of_nat (hd ps)"
    and t: "term_cur t = term_cur s" "processes_flags t = processes_flags s AND NOT (push_bit p 1)"
      "terminal t = (terminal s)(term_cur s - 1 := x)"
      "\<And>k. pid (pcb_of t k) = pid (pcb_of s k) \<and> parent_pid (pcb_of t k) = parent_pid (pcb_of s k) \<and>
        parent_esp (pcb_of t k) = parent_esp (pcb_of s k)"
  shows "proc_rel (set_top ps A) t"
proof -
  note c = proc_relD(1,2,3,4) [OF r]
  let ?A = "set_top ps A"
  have same: "linked (pcb_of t) ks = linked (pcb_of s) ks" for ks
    by (rule linked_cong) (rule t(4))
  have "linked (pcb_of t) (stacks ?A i)" if "i \<in> {0, 1, 2}" for i
    using proc_relD(9) [OF r that] linked_tail [of "pcb_of s" p ps] proc_relD(8) [OF r]
    by (cases "i = current A - 1") (simp_all add: stacks_set_top same top)
  moreover have "terms_ok ?A (terminal t)"
  proof -
    have "terms_ok A (terminal s)" using r unfolding proc_rel_def by blast
    have here: "num_processes x = int (length ps) \<and> (ps \<noteq> [] \<longrightarrow> term_pid x = of_nat (hd ps))"
      using x proc_relD(6) [OF r] by (simp add: c(1) top)
    show ?thesis unfolding terms_ok_def
    proof
      fix i :: int assume i: "i \<in> {0, 1, 2}"
      show "num_processes (terminal t i) = int (length (stacks ?A i)) \<and>
          (stacks ?A i \<noteq> [] \<longrightarrow> term_pid (terminal t i) = of_nat (hd (stacks ?A i)))"
        using here \<open>terms_ok A (terminal s)\<close> [unfolded terms_ok_def, rule_format, OF i]
        by (cases "i = current A - 1") (simp_all add: stacks_set_top t(3) c(1) [symmetric])
    qed
  qed
  moreover have "bit (processes_flags t) j \<longleftrightarrow> j \<in> set (all_procs ?A)" for j
  proof -
    have "p < 6" using top top_in_all [OF c(2)] c(4) by auto
    then show ?thesis
      using proc_relD(5) [OF r, of j] set_all_set_top(3) [OF c(2,3) top] c(4)
      by (auto simp: t(2) bit_simps)
  qed
  moreover have "current ?A = term_cur t" using c(1) t(1) by (simp add: stacks_set_top)
  moreover have "set (all_procs ?A) \<subseteq> {..<6}" "distinct (all_procs ?A)"
    using set_all_set_top(3,4) [OF c(2,3) top] c(4) by auto
  ultimately show ?thesis
    using c(2) unfolding proc_rel_def by (simp add: stacks_set_top)
qed

lemma on_stack_pcb: "k < 6 \<Longrightarrow> on_stack k (esp s) \<Longrightarrow> get_current_pcb s = get_pcb (of_nat k)"
  unfolding on_stack_def by (rule get_current_pcb_stack) (simp_all add: word_less_nat_alt unat_of_nat_small)

text \<open>The state in which \<open>halt\<close> decides how to go on.\<close>

definition halted :: "device \<Rightarrow> 'a kernel_scheme \<Rightarrow> 'a kernel_scheme" where
  "halted dev s =
     (let s = cli s;
          p = get_current_pcb s;
          s = close_all dev s;
          s = upd_terminal (term_cur s - 1) (\<lambda>t. t\<lparr>num_processes := num_processes t - 1\<rparr>) s
      in s\<lparr>processes_flags := processes_flags s AND NOT (push_bit (unat (pid (pcbs s p))) 1)\<rparr>)"

lemma halt_halted:
  "halt T dev status s = or_shell T (num_processes (terminal (halted dev s) (term_cur (halted dev s) - 1)) = 0)
     (\<lambda>u. or_shell T (processes_flags u = 0)
        (\<lambda>u. Inr (resume_parent (get_current_pcb (cli s)) status u)) u) (halted dev s)"
  by (simp add: halt_def halted_def Let_def)

lemma cli_same: "kern_same s (cli s)" "get_current_pcb (cli s) = get_current_pcb s"
  by (simp_all add: kern_same_def term_same_def proc_same_def cli_def get_current_pcb_def)

lemma halted_fields:
  assumes r: "proc_rel A s" and top: "top_stack A = p # ps" and e: "on_stack p (esp s)" and t_def: "t = halted dev s"
  shows "term_cur t = term_cur s" "processes_flags t = processes_flags s AND NOT (push_bit p 1)"
    "num_processes (terminal t (term_cur s - 1)) = int (length ps)" "esp t = esp s" "walked t = walked s" "pg t = pg s" "term_same s t"
    "i \<noteq> term_cur s - 1 \<Longrightarrow> num_processes (terminal t i) = num_processes (terminal s i)"
    "term_pid (terminal t i) = term_pid (terminal s i)"
    "pid (pcbs t b) = pid (pcbs s b)" "parent_pid (pcbs t b) = parent_pid (pcbs s b)"
    "parent_esp (pcbs t b) = parent_esp (pcbs s b)" "parent_ebp (pcbs t b) = parent_ebp (pcbs s b)"
proof -
  have p: "p < 6" using top top_in_all [OF proc_relD(2) [OF r]] proc_relD(4) [OF r] by auto
  have cur: "get_current_pcb (cli s) = get_pcb (of_nat p)"
    using on_stack_pcb [OF p e] by (simp add: cli_same)
  let ?u = "close_all dev (cli s)"
  have k: "kern_same s ?u" using kern_same_trans [OF cli_same(1) close_all_step] .
  then have u: "proc_same s ?u" "esp ?u = esp s" "walked ?u = walked s" "pg ?u = pg s" "term_same s ?u"
    by (simp_all add: kern_same_def)
  have "pid (pcb_of s p) = of_nat p"
    using proc_relD(8) [OF r] top by (cases ps) simp_all
  then have n: "unat (pid (pcbs ?u (get_pcb (of_nat p)))) = p"
    using u(1) p by (simp add: proc_same_def unat_of_nat)
  show "term_cur t = term_cur s" "processes_flags t = processes_flags s AND NOT (push_bit p 1)"
    "esp t = esp s" "walked t = walked s" "pg t = pg s" "term_same s t"
    "i \<noteq> term_cur s - 1 \<Longrightarrow> num_processes (terminal t i) = num_processes (terminal s i)"
    "term_pid (terminal t i) = term_pid (terminal s i)"
    "pid (pcbs t b) = pid (pcbs s b)" "parent_pid (pcbs t b) = parent_pid (pcbs s b)"
    "parent_esp (pcbs t b) = parent_esp (pcbs s b)" "parent_ebp (pcbs t b) = parent_ebp (pcbs s b)"
    using u cur n unfolding t_def halted_def Let_def by (simp_all add: proc_same_def term_same_def)
  show "num_processes (terminal t (term_cur s - 1)) = int (length ps)"
    using u cur n proc_relD(1,6) [OF r] top unfolding t_def halted_def Let_def by (simp add: proc_same_def)
qed

lemma halted_rel:
  fixes s u :: "'a kernel_scheme"
  assumes r: "proc_rel A s" and top: "top_stack A = p # ps" and e: "on_stack p (esp s)"
    and u: "term_cur u = term_cur s" "processes_flags u = processes_flags (halted dev s)"
      "terminal u = (terminal (halted dev s))(term_cur s - 1 := x)"
      "num_processes x = num_processes (terminal (halted dev s) (term_cur s - 1))"
      "pcbs u = pcbs (halted dev s)" "ps \<noteq> [] \<Longrightarrow> term_pid x = of_nat (hd ps)"
  shows "proc_rel (set_top ps A) u"
proof -
  note f = halted_fields [OF r top e refl, where dev = dev]
  have n: "num_processes (terminal s (term_cur s - 1)) = int (length ps) + 1"
    using proc_relD(1,6) [OF r] top by simp
  define v where "v = s\<lparr>processes_flags := processes_flags u, pcbs := pcbs u,
    terminal := (terminal s)(term_cur s - 1 := x)\<rparr>"
  have "proc_rel (set_top ps A) v"
    by (rule pop_rel [OF r top, where x = x]) (use f n u in \<open>simp_all add: v_def\<close>)
  moreover have "proc_same v u"
    unfolding proc_same_def v_def using u f by simp
  ultimately show ?thesis by (rule proc_rel_same)
qed

lemma halt_pops_rel:
  assumes r: "proc_rel A s" and top: "top_stack A = p # q # ps" and e: "on_stack p (esp s)"
  shows "\<exists>t. halt T dev status s = Inr (ResumeParent status, t) \<and> proc_rel (set_top (q # ps) A) t
    \<and> esp t = parent_esp (pcb_of s p) \<and> on_stack q (esp t) \<and> tss_esp0 t = esp t
    \<and> walked t = walked (remap VIRTUAL_START (frame_of (of_nat q)) s) \<and> tlb_ok t \<and> term_same s t"
proof -
  note f = halted_fields [OF r top e refl, where dev = dev]
  have c6: "p < 6" "q < 6" using top top_in_all [OF proc_relD(2) [OF r]] proc_relD(4) [OF r] by auto
  have p: "get_current_pcb (cli s) = get_pcb (of_nat p)" using on_stack_pcb [OF c6(1) e] by (simp add: cli_same)
  have link: "parent_pid (pcb_of s p) = of_nat q" "on_stack q (parent_esp (pcb_of s p))"
    using proc_relD(8) [OF r] top by simp_all
  let ?h = "halted dev s"
  have "bit (processes_flags s) q" "q \<noteq> p"
    using proc_relD(3,5) [OF r] top top_in_all [OF proc_relD(2) [OF r]] proc_relD(9) [OF r]
      current_cases [OF proc_relD(2) [OF r]] by (auto simp: top_stack_def all_procs_def)
  then have "bit (processes_flags ?h) q" using c6 f(2) by (auto simp: bit_simps)
  then have nz: "processes_flags ?h \<noteq> 0" by auto
  have np: "num_processes (terminal ?h (term_cur ?h - 1)) \<noteq> 0" using f(1,3) by simp
  define t where "t = snd (resume_parent (get_pcb (of_nat p)) status ?h)"
  have h: "halt T dev status s = Inr (ResumeParent status, t)"
    using nz np p by (simp add: halt_halted or_shell_def t_def resume_parent_def Let_def)
  have t: "term_cur t = term_cur s" "processes_flags t = processes_flags ?h" "pcbs t = pcbs ?h"
    "terminal t = (terminal ?h)(term_cur s - 1 := (terminal ?h (term_cur s - 1))\<lparr>term_pid := ucast (parent_pid (pcb_of s p))\<rparr>)"
    "esp t = parent_esp (pcb_of s p)" "tss_esp0 t = parent_esp (pcb_of s p)"
    "walked t = walked (remap VIRTUAL_START (frame_of (parent_pid (pcb_of s p))) s)" "tlb_ok t" "term_same s t"
    using f by (simp_all add: t_def resume_parent_def Let_def remap_def refresh_tbl_def frame_of_def tlb_ok_def
        term_same_def)
  have "(ucast (of_nat q :: u32) :: u8) = of_nat q"
    using c6(2) by (simp add: word_unat_eq_iff unsigned_ucast_eq unat_of_nat take_bit_nat_eq_self)
  then have "proc_rel (set_top (q # ps) A) t"
    by (intro halted_rel [OF r top e t(1,2,4) _ t(3)]) (simp_all add: link)
  then show ?thesis using h t link by auto
qed

lemma set_top_set_top [simp]: "set_top ps (set_top qs A) = set_top ps A"
  by (simp add: set_top_def)

text \<open>A new process \<open>k\<close> on top of \<open>ps\<close>, about to run its first instruction.\<close>

definition entered :: "procs \<Rightarrow> nat \<Rightarrow> 'a kernel_scheme \<Rightarrow> 'a kernel_scheme \<Rightarrow> bool" where
  "entered A k s t \<longleftrightarrow> proc_rel (set_top (k # top_stack A) A) t \<and> k < 6 \<and> k \<notin> set (all_procs A)
     \<and> tss_esp0 t = kernel_stack (of_nat k) \<and> intr t \<and> tlb_ok t \<and> term_same s t
     \<and> walked t = walked (remap VIRTUAL_START (frame_of (of_nat k)) s)"

lemma exec_command_rel:
  assumes r: "proc_rel A s" and e: "top_stack A \<noteq> [] \<Longrightarrow> on_stack (hd (top_stack A)) (esp s)"
    and x: "exec_command T command s = Inr (res, t)"
  shows "(\<exists>n. res = Returned n) \<and> kern_same s t \<or> (\<exists>eip k. res = EnterUser eip \<and> entered A k s t)"
proof -
  have r': "proc_rel A (cli s)" using proc_rel_same [OF r] cli_same(1) [of s] by (simp add: kern_same_def)
  have "esp (cli s) = esp s" "walked (remap v p (cli s)) = walked (remap v p s)" for v p
    by (simp_all add: cli_def remap_def refresh_tbl_def Let_def)
  moreover have "term_same s t" if "term_same (cli s) t" using that by (simp add: term_same_def cli_def)
  moreover obtain com_buf i where "exec_program T command com_buf i (cli s) = Inr (res, t)"
    using x by (auto simp: exec_command_def Let_def split: sum.splits prod.splits)
  moreover have "k < 6 \<and> k \<notin> set (all_procs A)" if "free_pid (processes_flags (cli s)) = Some k" for k
    using that proc_relD(5) [OF r', of k] by (simp add: free_pid_Some)
  ultimately show ?thesis
    using exec_program_rel [OF r', of T command com_buf i res t] e kern_same_trans [OF cli_same(1) [of s], of t]
    unfolding entered_def by metis
qed

lemma halt_last_rel:
  assumes r: "proc_rel A s" and top: "top_stack A = [p]" and e: "on_stack p (esp s)"
    and x: "halt T dev status s = Inr (EnterUser eip, t)"
  shows "\<exists>k. entered (set_top [] A) k s t"
proof -
  let ?h = "halted dev s" and ?A = "set_top [] A"
  note f = halted_fields [OF r top e refl, where dev = dev]
  have h: "proc_rel ?A ?h" by (rule halted_rel [OF r top e f(1)]) (simp_all add: fun_upd_idem f(1))
  have A: "top_stack ?A = []" by (simp add: stacks_set_top)
  have pass: "entered ?A k ?h t \<Longrightarrow> entered ?A k s t" for k
    using f unfolding entered_def by (simp add: term_same_def remap_def refresh_tbl_def Let_def)
  have "num_processes (terminal ?h (term_cur ?h - 1)) = 0" using f(1,3) by simp
  then obtain res u where first: "exec_command T (c_str ''shell'') ?h = Inr (res, u)"
    using x by (auto simp: halt_halted or_shell_def split: sum.splits)
  from exec_command_rel [OF h _ first] A consider n where "res = Returned n" "kern_same ?h u"
    | eip' k where "res = EnterUser eip'" "entered ?A k ?h u" by auto
  then show ?thesis
  proof cases
    case 1
    then have u: "proc_rel ?A u" using proc_rel_same [OF h] by (simp add: kern_same_def)
    have "processes_flags u = 0 \<and> exec_command T (c_str ''shell'') u = Inr (EnterUser eip, t)"
      using x first 1 f(1,3)
      by (auto simp: halt_halted or_shell_def resume_parent_def Let_def
          split: sum.splits prod.splits outcome.splits if_splits)
    then obtain k where "entered ?A k u t" using exec_command_rel [OF u, of T "c_str ''shell''"] A by auto
    then have "entered ?A k ?h t"
      using 1 unfolding entered_def kern_same_def term_same_def by (simp add: remap_def refresh_tbl_def Let_def)
    then show ?thesis using pass by blast
  next
    case 2
    then have "u = t" using x first f(1,3) by (simp add: halt_halted or_shell_def)
    then show ?thesis using 2 pass by blast
  qed
qed

text \<open>The shell is in the image, and still is when the new control block has been cleared.\<close>

definition shell_ready :: "'a kernel_scheme \<Rightarrow> u8 list \<Rightarrow> bool" where
  "shell_ready s F \<longleftrightarrow> (\<exists>d. read_dentry_by_name s (c_str ''shell'') = Some d \<and> program_ok s (inode_num d) F
     \<and> program_ok (snd (create_pcb s)) (inode_num d) F)"

lemma image_shell_ready: "image_at s \<Longrightarrow> shell_ready s tiny_program"
  using image_dentry [of s] image_program [of s] image_program [OF image_create_pcb [of s]]
  by (auto simp: shell_ready_def)

lemma exec_command_shell:
  assumes r: "proc_rel A s" and e: "top_stack A \<noteq> [] \<Longrightarrow> on_stack (hd (top_stack A)) (esp s)"
    and room: "can_execute s" and F: "shell_ready (cli s) F"
  shows "\<exists>k t. exec_command T (c_str ''shell'') s = Inr (EnterUser (entry_point F), t) \<and> entered A k s t"
proof -
  have r': "proc_rel A (cli s)" using proc_rel_same [OF r] cli_same(1) [of s] by (simp add: kern_same_def)
  have room': "can_execute (cli s)" using room by (simp add: can_execute_def cli_def)
  obtain k where k: "free_pid (processes_flags (cli s)) = Some k" using room' can_execute_rel [OF r'] by blast
  obtain d where d: "read_dentry_by_name (cli s) (c_str ''shell'') = Some d" "program_ok (cli s) (inode_num d) F"
    "program_ok (snd (create_pcb (cli s))) (inode_num d) F"
    using F by (auto simp: shell_ready_def)
  have "parse_args (c_str ''shell'') 5 = Inr (\<lambda>_. 0)" by (simp add: parse_args_def c_str_def)
  from exec_program_loads [OF d room' k this, where T = T]
  obtain t where "exec_program T (c_str ''shell'') (c_str ''shell'') 5 (cli s) = Inr (EnterUser (entry_point F), t)"
    by blast
  then have x: "exec_command T (c_str ''shell'') s = Inr (EnterUser (entry_point F), t)"
    by (simp add: exec_command_def Let_def shell_token)
  then show ?thesis using exec_command_rel [OF r e x] by auto
qed

section \<open>Starting and switching terminals\<close>

lemma con_step_banner: "con_step s (fold printk banner s)"
proof -
  have "con_step s (fold printk fs s)" if "list_all (\<lambda>f. 37 \<notin> set (map of_char f :: u8 list)) fs" for fs
    using that
  proof (induction fs arbitrary: s)
    case (Cons f fs)
    then show ?case using con_step_trans [OF con_step_printk [of f s]] by simp
  qed (simp add: con_step_refl)
  moreover have "list_all (\<lambda>f. 37 \<notin> set (map of_char f :: u8 list)) banner"
    by (simp add: banner_def)
  ultimately show ?thesis by blast
qed

lemma show_terminal_fields:
  assumes "t = show_terminal term s"
  shows "proc_same s t" "esp t = esp s" "tss_esp0 t = tss_esp0 s" "walked t = walked s" "pg t = pg s"
    "terminal t = (terminal s)(term - 1 := (terminal s (term - 1))\<lparr>init := 1\<rparr>)" "key_buffer t = Some (term - 1)"
    "key_buffer_pos t = term_key_buffer_pos (terminal s (term - 1))"
proof -
  define u where "u = (update_cursor_loc (pos_x (terminal s (term - 1))) (pos_y (terminal s (term - 1)))
      (s\<lparr>terminal := (terminal s)(term - 1 := (terminal s (term - 1))\<lparr>init := 1\<rparr>), key_buffer := Some (term - 1),
         key_buffer_pos := term_key_buffer_pos (terminal s (term - 1)),
         screen_x := pos_x (terminal s (term - 1)), screen_y := pos_y (terminal s (term - 1))\<rparr>))
    \<lparr>mem := memcpy (mem s) VIDEO (vid_mem (terminal s (term - 1))) screen_bytes\<rparr>"
  have "t = fold printk banner u"
    by (simp add: assms show_terminal_def Let_def u_def set_screen_pos_def get_screen_x_def get_screen_y_def
        update_cursor_loc_eq)
  then obtain m i x y where t: "t = u\<lparr>mem := m, io := i, screen_x := x, screen_y := y\<rparr>"
    using con_step_banner [of u] by (auto simp: con_step_def)
  then show "proc_same s t" "esp t = esp s" "tss_esp0 t = tss_esp0 s" "walked t = walked s" "pg t = pg s"
    "terminal t = (terminal s)(term - 1 := (terminal s (term - 1))\<lparr>init := 1\<rparr>)" "key_buffer t = Some (term - 1)"
    "key_buffer_pos t = term_key_buffer_pos (terminal s (term - 1))"
    unfolding t by (simp_all add: u_def update_cursor_loc_eq proc_same_def)
qed

lemma proc_rel_switch:
  assumes r: "proc_rel A s" and t: "term \<in> {1, 2, 3}" "proc_same (s\<lparr>term_cur := term\<rparr>) u"
  shows "proc_rel (A\<lparr>current := term\<rparr>) u"
proof -
  have "terms_ok (A\<lparr>current := term\<rparr>) ts = terms_ok A ts" for ts by (simp add: terms_ok_def)
  moreover have "all_procs (A\<lparr>current := term\<rparr>) = all_procs A" by (simp add: all_procs_def)
  ultimately have "proc_rel (A\<lparr>current := term\<rparr>) (s\<lparr>term_cur := term\<rparr>)"
    using r t(1) unfolding proc_rel_def by simp
  then show ?thesis using t(2) by (rule proc_rel_same)
qed

lemma terminal_start_rel:
  assumes r: "proc_rel A s" and e: "top_stack A = []" and x: "terminal_start T term s = Inr (res, t)"
  shows "(\<exists>n. res = Returned n) \<and> kern_same (show_terminal term s) t \<or>
    (\<exists>eip k. res = EnterUser eip \<and> entered A k (show_terminal term s) t)"
proof -
  let ?u = "show_terminal term s"
  have u: "proc_rel A ?u" using proc_rel_same [OF r show_terminal_fields(1) [OF refl]] .
  obtain res' t' where c: "exec_command T (c_str ''shell'') ?u = Inr (res', t')" "t' = t"
    "res' = res \<or> (\<exists>n. res' = Returned n) \<and> res = Returned 0"
    using x by (auto simp: terminal_start_def split: sum.splits prod.splits outcome.splits)
  then show ?thesis using exec_command_rel [OF u _ c(1)] e by auto
qed

lemma terminal_save_fields:
  assumes "vid_mem (terminal s (term - 1)) \<in> {TERM_1_MEM, TERM_2_MEM, TERM_3_MEM}" and "t = snd (terminal_save term s)"
  shows "proc_same s t" "esp t = esp s" "tss_esp0 t = tss_esp0 s" "walked t = walked s" "pg t = pg s"
    "terminal t = (terminal s)(term - 1 := saved_terminal s (terminal s (term - 1)))"
  using terminal_save_eq [OF assms(1)] unfolding assms(2)
  by (simp_all add: proc_same_def saved_terminal_def)

text \<open>The state in which \<open>switch_terminal\<close> starts or loads the new terminal.\<close>

definition switching :: "int \<Rightarrow> 'a kernel_scheme \<Rightarrow> 'a kernel_scheme" where
  "switching term s = (snd (terminal_save (term_cur s) (cli s)))\<lparr>term_cur := term\<rparr>"

lemma switch_terminal_eq:
  assumes "term \<noteq> term_cur s" and "init (terminal s (term - 1)) \<noteq> 0 \<or> can_execute s"
  shows "switch_terminal T term s =
    (if init (terminal (switching term s) (term - 1)) = 0
     then (case terminal_start T term (switching term s) of
             Inl e \<Rightarrow> Inl e
           | Inr (Returned _, s) \<Rightarrow> Inr (Returned 0, sti s)
           | Inr r \<Rightarrow> Inr r)
     else Inr (Returned 0, sti (snd (terminal_load term (switching term s)))))"
proof -
  have c: "term_cur (cli s) = term_cur s" "terminal (cli s) = terminal s" "can_execute (cli s) = can_execute s"
    by (simp_all add: cli_def can_execute_def)
  have "terminal_save t u = (fst (terminal_save t u), snd (terminal_save t u))"
    "terminal_load t u = (fst (terminal_load t u), snd (terminal_load t u))" for t and u :: "'a kernel_scheme"
    by simp_all
  then show ?thesis
    using assms by (auto simp: switch_terminal_def Let_def c switching_def case_prod_beta)
qed

lemma switching_fields:
  assumes "vid_mem (terminal s (term_cur s - 1)) \<in> {TERM_1_MEM, TERM_2_MEM, TERM_3_MEM}" and "t = switching tm s"
  shows "term_cur t = tm" "proc_same (s\<lparr>term_cur := tm\<rparr>) t" "esp t = esp s" "tss_esp0 t = tss_esp0 s"
    "walked t = walked s" "pg t = pg s" "term_esp (terminal t (term_cur s - 1)) = esp s"
    "i \<noteq> term_cur s - 1 \<Longrightarrow> terminal t i = terminal s i"
    "vid_mem (terminal t i) = vid_mem (terminal s i)" "init (terminal t i) = init (terminal s i)"
proof -
  have v: "vid_mem (terminal (cli s) (term_cur s - 1)) \<in> {TERM_1_MEM, TERM_2_MEM, TERM_3_MEM}"
    using assms(1) by (simp add: cli_def)
  note f = terminal_save_fields [OF v refl]
  show "term_cur t = tm" "proc_same (s\<lparr>term_cur := tm\<rparr>) t" "esp t = esp s" "tss_esp0 t = tss_esp0 s"
    "walked t = walked s" "pg t = pg s" "term_esp (terminal t (term_cur s - 1)) = esp s"
    "i \<noteq> term_cur s - 1 \<Longrightarrow> terminal t i = terminal s i"
    "vid_mem (terminal t i) = vid_mem (terminal s i)" "init (terminal t i) = init (terminal s i)"
    using f unfolding assms(2) switching_def by (simp_all add: proc_same_def saved_terminal_def cli_def)
qed

section \<open>Booting the terminals\<close>

definition no_procs :: procs where
  "no_procs = \<lparr>current = 1, stacks = \<lambda>_. []\<rparr>"

lemma no_procs_simps [simp]:
  "current no_procs = 1" "stacks no_procs t = []" "top_stack no_procs = []" "all_procs no_procs = []"
  by (simp_all add: no_procs_def top_stack_def all_procs_def)

definition term_page :: "int \<Rightarrow> u32" where
  "term_page t = (if t = 0 then TERM_1_MEM else if t = 1 then TERM_2_MEM else TERM_3_MEM)"

lemma term_page_cases: "t \<in> {0, 1, 2} \<Longrightarrow> term_page t \<in> {TERM_1_MEM, TERM_2_MEM, TERM_3_MEM}"
  by (auto simp: term_page_def)

text \<open>The terminals before the first one is started.\<close>

lemma remapToPage_eq:
  "page < 1024 \<Longrightarrow> remapToPage T v p page s =
     Inr (s\<lparr>pg := (pg s)\<lparr>pageDir := (pageDir (pg s))(v div FOUR_MB := userTable_at T OR RWP_FLAGS),
              userTable := (userTable (pg s))(page := p OR RWP_FLAGS)\<rparr>,
            walked := (pg s)\<lparr>pageDir := (pageDir (pg s))(v div FOUR_MB := userTable_at T OR RWP_FLAGS),
              userTable := (userTable (pg s))(page := p OR RWP_FLAGS)\<rparr>\<rparr>)"
  by (simp add: remapToPage_def ARR_SIZE_def refresh_tbl_def Let_def)

lemma reset_loop:
  "fold (\<lambda>i. upd_terminal (int i) (reset_terminal (int i))) [0..<nat MAX_TERMINALS] s =
   s\<lparr>terminal := (terminal s)(0 := reset_terminal 0 (terminal s 0), 1 := reset_terminal 1 (terminal s 1),
        2 := reset_terminal 2 (terminal s 2))\<rparr>"
proof -
  have "[0..<nat MAX_TERMINALS] = [0, 1, 2]" by (simp add: MAX_TERMINALS_def upt_conv_Cons)
  then show ?thesis by simp
qed

lemma blank_cell_below: "unat base + 4000 < 2 ^ 32 \<Longrightarrow> unat a < unat base \<Longrightarrow> i < 2000 \<Longrightarrow> blank_cell base c i m a = m a"
proof -
  assume b: "unat base + 4000 < 2 ^ 32" "unat a < unat base" "i < 2000"
  have "unat (push_bit 1 (of_nat i :: u32)) = 2 * i"
    using b(3) by (simp add: push_bit_eq_mult unat_word_ariths(2) unat_of_nat_small)
  then have u: "unat (base + push_bit 1 (of_nat i)) = unat base + 2 * i"
    using b by (simp only: unat_word_ariths(1)) simp
  then have "unat (base + push_bit 1 (of_nat i) + 1) = unat base + 2 * i + 1"
    using b by (simp only: unat_word_ariths(1)) simp
  then show ?thesis using u b(2) by (auto simp: blank_cell_def)
qed

lemma blank_cells_below:
  "unat a < 0x6400000 \<Longrightarrow> \<forall>i\<in>set is. i < 2000 \<Longrightarrow>
   fold (\<lambda>i m. blank_cell TERM_3_MEM ATTRIB_Y i (blank_cell TERM_2_MEM ATTRIB_G i (blank_cell TERM_1_MEM ATTRIB_B i m))) is m a = m a"
  by (induction "is" arbitrary: m)
    (simp_all add: blank_cell_below TERM_1_MEM_def TERM_2_MEM_def TERM_3_MEM_def)

lemma init_terminals_start:
  obtains u where "init_terminals T s = terminal_start T 1 u" "term_cur u = 1" "processes_flags u = processes_flags s"
    "pcbs u = pcbs s" "esp u = esp s" "tlb_ok u"
    "\<And>i. i \<in> {0, 1, 2} \<Longrightarrow> terminal u i = (reset_terminal i (terminal s i))\<lparr>vid_mem := term_page i\<rparr>"
    "pageDir (walked u) (TERM_MEM div FOUR_MB) = userTable_at T OR RWP_FLAGS"
    "userTable (walked u) 1 = TERM_1_MEM OR RWP_FLAGS" "userTable (walked u) 2 = TERM_2_MEM OR RWP_FLAGS"
    "userTable (walked u) 3 = TERM_3_MEM OR RWP_FLAGS"
    "walked u = (pg s)\<lparr>pageDir := (pageDir (pg s))(TERM_MEM div FOUR_MB := userTable_at T OR RWP_FLAGS),
       userTable := (userTable (pg s))(1 := TERM_1_MEM OR RWP_FLAGS, 2 := TERM_2_MEM OR RWP_FLAGS,
         3 := TERM_3_MEM OR RWP_FLAGS)\<rparr>"
    "\<And>a. unat a < 0x6400000 \<Longrightarrow> mem u a = mem s a" "boot_block u = boot_block s" "inodes u = inodes s"
    "data_blocks u = data_blocks s"
proof -
  let ?r = "(terminal s)(0 := reset_terminal 0 (terminal s 0), 1 := reset_terminal 1 (terminal s 1),
        2 := reset_terminal 2 (terminal s 2))"
  define p where "p = (pg s)\<lparr>pageDir := (pageDir (pg s))(TERM_MEM div FOUR_MB := userTable_at T OR RWP_FLAGS),
    userTable := (userTable (pg s))(1 := TERM_1_MEM OR RWP_FLAGS, 2 := TERM_2_MEM OR RWP_FLAGS,
      3 := TERM_3_MEM OR RWP_FLAGS)\<rparr>"
  define u where "u = s\<lparr>terminal := ?r(0 := (?r 0)\<lparr>vid_mem := TERM_1_MEM\<rparr>, 1 := (?r 1)\<lparr>vid_mem := TERM_2_MEM\<rparr>,
      2 := (?r 2)\<lparr>vid_mem := TERM_3_MEM\<rparr>), pg := p, walked := p,
    mem := fold (\<lambda>i m. blank_cell TERM_3_MEM ATTRIB_Y i (blank_cell TERM_2_MEM ATTRIB_G i
      (blank_cell TERM_1_MEM ATTRIB_B i m))) [0..<nat (NUM_ROWS * NUM_COLS)] (mem s), term_cur := 1\<rparr>"
  have keep: "mem u a = mem s a" if "unat a < 0x6400000" for a
  proof -
    have "\<forall>i\<in>set [0..<nat (NUM_ROWS * NUM_COLS)]. i < 2000" by (simp add: NUM_ROWS_def NUM_COLS_def)
    then show ?thesis using blank_cells_below [OF that] by (simp add: u_def del: set_upt)
  qed
  have "init_terminals T s = terminal_start T 1 u"
    unfolding init_terminals_def reset_loop
    by (simp add: remapToPage_eq Let_def u_def p_def del: upt_Suc)
      (rule arg_cong [where f = "terminal_start T 1"], rule kernel.equality, simp_all)
  moreover have "terminal u i = (reset_terminal i (terminal s i))\<lparr>vid_mem := term_page i\<rparr>" if "i \<in> {0, 1, 2}" for i
    using that by (auto simp: u_def term_page_def)
  ultimately show ?thesis
    using keep by (intro that [of u]) (simp_all add: u_def p_def tlb_ok_def)
qed

lemma init_terminals_no_procs:
  assumes "processes_flags s = 0" and "term_cur u = 1" "processes_flags u = processes_flags s"
    and "\<And>i. i \<in> {0, 1, 2} \<Longrightarrow> terminal u i = (reset_terminal i (terminal s i))\<lparr>vid_mem := term_page i\<rparr>"
  shows "proc_rel no_procs u"
proof -
  have "terms_ok no_procs (terminal u)"
    unfolding terms_ok_def using assms(4) by (simp add: reset_terminal_def)
  then show ?thesis using assms(1-3) by (simp add: proc_rel_def)
qed

lemma term_page_walk:
  assumes T: "tables_ok T" and i: "i \<in> {0, 1, 2}" and x: "unat x < 4096"
    and d: "pageDir p (TERM_MEM div FOUR_MB) = userTable_at T OR RWP_FLAGS"
    "userTable p 1 = TERM_1_MEM OR RWP_FLAGS" "userTable p 2 = TERM_2_MEM OR RWP_FLAGS"
    "userTable p 3 = TERM_3_MEM OR RWP_FLAGS"
  shows "walk T p (term_page i + x) = Some (term_page i + x, True)"
proof -
  let ?v = "term_page i + x"
  obtain n :: nat where n: "n \<in> {1, 2, 3}" "unat (term_page i) = 0x6400000 + n * 0x1000"
    "userTable p (of_nat n) = term_page i OR RWP_FLAGS"
    using i d(2-4) by (auto simp: term_page_def const_defs TERM_1_MEM_def TERM_2_MEM_def TERM_3_MEM_def)
  have v: "unat ?v = 0x6400000 + n * 0x1000 + unat x"
    using n(1,2) x by (auto simp: unat_word_ariths(1))
  have "unat (dir_index ?v) = 25" using n(1) x by (auto simp: unat_dir_index v)
  moreover have "unat (TERM_MEM div FOUR_MB) = 25" by (simp add: const_defs TERM_MEM_def)
  ultimately have dir: "dir_index ?v = TERM_MEM div FOUR_MB" by (simp add: word_unat_eq_iff)
  have t: "w AND 0xFFF = take_bit 12 w" "w AND 0x3FF = take_bit 10 w" for w :: u32
    by (simp_all add: take_bit_eq_mask mask_eq_exp_minus_1)
  have "unat (drop_bit 12 ?v) = 0x6400 + n"
    using x by (simp add: drop_bit_eq_div unat_div_distrib v)
  then have "unat (table_index ?v) = n"
    unfolding table_index_def t unsigned_take_bit_eq using n(1) by (auto simp: take_bit_eq_mod)
  then have tab: "table_index ?v = of_nat n" by (metis of_nat_unat ucast_id)
  have "unat (?v AND 0xFFF) = (unat x + (0x6400 + n) * 2 ^ 12) mod 2 ^ 12"
    unfolding t unsigned_take_bit_eq unfolding take_bit_eq_mod v by (simp add: algebra_simps)
  also have "\<dots> = unat x mod 2 ^ 12" by (rule mod_mult_self1)
  also have "\<dots> = unat x" using x by simp
  finally have "?v AND 0xFFF = x" by (simp only: word_unat_eq_iff)
  moreover have "term_page i AND 0xFFF = 0"
    using i by (auto simp: term_page_def TERM_1_MEM_def TERM_2_MEM_def TERM_3_MEM_def)
  ultimately show ?thesis
    using walk_user_page [OF T, of p ?v "term_page i"] d(1) n(3) by (simp add: dir tab)
qed

section \<open>Claims\<close>

lemma walked_window: "walked t = walked (remap VIRTUAL_START (frame_of q) s) \<Longrightarrow> window_of T t q"
  using window_of_remap [of T q s] by (simp add: window_of_def translate_def)

lemma enteredD:
  assumes "entered A k s t"
  shows "proc_rel (set_top (k # top_stack A) A) t" "k < 6" "k \<notin> set (all_procs A)"
    "tss_esp0 t = kernel_stack (of_nat k)" "intr t" "window_of T t (of_nat k)" "tlb_ok t" "term_same s t"
  using assms walked_window unfolding entered_def by blast+


lemma prog_kernel_no_procs: "proc_rel no_procs prog_kernel"
  by (simp add: proc_rel_def terms_ok_def prog_kernel_def blank_terminal_def)

lemma prog_kernel_exec:
  "\<exists>k t. exec_command T (c_str ''shell'') prog_kernel = Inr (EnterUser 0x8048000, t) \<and> entered no_procs k prog_kernel t"
proof -
  have "cli prog_kernel = prog_kernel"
    by (rule kernel.equality)
      (simp_all add: cli_def prog_kernel_def blank_kernel_def rofs.defs tiny_fs_def init_rofs_def Let_def paging.defs
        blank_paging_def)
  then have "shell_ready (cli prog_kernel) tiny_program" using image_shell_ready [OF prog_kernel_image] by simp
  moreover have "entry_point tiny_program = 0x8048000"
    by (simp add: entry_point_def load32_def tiny_program_def nth_append)
  ultimately show ?thesis
    using exec_command_shell [OF prog_kernel_no_procs _ prog_kernel_room(2), of tiny_program T] by simp
qed


text \<open>
  Claim C4. \<open>halt\<close> in a process that another one executed takes it off the current terminal's stack and
  resumes the parent: with the parent's stack as saved by its \<open>execute\<close>, control block and window. The
  stack pointer for its next system call is the saved one, not the top of its kernel stack.
\<close>

theorem halt_pops:
  assumes "proc_rel A s" and "top_stack A = p # q # ps" and "on_stack p (esp s)"
  shows "\<exists>t. halt T dev status s = Inr (ResumeParent status, t) \<and> proc_rel (set_top (q # ps) A) t
    \<and> esp t = parent_esp (pcbs s (get_pcb (of_nat p))) \<and> get_current_pcb t = get_pcb (of_nat q)
    \<and> window_of T t (of_nat q) \<and> tss_esp0 t = esp t"
proof -
  have "q < 6" using assms(2) top_in_all [OF proc_relD(2) [OF assms(1)]] proc_relD(4) [OF assms(1)] by auto
  then show ?thesis using halt_pops_rel [OF assms, of T dev status] on_stack_pcb [of q] walked_window by blast
qed

text \<open>A shell that has executed a program, which is running.\<close>

definition pair_kernel :: kernel where
  "pair_kernel = blank_kernel\<lparr>processes_flags := 3, esp := 0x7FDF00,
     terminal := (\<lambda>_. blank_terminal)(0 := blank_terminal\<lparr>num_processes := 2, term_pid := 1\<rparr>),
     pcbs := (\<lambda>_. blank_pcb)(get_pcb 1 := blank_pcb\<lparr>pid := 1, parent_esp := 0x7FFE00\<rparr>)\<rparr>"

lemma pair_kernel_rel: "proc_rel (set_top [1, 0] no_procs) pair_kernel"
proof -
  have b: "bit (3 :: u8) k \<longleftrightarrow> k = 0 \<or> k = 1" for k
    by (cases k) (auto simp: bit_numeral_word_iff bit_Suc bit_1_iff)
  show ?thesis
    by (auto simp: proc_rel_def terms_ok_def pair_kernel_def set_top_def no_procs_def all_procs_def b blank_pcb_def
        blank_terminal_def get_pcb_def const_defs on_stack_def word_less_nat_alt simp del: bit_numeral_word_iff)
qed

theorem halt_pops_witness:
  "\<exists>t. halt some_tables (\<lambda>_ _. 0) 7 pair_kernel = Inr (ResumeParent 7, t) \<and> esp t = 0x7FFE00"
proof -
  have "on_stack 1 (esp pair_kernel)"
    by (simp add: pair_kernel_def on_stack_def get_pcb_def const_defs)
  moreover have "top_stack (set_top [1, 0] no_procs) = [1, 0]" by (simp add: stacks_set_top)
  moreover have "parent_esp (pcbs pair_kernel (get_pcb 1)) = 0x7FFE00" by (simp add: pair_kernel_def)
  ultimately show ?thesis using halt_pops [OF pair_kernel_rel, of 1 0 "[]" some_tables "\<lambda>_ _. 0" 7] by auto
qed

lemma halt_last_shell:
  assumes r: "proc_rel A s" and top: "top_stack A = [p]" and e: "on_stack p (esp s)"
    and F: "shell_ready (cli (halted dev s)) F"
  shows "\<exists>k t. halt T dev status s = Inr (EnterUser (entry_point F), t) \<and> entered (set_top [] A) k s t"
proof -
  let ?h = "halted dev s" and ?A = "set_top [] A"
  note f = halted_fields [OF r top e refl, where dev = dev]
  have h: "proc_rel ?A ?h" by (rule halted_rel [OF r top e f(1)]) (simp_all add: fun_upd_idem f(1))
  have p: "p \<in> set (all_procs A)" "p < 6"
    using top top_in_all [OF proc_relD(2) [OF r]] proc_relD(4) [OF r] by auto
  then have "\<not> bit (processes_flags ?h) p" using f(2) by (simp add: bit_simps)
  then have "can_execute ?h" using can_execute_rel [OF h] free_pid_None p(2) by blast
  then obtain k t where x: "exec_command T (c_str ''shell'') ?h = Inr (EnterUser (entry_point F), t)"
    using exec_command_shell [OF h _ _ F, of T] by (auto simp: stacks_set_top)
  then have "halt T dev status s = Inr (EnterUser (entry_point F), t)"
    using f(1,3) by (simp add: halt_halted or_shell_def)
  then show ?thesis using halt_last_rel [OF r top e] by blast
qed

text \<open>
  Claim C11. \<open>halt\<close> in the last process of a terminal, the image holding a shell, does not return: it
  enters a new shell, which takes the process's place on the terminal.
\<close>

theorem halt_restarts_shell:
  assumes "proc_rel A s" and "top_stack A = [p]" and "on_stack p (esp s)"
    and "shell_ready (cli (halted dev s)) F"
  shows "\<exists>k t. halt T dev status s = Inr (EnterUser (entry_point F), t) \<and> proc_rel (set_top [k] A) t
    \<and> window_of T t (of_nat k) \<and> tss_esp0 t = kernel_stack (of_nat k) \<and> intr t"
  using halt_last_shell [OF assms, of T status] enteredD [of "set_top [] A"]
  by (metis set_top_set_top stacks_set_top(4))

text \<open>One shell, running.\<close>

definition shell_kernel :: kernel where
  "shell_kernel = prog_kernel\<lparr>processes_flags := 1,
     terminal := (\<lambda>_. blank_terminal)(0 := blank_terminal\<lparr>num_processes := 1, term_pid := 0\<rparr>)\<rparr>"

lemma shell_kernel_rel: "proc_rel (set_top [0] no_procs) shell_kernel"
proof -
  have b: "bit (1 :: u8) k \<longleftrightarrow> k = 0" for k by (simp add: bit_1_iff)
  show ?thesis
    by (auto simp: proc_rel_def terms_ok_def shell_kernel_def prog_kernel_def set_top_def no_procs_def all_procs_def b
        blank_pcb_def blank_terminal_def simp del: bit_numeral_word_iff)
qed

theorem halt_restarts_shell_witness:
  "\<exists>t. halt some_tables (\<lambda>_ _. 0) 7 shell_kernel = Inr (EnterUser 0x8048000, t)"
proof -
  have e: "on_stack 0 (esp shell_kernel)"
    by (simp add: shell_kernel_def prog_kernel_def on_stack_def get_pcb_def const_defs)
  have top: "top_stack (set_top [0] no_procs) = [0]" by (simp add: stacks_set_top)
  have closed: "\<not> is_open (files (pcbs shell_kernel p) i)" for p i
    by (simp add: shell_kernel_def prog_kernel_def blank_pcb_def blank_file_def is_open_def)
  have "fold (\<lambda>i s. let f = files (pcbs s (get_current_pcb s)) i
          in if is_open f then snd (call_close (op_close (fileops f)) (\<lambda>_ _. 0) (int i) s) else s) is (cli shell_kernel)
        = cli shell_kernel" for "is"
    by (induction "is") (simp_all add: Let_def closed cli_def)
  then have "halted (\<lambda>_ _. 0) shell_kernel = (cli shell_kernel)\<lparr>
      terminal := (\<lambda>_. blank_terminal)(0 := blank_terminal), processes_flags := 0\<rparr>"
    by (simp add: halted_def close_all_def Let_def)
      (simp add: shell_kernel_def prog_kernel_def cli_def blank_pcb_def blank_terminal_def)
  then have "cli (halted (\<lambda>_ _. 0) shell_kernel) = prog_kernel"
    by (intro kernel.equality)
      (simp_all add: cli_def shell_kernel_def prog_kernel_def blank_kernel_def rofs.defs tiny_fs_def init_rofs_def Let_def
        paging.defs blank_paging_def fun_upd_idem)
  then have "shell_ready (cli (halted (\<lambda>_ _. 0) shell_kernel)) tiny_program"
    using image_shell_ready [OF prog_kernel_image] by simp
  moreover have "entry_point tiny_program = 0x8048000"
    by (simp add: entry_point_def load32_def tiny_program_def nth_append)
  ultimately show ?thesis
    using halt_restarts_shell [OF shell_kernel_rel top e, of "\<lambda>_ _. 0" tiny_program some_tables 7] by auto
qed



end
