(* ===== verification/Keyboard.thy ===== *)
theory Keyboard
  imports Exec
begin

text \<open>
  The keyboard driver \<^verbatim>\<open>student-distrib/keyboard.c\<close>: the keymap, the interrupt handler with the
  modifier keys, the editing of the key buffer and the switching of terminals. The scancode is what
  a port read gives; how the handler ends is an outcome, since switching to a new terminal enters
  its shell and does not return. \<open>clear_buffer\<close> is in \<open>Terminal\<close>.
\<close>

section \<open>The keymap\<close>

definition NUM_KEYS :: u32 where [const_defs]: "NUM_KEYS = 60"
definition KEYBOARD_PORT :: u16 where [const_defs]: "KEYBOARD_PORT = 0x60"
definition CTRL :: u32 where [const_defs]: "CTRL = 0x1D"
definition ALT_L :: u32 where [const_defs]: "ALT_L = 0x38"
definition SHIFT_L :: u32 where [const_defs]: "SHIFT_L = 0x2A"
definition SHIFT_R :: u32 where [const_defs]: "SHIFT_R = 0x36"
definition CAPSLOCK :: u32 where [const_defs]: "CAPSLOCK = 0x3A"
definition F1_KEY :: u32 where [const_defs]: "F1_KEY = 0x3B"
definition F2_KEY :: u32 where [const_defs]: "F2_KEY = 0x3C"
definition F3_KEY :: u32 where [const_defs]: "F3_KEY = 0x3D"
definition ARROW_LEFT :: u32 where [const_defs]: "ARROW_LEFT = 0x4B"
definition ARROW_RIGHT :: u32 where [const_defs]: "ARROW_RIGHT = 0x4D"
definition ENTER :: u32 where [const_defs]: "ENTER = 0x1C"
definition BACKSPACE :: u32 where [const_defs]: "BACKSPACE = 0x0E"

definition RELEASE :: "u32 \<Rightarrow> u32" where
  "RELEASE key = (key OR 0x80)"

text \<open>
  One row per state of the modifiers: none, shift, capslock, both. Quote, double quote, backquote and
  backslash are given by their codes; C fills the sixtieth entry with 0.
\<close>

definition keys_plain :: "u8 list" where
  "keys_plain = [0, 0] @ map of_char ''1234567890-='' @ [0, 0] @ map of_char ''qwertyuiop[]'' @ [0, 0]
     @ map of_char ''asdfghjkl;'' @ [39, 96, 0, 92] @ map of_char ''zxcvbnm,./'' @ [0, 42, 0, 32, 0, 0]"

definition keys_shift :: "u8 list" where
  "keys_shift = [0, 0] @ map of_char ''!@#$%^&*()_+'' @ [0, 0] @ map of_char ''QWERTYUIOP{}'' @ [0, 0]
     @ map of_char ''ASDFGHJKL:'' @ [34, 126, 0, 124] @ map of_char ''ZXCVBNM<>?'' @ [0, 42, 0, 32, 0, 0]"

definition keys_caps :: "u8 list" where
  "keys_caps = [0, 0] @ map of_char ''1234567890-='' @ [0, 0] @ map of_char ''QWERTYUIOP[]'' @ [0, 0]
     @ map of_char ''ASDFGHJKL;'' @ [39, 96, 0, 92] @ map of_char ''ZXCVBNM,./'' @ [0, 42, 0, 32, 0, 0]"

definition keys_both :: "u8 list" where
  "keys_both = [0, 0] @ map of_char ''!@#$%^&*()_+'' @ [0, 0] @ map of_char ''qwertyuiop{}'' @ [0, 0]
     @ map of_char ''asdfghjkl:'' @ [34, 126, 0, 92] @ map of_char ''zxcvbnm<>?'' @ [0, 42, 0, 32, 0, 0]"

definition key_scancodes :: "u8 list list" where
  "key_scancodes = [keys_plain, keys_shift, keys_caps, keys_both]"

lemmas keymap_defs = key_scancodes_def keys_plain_def keys_shift_def keys_caps_def keys_both_def

definition key_char :: "u8 \<Rightarrow> u8 \<Rightarrow> u8" where
  "key_char state scancode = key_scancodes ! unat state ! unat scancode"

section \<open>Operations\<close>

definition init_keyboard :: "'a kernel_scheme \<Rightarrow> 'a kernel_scheme" where
  "init_keyboard s =
     (let s = cli s;
          s = enable_irq KEYBOARD_IRQ_LINE s;
          s = s\<lparr>key_buffer_pos := 0\<rparr>
      in sti s)"

definition key_pressed_handler :: "u8 \<Rightarrow> 'a kernel_scheme \<Rightarrow> fault + 'a kernel_scheme" where
  "key_pressed_handler scancode s =
     (if ucast scancode \<ge> NUM_KEYS then Inr s
      else if ctrl_pressed s = 1 then
        (if key_char (keys_state s) scancode = of_char (CHR ''l'')
         then Inr ((clear s)\<lparr>key_buffer_pos := 0\<rparr>) else Inr s)
      else if ucast scancode < NUM_KEYS then
        (if key_buffer_pos s < KEY_BUFFER_SIZE then
           if key_char (keys_state s) scancode = 0 then Inr s
           else case key_buffer_set (key_buffer_pos s) (key_char (keys_state s) scancode) s of
               Inl e \<Rightarrow> Inl e
             | Inr s \<Rightarrow>
                 let s = s\<lparr>key_buffer_pos := key_buffer_pos s + 1\<rparr>;
                     s = s\<lparr>right_bound := right_bound s + 1\<rparr>
                 in Inr (putc (key_char (keys_state s) scancode) s)
         else Inr s)
      else Inr s)"

definition handle_enter :: "'a kernel_scheme \<Rightarrow> 'a kernel_scheme" where
  "handle_enter s =
     (let s = s\<lparr>enter_pressed := 1\<rparr>;
          s = s\<lparr>right_bound := 7\<rparr>
      in do_enter s)"

definition handle_backpace :: "'a kernel_scheme \<Rightarrow> fault + 'a kernel_scheme" where
  "handle_backpace s =
     (if key_buffer_pos s > 0 then
        let s = s\<lparr>key_buffer_pos := key_buffer_pos s - 1\<rparr>
        in case key_buffer_set (key_buffer_pos s) 0 s of
             Inl e \<Rightarrow> Inl e
           | Inr s \<Rightarrow> Inr (do_backspace (s\<lparr>right_bound := right_bound s - 1\<rparr>))
      else Inr s)"

definition move_cursor_left :: "'a kernel_scheme \<Rightarrow> 'a kernel_scheme" where
  "move_cursor_left s =
     (let x = get_screen_x s; y = get_screen_y s
      in if x \<noteq> 7 then
           let x = x - 1;
               s = set_screen_pos x y s;
               s = update_cursor_loc x y s
           in s\<lparr>key_buffer_pos := key_buffer_pos s - 1\<rparr>
         else s)"

definition move_cursor_right :: "'a kernel_scheme \<Rightarrow> 'a kernel_scheme" where
  "move_cursor_right s =
     (let x = get_screen_x s; y = get_screen_y s
      in if x < right_bound s then
           let x = x + 1;
               s = set_screen_pos x y s;
               s = update_cursor_loc x y s
           in s\<lparr>key_buffer_pos := key_buffer_pos s + 1\<rparr>
         else s)"

text \<open>A handled key: the handler goes on, with no result.\<close>

abbreviation finished :: "'a kernel_scheme \<Rightarrow> fault + outcome \<times> 'a kernel_scheme" where
  "finished s \<equiv> Inr (Returned 0, s)"

text \<open>The switch of \<open>keyboard_handler\<close> on the scancode.\<close>

definition handle_scancode :: "tables \<Rightarrow> u32 \<Rightarrow> 'a kernel_scheme \<Rightarrow> fault + outcome \<times> 'a kernel_scheme" where
  "handle_scancode T scancode s =
     (if scancode = SHIFT_L \<or> scancode = SHIFT_R
      then finished (s\<lparr>shift_pressed := 1, keys_state := if capslock_state s = 1 then 3 else 1\<rparr>)
      else if scancode = RELEASE SHIFT_L \<or> scancode = RELEASE SHIFT_R
      then finished (s\<lparr>shift_pressed := 0, keys_state := if capslock_state s = 1 then 2 else 0\<rparr>)
      else if scancode = CAPSLOCK
      then finished (if capslock_state s = 0 then s\<lparr>capslock_state := 1, keys_state := 2\<rparr>
                 else s\<lparr>capslock_state := 0, keys_state := 0\<rparr>)
      else if scancode = CTRL then finished (s\<lparr>ctrl_pressed := 1\<rparr>)
      else if scancode = RELEASE CTRL then finished (s\<lparr>ctrl_pressed := 0\<rparr>)
      else if scancode = ALT_L then finished (s\<lparr>alt_pressed := 1\<rparr>)
      else if scancode = RELEASE ALT_L then finished (s\<lparr>alt_pressed := 0\<rparr>)
      else if scancode = F1_KEY then (if alt_pressed s = 1 then switch_terminal T 1 s else finished s)
      else if scancode = F2_KEY then (if alt_pressed s = 1 then switch_terminal T 2 s else finished s)
      else if scancode = F3_KEY then (if alt_pressed s = 1 then switch_terminal T 3 s else finished s)
      else if scancode = ARROW_LEFT then finished (move_cursor_left s)
      else if scancode = ARROW_RIGHT then finished (move_cursor_right s)
      else if scancode = ENTER then finished (handle_enter s)
      else if scancode = BACKSPACE then map_sum id (\<lambda>s. (Returned 0, s)) (handle_backpace s)
      else map_sum id (\<lambda>s. (Returned 0, s)) (key_pressed_handler (ucast scancode) s))"

definition keyboard_handler :: "tables \<Rightarrow> device \<Rightarrow> 'a kernel_scheme \<Rightarrow> fault + outcome \<times> 'a kernel_scheme" where
  "keyboard_handler T dev s =
     (let s = cli s;
          (scancode, s) = inb dev KEYBOARD_PORT s;
          s = send_eoi KEYBOARD_IRQ_LINE s
      in case (if scancode \<noteq> 0xE0 then handle_scancode T scancode s else finished s) of
           Inl e \<Rightarrow> Inl e
         | Inr (Returned _, s) \<Rightarrow> finished (sti s)
         | Inr r \<Rightarrow> Inr r)"

section \<open>The keymap's entries\<close>

lemma keymap_shape: "length key_scancodes = 4" "list_all (\<lambda>r. length r = 60) key_scancodes"
  by (simp_all add: keymap_defs)

text \<open>Every key that the handler treats itself has no character.\<close>

lemma keymap_special:
  "list_all (\<lambda>r. list_all (\<lambda>k. r ! k = 0) [0x1D, 0x38, 0x2A, 0x36, 0x3A, 0x3B, 0x1C, 0x0E]) key_scancodes"
  by (simp add: keymap_defs)

lemma special_no_char:
  "state < 4 \<Longrightarrow> k \<in> {0x1D, 0x38, 0x2A, 0x36, 0x3A, 0x3B, 0x1C, 0x0E} \<Longrightarrow> key_char state k = 0"
proof -
  assume s: "state < 4" and k: "k \<in> {0x1D, 0x38, 0x2A, 0x36, 0x3A, 0x3B, 0x1C, 0x0E}"
  have "unat state < length key_scancodes" using s by (simp add: keymap_shape(1) word_less_nat_alt)
  then have "list_all (\<lambda>j. key_scancodes ! unat state ! j = 0) [0x1D, 0x38, 0x2A, 0x36, 0x3A, 0x3B, 0x1C, 0x0E]"
    using keymap_special by (simp add: list_all_length)
  then show ?thesis using k by (auto simp: key_char_def)
qed

section \<open>What a key does\<close>

text \<open>The handler after it has read the scancode and acknowledged the interrupt.\<close>

definition key_state :: "u8 \<Rightarrow> 'a kernel_scheme \<Rightarrow> 'a kernel_scheme" where
  "key_state k s = send_eoi KEYBOARD_IRQ_LINE (snd (inb (\<lambda>_ _. k) KEYBOARD_PORT (cli s)))"

lemma key_state_eq: "\<exists>es. key_state k s = s\<lparr>intr := False, io := es\<rparr>"
  by (intro exI [of _ "io (key_state k s)"])
    (simp add: key_state_def inb_def send_eoi_def cli_def outb_def Let_def KEYBOARD_IRQ_LINE_def)

lemma handler_key_state:
  "keyboard_handler T (\<lambda>_ _. k) s =
     (case (if ucast k \<noteq> (0xE0 :: u32) then handle_scancode T (ucast k) (key_state k s) else finished (key_state k s)) of
        Inl e \<Rightarrow> Inl e
      | Inr (Returned _, s) \<Rightarrow> finished (sti s)
      | Inr r \<Rightarrow> Inr r)"
proof -
  have "inb (\<lambda>_ _. k) KEYBOARD_PORT (cli s) = (ucast k, snd (inb (\<lambda>_ _. k) KEYBOARD_PORT (cli s)))"
    by (simp add: inb_def Let_def)
  then show ?thesis unfolding keyboard_handler_def key_state_def Let_def by (metis (lifting) case_prod_conv)
qed

lemmas scancodes = CTRL_def ALT_L_def SHIFT_L_def SHIFT_R_def CAPSLOCK_def F1_KEY_def F2_KEY_def F3_KEY_def
  ARROW_LEFT_def ARROW_RIGHT_def ENTER_def BACKSPACE_def RELEASE_def

text \<open>A key with a character, when there is room in the key buffer.\<close>

lemma char_key_plain:
  assumes "state < 4" and "unat k < 60" and "key_char state k \<noteq> 0"
  shows "handle_scancode T (ucast k) s = map_sum id (\<lambda>s. (Returned 0, s)) (key_pressed_handler k s)"
    and "(ucast k :: u32) \<noteq> 0xE0"
proof -
  have "k \<notin> {0x1D, 0x38, 0x2A, 0x36, 0x3A, 0x3B, 0x1C, 0x0E}"
    using special_no_char [OF assms(1)] assms(3) by blast
  moreover have eq: "(ucast k :: u32) = x \<longleftrightarrow> unat k = unat x" for x :: u32
    by (simp add: word_unat_eq_iff unat_ucast_u8)
  moreover have "k = y \<longleftrightarrow> unat k = unat y" for y :: u8 by (rule word_unat_eq_iff)
  ultimately show "handle_scancode T (ucast k) s = map_sum id (\<lambda>s. (Returned 0, s)) (key_pressed_handler k s)"
    using assms(2) by (simp add: handle_scancode_def scancodes)
  show "(ucast k :: u32) \<noteq> 0xE0" using assms(2) eq by simp
qed

text \<open>What console output leaves of the keyboard's state.\<close>

definition keys_view :: "'a kernel_scheme \<Rightarrow> (int \<Rightarrow> terminal_t) \<times> int option \<times> u32 \<times> u8 \<times> u8 \<times> u8 \<times> u8 \<times> u8 \<times> u8 \<times> int" where
  "keys_view s = (terminal s, key_buffer s, key_buffer_pos s, enter_pressed s, shift_pressed s, capslock_state s,
     ctrl_pressed s, alt_pressed s, keys_state s, right_bound s)"

lemma keys_view_con: "con_step s t \<Longrightarrow> keys_view t = keys_view s"
  by (auto simp: con_step_def keys_view_def)

lemma keys_view_key_state: "keys_view (key_state k s) = keys_view s" "keys_view (sti s) = keys_view s"
proof -
  obtain es where "key_state k s = s\<lparr>intr := False, io := es\<rparr>" using key_state_eq by blast
  then show "keys_view (key_state k s) = keys_view s" by (simp add: keys_view_def)
qed (simp add: keys_view_def sti_def)

lemma key_state_screen:
  "screen_x (key_state k s) = screen_x s" "screen_y (key_state k s) = screen_y s" "mem (key_state k s) = mem s"
proof -
  obtain es where "key_state k s = s\<lparr>intr := False, io := es\<rparr>" using key_state_eq by blast
  then show "screen_x (key_state k s) = screen_x s" "screen_y (key_state k s) = screen_y s" "mem (key_state k s) = mem s"
    by simp_all
qed

text \<open>The character \<open>c\<close> added to the key buffer of terminal \<open>b\<close> at the position.\<close>

definition key_added :: "int \<Rightarrow> u8 \<Rightarrow> 'a kernel_scheme \<Rightarrow> 'a kernel_scheme" where
  "key_added b c s = (upd_terminal b (\<lambda>t. t\<lparr>term_key_buffer := (term_key_buffer t)(key_buffer_pos s := c)\<rparr>) s)
     \<lparr>key_buffer_pos := key_buffer_pos s + 1, right_bound := right_bound s + 1\<rparr>"

lemma char_key:
  assumes k: "keys_state s < 4" "unat k < 60" "c = key_char (keys_state s) k" "c \<noteq> 0"
    and s: "ctrl_pressed s \<noteq> 1" "key_buffer s = Some b" "key_buffer_pos s < 128"
  shows "keyboard_handler T (\<lambda>_ _. k) s = finished (sti (putc c (key_added b c (key_state k s))))"
proof -
  let ?s = "key_state k s"
  have v: "keys_state ?s = keys_state s" "ctrl_pressed ?s = ctrl_pressed s" "key_buffer ?s = key_buffer s"
    "key_buffer_pos ?s = key_buffer_pos s"
    using keys_view_key_state(1) [of k s] by (simp_all add: keys_view_def)
  have "(ucast k :: u32) < 60" using k(2) by (simp add: word_less_nat_alt unat_ucast_u8)
  then have "key_pressed_handler k ?s = Inr (putc c (key_added b c ?s))"
    using k s v by (simp add: key_pressed_handler_def NUM_KEYS_def key_buffer_set_def KEY_BUFFER_SIZE_def
        key_added_def Let_def not_le)
  then show ?thesis
    using char_key_plain(1) [OF k(1,2), of T ?s] char_key_plain(2) [OF k(1,2)] k(3,4) by (simp add: handler_key_state)
qed

lemma char_key_view:
  "keys_view (sti (putc c (key_added b c (key_state k s)))) = keys_view (key_added b c s)"
  using keys_view_con [OF con_step_putc [where c = c and s = "key_added b c (key_state k s)"]] keys_view_key_state(1) [of k s]
  by (simp add: keys_view_key_state(2)) (simp add: keys_view_def key_added_def)

text \<open>A sequence of keys; \<open>None\<close> when one of them faults or leaves the handler for a shell.\<close>

fun presses :: "tables \<Rightarrow> u8 list \<Rightarrow> 'a kernel_scheme \<Rightarrow> 'a kernel_scheme option" where
  "presses T [] s = Some s"
| "presses T (k # ks) s =
     (case keyboard_handler T (\<lambda>_ _. k) s of Inr (Returned _, t) \<Rightarrow> presses T ks t | _ \<Rightarrow> None)"

lemma presses_append: "presses T (ks @ js) s = Option.bind (presses T ks s) (presses T js)"
  by (induction ks arbitrary: s) (auto split: sum.splits prod.splits outcome.splits)

text \<open>The characters \<open>cs\<close> put in a buffer from position \<open>p\<close> on.\<close>

definition put_keys :: "u8 list \<Rightarrow> u32 \<Rightarrow> bytes \<Rightarrow> bytes" where
  "put_keys cs p kb = (\<lambda>i. if unat (i - p) < length cs then cs ! unat (i - p) else kb i)"

lemma put_keys_Nil [simp]: "put_keys [] p kb = kb"
  by (simp add: put_keys_def)

lemma put_keys_Cons:
  assumes "length cs < 2 ^ 32 - 1"
  shows "put_keys cs (p + 1) (kb(p := c)) = put_keys (c # cs) p kb"
proof
  fix i
  show "put_keys cs (p + 1) (kb(p := c)) i = put_keys (c # cs) p kb i"
  proof (cases "i = p")
    case True
    then show ?thesis using assms by (simp add: put_keys_def unat_minus_1_u32)
  next
    case False
    then show ?thesis by (simp add: put_keys_def unat_diff_Suc)
  qed
qed

lemma presses_chars:
  assumes "keys_state s < 4" and "list_all (\<lambda>k. unat k < 60 \<and> key_char (keys_state s) k \<noteq> 0) ks"
    and "ctrl_pressed s \<noteq> 1" and "key_buffer s = Some b" and "unat (key_buffer_pos s) + length ks \<le> 128"
  shows "\<exists>t. presses T ks s = Some t \<and> keys_view t = keys_view
    (upd_terminal b (\<lambda>x. x\<lparr>term_key_buffer := put_keys (map (key_char (keys_state s)) ks) (key_buffer_pos s) (term_key_buffer x)\<rparr>)
      (s\<lparr>key_buffer_pos := key_buffer_pos s + of_nat (length ks), right_bound := right_bound s + int (length ks)\<rparr>))"
  using assms
proof (induction ks arbitrary: s)
  case Nil
  then show ?case by (simp add: keys_view_def)
next
  case (Cons k ks)
  let ?c = "key_char (keys_state s) k"
  define t where "t = sti (putc ?c (key_added b ?c (key_state k s)))"
  have pos: "key_buffer_pos s < 128" using Cons.prems(5) by (simp add: word_less_nat_alt)
  have h: "keyboard_handler T (\<lambda>_ _. k) s = finished t"
    unfolding t_def by (rule char_key) (use Cons.prems pos in simp_all)
  have v: "keys_view t = keys_view (key_added b ?c s)" unfolding t_def by (rule char_key_view)
  have f: "keys_state t = keys_state s" "ctrl_pressed t = ctrl_pressed s" "key_buffer t = Some b"
    "key_buffer_pos t = key_buffer_pos s + 1" "right_bound t = right_bound s + 1"
    "terminal t = (terminal s)(b := (terminal s b)\<lparr>term_key_buffer := (term_key_buffer (terminal s b))(key_buffer_pos s := ?c)\<rparr>)"
    "enter_pressed t = enter_pressed s" "shift_pressed t = shift_pressed s" "capslock_state t = capslock_state s"
    "alt_pressed t = alt_pressed s"
    using v Cons.prems(4) by (simp_all add: keys_view_def key_added_def)
  have "unat (key_buffer_pos s + 1) = Suc (unat (key_buffer_pos s))" by (rule word_Suc_less [OF pos])
  then have "unat (key_buffer_pos t) + length ks \<le> 128" using Cons.prems(5) f(4) by simp
  then have "\<exists>u. presses T ks t = Some u \<and> keys_view u = keys_view
    (upd_terminal b (\<lambda>x. x\<lparr>term_key_buffer := put_keys (map (key_char (keys_state t)) ks) (key_buffer_pos t) (term_key_buffer x)\<rparr>)
      (t\<lparr>key_buffer_pos := key_buffer_pos t + of_nat (length ks), right_bound := right_bound t + int (length ks)\<rparr>))"
    using Cons.prems(1-3) by (intro Cons.IH) (simp_all add: f(1-3))
  then obtain u where u: "presses T ks t = Some u" "keys_view u = keys_view
    (upd_terminal b (\<lambda>x. x\<lparr>term_key_buffer := put_keys (map (key_char (keys_state t)) ks) (key_buffer_pos t) (term_key_buffer x)\<rparr>)
      (t\<lparr>key_buffer_pos := key_buffer_pos t + of_nat (length ks), right_bound := right_bound t + int (length ks)\<rparr>))"
    by blast
  have "length ks < 2 ^ 32 - 1" using Cons.prems(5) by simp
  then have "keys_view u = keys_view
    (upd_terminal b (\<lambda>x. x\<lparr>term_key_buffer := put_keys (map (key_char (keys_state s)) (k # ks)) (key_buffer_pos s) (term_key_buffer x)\<rparr>)
      (s\<lparr>key_buffer_pos := key_buffer_pos s + of_nat (length (k # ks)), right_bound := right_bound s + int (length (k # ks))\<rparr>))"
    unfolding u(2) using Cons.prems(4) by (simp add: keys_view_def f put_keys_Cons add.assoc)
  moreover have "presses T (k # ks) s = Some u" using u(1) h by simp
  ultimately show ?case by blast
qed

lemma handler_plain:
  assumes "(ucast k :: u32) \<noteq> 0xE0" and "handle_scancode T (ucast k) (key_state k s) = finished u"
  shows "keyboard_handler T (\<lambda>_ _. k) s = finished (sti u)"
  using assms by (simp add: handler_key_state)

lemma enter_key: "keyboard_handler T (\<lambda>_ _. 0x1C) s = finished (sti (handle_enter (key_state 0x1C s)))"
  by (rule handler_plain) (simp_all add: handle_scancode_def scancodes)

lemma enter_key_view:
  "keys_view (sti (handle_enter (key_state 0x1C s))) = keys_view (s\<lparr>enter_pressed := 1, right_bound := 7\<rparr>)"
proof -
  let ?s = "key_state 0x1C s"
  have "keys_view (handle_enter ?s) = keys_view (?s\<lparr>enter_pressed := 1, right_bound := 7\<rparr>)"
    using keys_view_con [OF con_step_enter] by (simp add: handle_enter_def Let_def)
  then show ?thesis using keys_view_key_state(1) [of "0x1C" s] by (simp add: keys_view_key_state(2)) (simp add: keys_view_def)
qed

text \<open>The line a buffer holds when characters have been put at its start.\<close>

lemma key_line_put:
  assumes "\<forall>i. unat i < 128 \<longrightarrow> kb i = 0" and "0 \<notin> set cs" and "length cs \<le> 128"
  shows "key_line (put_keys cs 0 kb) = cs"
proof -
  have nth: "put_keys cs 0 kb (of_nat i) = (if i < length cs then cs ! i else 0)" if "i < 128" for i
    using assms(1) that by (simp add: put_keys_def unat_of_nat_small)
  have "map (\<lambda>k. put_keys cs 0 kb (of_nat k)) [0..<128] = cs @ replicate (128 - length cs) 0"
    by (rule nth_equalityI) (use assms(3) nth in \<open>simp_all add: nth_append del: upt_rec_numeral\<close>)
  moreover have "takeWhile (\<lambda>c. c \<noteq> 0) (cs @ replicate m 0) = cs" for m
    using assms(2) by (subst takeWhile_append2) (auto simp: takeWhile_replicate)
  ultimately show ?thesis unfolding key_line_def by simp
qed

section \<open>Backspace\<close>

lemma backspace_key:
  assumes "key_buffer s = Some b" and "0 < key_buffer_pos s" and "key_buffer_pos s \<le> 128"
  shows "keyboard_handler T (\<lambda>_ _. 0x0E) s = finished (sti (do_backspace
    ((upd_terminal b (\<lambda>t. t\<lparr>term_key_buffer := (term_key_buffer t)(key_buffer_pos s - 1 := 0)\<rparr>) (key_state 0x0E s))
       \<lparr>key_buffer_pos := key_buffer_pos s - 1, right_bound := right_bound s - 1\<rparr>)))"
proof -
  let ?s = "key_state 0x0E s"
  have v: "key_buffer ?s = Some b" "key_buffer_pos ?s = key_buffer_pos s" "right_bound ?s = right_bound s"
    using keys_view_key_state(1) [of "0x0E" s] assms(1) by (simp_all add: keys_view_def)
  have "key_buffer_pos s - 1 < 128"
  proof -
    have "unat (key_buffer_pos s - 1) = unat (key_buffer_pos s) - 1"
      using assms(2) by (metis unat_minus_one word_gt_0)
    moreover have "unat (key_buffer_pos s) \<le> 128" "0 < unat (key_buffer_pos s)"
      using assms(2,3) by (simp_all add: word_le_nat_alt word_less_nat_alt)
    ultimately show ?thesis by (simp add: word_less_nat_alt)
  qed
  then have "handle_backpace ?s = Inr (do_backspace
    ((upd_terminal b (\<lambda>t. t\<lparr>term_key_buffer := (term_key_buffer t)(key_buffer_pos s - 1 := 0)\<rparr>) ?s)
       \<lparr>key_buffer_pos := key_buffer_pos s - 1, right_bound := right_bound s - 1\<rparr>))"
    using assms(2) v by (simp add: handle_backpace_def key_buffer_set_def KEY_BUFFER_SIZE_def Let_def)
      (rule arg_cong [where f = do_backspace], rule kernel.equality, simp_all)
  then have "handle_scancode T (ucast (0x0E :: u8)) ?s = finished (do_backspace
    ((upd_terminal b (\<lambda>t. t\<lparr>term_key_buffer := (term_key_buffer t)(key_buffer_pos s - 1 := 0)\<rparr>) ?s)
       \<lparr>key_buffer_pos := key_buffer_pos s - 1, right_bound := right_bound s - 1\<rparr>))"
    by (simp add: handle_scancode_def scancodes)
  then show ?thesis by (intro handler_plain) simp_all
qed

lemma do_backspace_fields:
  "keys_view (do_backspace s) = keys_view s"
  "screen_x (do_backspace s) = (if screen_x s = 0 \<and> screen_y s > 0 then 78 else screen_x s - 1)"
  "screen_y (do_backspace s) = (if screen_x s = 0 \<and> screen_y s > 0 then screen_y s - 1 else screen_y s)"
  "mem (do_backspace s) = (mem s)(vid (80 * screen_y (do_backspace s) + screen_x (do_backspace s)) := 0)"
  by (simp_all add: do_backspace_def Let_def update_cursor_loc_eq keys_view_def NUM_COLS_def)

section \<open>Every key\<close>

text \<open>
  The key buffer of terminal \<open>b\<close> is in use and the position inside it or at its end; the state of the
  modifiers selects a row of the keymap.
\<close>

definition keys_inv :: "int \<Rightarrow> 'a kernel_scheme \<Rightarrow> bool" where
  "keys_inv b s \<longleftrightarrow> key_buffer s = Some b \<and> key_buffer_pos s \<le> 128 \<and> keys_state s < 4"

text \<open>The row selected is the one for the modifiers held.\<close>

definition mods_ok :: "'a kernel_scheme \<Rightarrow> bool" where
  "mods_ok s \<longleftrightarrow> capslock_state s \<in> {0, 1} \<and> shift_pressed s \<in> {0, 1}
     \<and> keys_state s = (if capslock_state s = 1 then if shift_pressed s = 1 then 3 else 2
                        else if shift_pressed s = 1 then 1 else 0)"

definition mods_view :: "'a kernel_scheme \<Rightarrow> u8 \<times> u8 \<times> u8" where
  "mods_view s = (shift_pressed s, capslock_state s, keys_state s)"

lemma keys_inv_view: "keys_view t = keys_view s \<Longrightarrow> keys_inv b t = keys_inv b s \<and> mods_view t = mods_view s"
  by (simp add: keys_view_def keys_inv_def mods_view_def)

lemma mods_ok_view: "mods_view t = mods_view s \<Longrightarrow> mods_ok t = mods_ok s"
  by (simp add: mods_view_def mods_ok_def)

lemma key_pressed_ok:
  assumes "keys_inv b s"
  shows "\<exists>u. key_pressed_handler k s = Inr u \<and> keys_inv b u \<and> mods_view u = mods_view s"
proof -
  let ?c = "key_char (keys_state s) k"
  have clear: "keys_view (clear s) = keys_view s" by (rule keys_view_con [OF con_step_clear])
  then have cl: "keys_inv b ((clear s)\<lparr>key_buffer_pos := 0\<rparr>) \<and> mods_view ((clear s)\<lparr>key_buffer_pos := 0\<rparr>) = mods_view s"
    using assms by (simp add: keys_view_def keys_inv_def mods_view_def)
  have pt: "keys_inv b (putc ?c (key_added b ?c s)) \<and> mods_view (putc ?c (key_added b ?c s)) = mods_view s"
    if "key_buffer_pos s < 128"
  proof -
    have "keys_inv b (key_added b ?c s)" "mods_view (key_added b ?c s) = mods_view s"
      using assms word_less_le_Suc [OF that] by (simp_all add: keys_inv_def key_added_def mods_view_def)
    then show ?thesis
      using keys_inv_view [OF keys_view_con [OF con_step_putc [where c = ?c and s = "key_added b ?c s"]]] by simp
  qed
  have kb: "key_buffer s = Some b" using assms by (simp add: keys_inv_def)
  show ?thesis
    using cl pt assms kb
    by (auto simp: key_pressed_handler_def key_buffer_set_def KEY_BUFFER_SIZE_def key_added_def [symmetric] Let_def)
qed

lemma backspace_ok:
  assumes "keys_inv b s"
  shows "\<exists>u. handle_backpace s = Inr u \<and> keys_inv b u \<and> mods_view u = mods_view s"
proof (cases "key_buffer_pos s > 0")
  case True
  have "unat (key_buffer_pos s - 1) = unat (key_buffer_pos s) - 1"
    using True by (metis unat_minus_one word_gt_0)
  moreover have "unat (key_buffer_pos s) \<le> 128" "0 < unat (key_buffer_pos s)"
    using assms True by (simp_all add: keys_inv_def word_le_nat_alt word_less_nat_alt)
  ultimately have p: "key_buffer_pos s - 1 < 128" "key_buffer_pos s - 1 \<le> 128"
    by (simp_all add: word_less_nat_alt word_le_nat_alt)
  obtain u where u: "handle_backpace s = Inr (do_backspace u)"
    "key_buffer u = key_buffer s" "key_buffer_pos u = key_buffer_pos s - 1" "keys_state u = keys_state s"
    "mods_view u = mods_view s"
    using True p assms
    by (fastforce simp: handle_backpace_def key_buffer_set_def KEY_BUFFER_SIZE_def Let_def keys_inv_def mods_view_def)
  then have "keys_inv b u" using assms p(2) by (simp add: keys_inv_def)
  then show ?thesis using u keys_inv_view [OF do_backspace_fields(1), of b u] by auto
next
  case False
  then show ?thesis using assms by (simp add: handle_backpace_def)
qed

lemma enter_ok:
  assumes "keys_inv b s"
  shows "keys_inv b (handle_enter s) \<and> mods_view (handle_enter s) = mods_view s"
proof -
  have "keys_view (handle_enter s) = keys_view (s\<lparr>enter_pressed := 1, right_bound := 7\<rparr>)"
    using keys_view_con [OF con_step_enter] by (simp add: handle_enter_def Let_def)
  then show ?thesis using assms by (simp add: keys_view_def keys_inv_def mods_view_def)
qed

text \<open>The modifiers' own keys.\<close>

definition mod_keys :: "u32 set" where
  "mod_keys = {SHIFT_L, SHIFT_R, RELEASE SHIFT_L, RELEASE SHIFT_R, CAPSLOCK}"

definition switch_keys :: "u32 set" where
  "switch_keys = {F1_KEY, F2_KEY, F3_KEY}"

lemma scancode_ok:
  assumes i: "keys_inv b s" and k: "k \<notin> {ARROW_LEFT, ARROW_RIGHT}" "k \<notin> switch_keys \<or> alt_pressed s \<noteq> 1"
  shows "\<exists>u. handle_scancode T k s = finished u \<and> keys_inv b u \<and> (k \<notin> mod_keys \<longrightarrow> mods_view u = mods_view s)"
proof -
  consider "k \<in> mod_keys" | "k \<in> {CTRL, RELEASE CTRL, ALT_L, RELEASE ALT_L}" | "k \<in> switch_keys"
    | "k = ENTER" | "k = BACKSPACE"
    | "k \<notin> mod_keys" "k \<notin> {CTRL, RELEASE CTRL, ALT_L, RELEASE ALT_L}" "k \<notin> switch_keys" "k \<noteq> ENTER" "k \<noteq> BACKSPACE"
    by blast
  then show ?thesis
  proof cases
    case 1
    then show ?thesis using i by (auto simp: handle_scancode_def scancodes mod_keys_def keys_inv_def)
  next
    case 2
    then show ?thesis using i by (auto simp: handle_scancode_def scancodes mod_keys_def keys_inv_def mods_view_def)
  next
    case 3
    then show ?thesis using i k(2) by (auto simp: handle_scancode_def scancodes switch_keys_def)
  next
    case 4
    then show ?thesis using enter_ok [OF i] by (simp add: handle_scancode_def scancodes)
  next
    case 5
    then show ?thesis using backspace_ok [OF i] by (auto simp: handle_scancode_def scancodes)
  next
    case 6
    then have "handle_scancode T k s = map_sum id (\<lambda>s. (Returned 0, s)) (key_pressed_handler (ucast k) s)"
      using k(1) by (simp add: handle_scancode_def mod_keys_def switch_keys_def)
    then show ?thesis using key_pressed_ok [OF i, of "ucast k"] by auto
  qed
qed

lemma handler_ok:
  assumes i: "keys_inv b s" and k: "ucast k \<notin> {ARROW_LEFT, ARROW_RIGHT}" "ucast k \<notin> switch_keys \<or> alt_pressed s \<noteq> 1"
  shows "\<exists>t. keyboard_handler T (\<lambda>_ _. k) s = finished t \<and> keys_inv b t
    \<and> (ucast k \<notin> mod_keys \<longrightarrow> mods_view t = mods_view s)"
proof -
  let ?s = "key_state k s"
  have v: "keys_inv b ?s" "alt_pressed ?s = alt_pressed s" "mods_view ?s = mods_view s"
    using keys_view_key_state(1) [of k s] i by (simp_all add: keys_view_def keys_inv_def mods_view_def)
  obtain u where u: "(if ucast k \<noteq> (0xE0 :: u32) then handle_scancode T (ucast k) ?s else finished ?s) = finished u"
    "keys_inv b u" "ucast k \<notin> mod_keys \<longrightarrow> mods_view u = mods_view s"
    using scancode_ok [OF v(1) k(1)] k(2) v by (cases "ucast k = (0xE0 :: u32)") auto
  then have "keyboard_handler T (\<lambda>_ _. k) s = finished (sti u)" by (simp add: handler_key_state)
  then show ?thesis using u(2,3) keys_inv_view [OF keys_view_key_state(2), of b u] by auto
qed

lemma mod_key_effect:
  assumes "mods_ok s" and "k \<in> mod_keys"
  shows "\<exists>u. handle_scancode T k s = finished u \<and> (mods_ok u \<longleftrightarrow> \<not> (k = CAPSLOCK \<and> shift_pressed s = 1))"
proof -
  have bits: "capslock_state s = 0 \<or> capslock_state s = 1" "shift_pressed s = 0 \<or> shift_pressed s = 1"
    using assms(1) by (auto simp: mods_ok_def)
  consider "k = SHIFT_L \<or> k = SHIFT_R" | "k = RELEASE SHIFT_L \<or> k = RELEASE SHIFT_R" | "k = CAPSLOCK"
    using assms(2) by (auto simp: mod_keys_def)
  then show ?thesis
  proof cases
    case 1
    then have "handle_scancode T k s = finished (s\<lparr>shift_pressed := 1, keys_state := if capslock_state s = 1 then 3 else 1\<rparr>)"
      by (simp add: handle_scancode_def)
    moreover have "k \<noteq> CAPSLOCK" using 1 by (auto simp: scancodes)
    ultimately show ?thesis using bits(1) by (auto simp: mods_ok_def)
  next
    case 2
    then have "handle_scancode T k s = finished (s\<lparr>shift_pressed := 0, keys_state := if capslock_state s = 1 then 2 else 0\<rparr>)"
      by (auto simp: handle_scancode_def scancodes)
    moreover have "k \<noteq> CAPSLOCK" using 2 by (auto simp: scancodes)
    ultimately show ?thesis using bits(1) by (auto simp: mods_ok_def)
  next
    case 3
    then have "handle_scancode T k s = finished (if capslock_state s = 0 then s\<lparr>capslock_state := 1, keys_state := 2\<rparr>
        else s\<lparr>capslock_state := 0, keys_state := 0\<rparr>)"
      by (simp add: handle_scancode_def scancodes)
    then show ?thesis using bits 3 by (auto simp: mods_ok_def)
  qed
qed

lemma handler_mod_key:
  assumes "mods_ok s" and "ucast k \<in> mod_keys"
  shows "\<exists>t. keyboard_handler T (\<lambda>_ _. k) s = finished t \<and> (mods_ok t \<longleftrightarrow> \<not> (ucast k = CAPSLOCK \<and> shift_pressed s = 1))"
proof -
  let ?s = "key_state k s"
  have v: "mods_view ?s = mods_view s" using keys_view_key_state(1) [of k s] by (simp add: keys_view_def mods_view_def)
  then have m: "mods_ok ?s" "shift_pressed ?s = shift_pressed s" using assms(1) mods_ok_view [OF v] by (simp_all add: mods_view_def)
  obtain u where u: "handle_scancode T (ucast k) ?s = finished u"
    "mods_ok u \<longleftrightarrow> \<not> (ucast k = CAPSLOCK \<and> shift_pressed s = 1)"
    using mod_key_effect [OF m(1) assms(2)] m(2) by metis
  have "(ucast k :: u32) \<noteq> 0xE0" using assms(2) by (auto simp: mod_keys_def scancodes)
  then have "keyboard_handler T (\<lambda>_ _. k) s = finished (sti u)" using u(1) by (rule handler_plain)
  moreover have "mods_view (sti u) = mods_view u" by (simp add: mods_view_def sti_def)
  ultimately show ?thesis using u(2) mods_ok_view by blast
qed

lemma left_arrow_key:
  assumes "key_buffer s = Some b" and "key_buffer_pos s = 0" and "screen_x s \<noteq> 7"
  shows "\<exists>t. keyboard_handler T (\<lambda>_ _. 0x4B) s = finished t \<and> keyboard_handler T (\<lambda>_ _. 0x0E) t = Inl OutOfBounds"
proof -
  let ?s = "key_state 0x4B s"
  let ?u = "move_cursor_left ?s" let ?t = "sti ?u"
  have v: "key_buffer ?s = Some b" "key_buffer_pos ?s = 0"
    using keys_view_key_state(1) [of "0x4B" s] assms by (simp_all add: keys_view_def)
  have u: "key_buffer ?u = Some b" "key_buffer_pos ?u = - 1"
    using v assms(3) key_state_screen(1) [of "0x4B" s]
    by (simp_all add: move_cursor_left_def Let_def get_screen_x_def set_screen_pos_def update_cursor_loc_eq)
  have h: "keyboard_handler T (\<lambda>_ _. 0x4B) s = finished ?t"
    by (rule handler_plain) (simp_all add: handle_scancode_def scancodes)
  have w: "key_buffer (key_state 0x0E ?t) = Some b" "key_buffer_pos (key_state 0x0E ?t) = - 1"
    using keys_view_key_state(1) [of "0x0E" ?t] u by (simp_all add: keys_view_def sti_def)
  then have "handle_backpace (key_state 0x0E ?t) = Inl OutOfBounds"
    by (simp add: handle_backpace_def key_buffer_set_def KEY_BUFFER_SIZE_def Let_def word_gt_0)
  then have "keyboard_handler T (\<lambda>_ _. 0x0E) ?t = Inl OutOfBounds"
    by (simp add: handler_key_state handle_scancode_def scancodes)
  then show ?thesis using h by blast
qed

section \<open>Claims\<close>

text \<open>
  Claim C9. Typing keys with characters and then enter, in a terminal with an empty key buffer, makes the
  next \<open>terminal_read\<close> deliver exactly their characters, cut to the size asked for, and leaves the buffer
  empty for the next line.
\<close>

theorem typed_line_is_read:
  assumes "key_buffer s = Some b" and "key_buffer_pos s = 0" and "\<forall>i. unat i < 128 \<longrightarrow> term_key_buffer (terminal s b) i = 0"
    and "keys_state s < 4" and "ctrl_pressed s \<noteq> 1"
    and "list_all (\<lambda>k. unat k < 60 \<and> key_char (keys_state s) k \<noteq> 0) ks" and "length ks < 128"
    and "n = min (nat nbytes) (length ks)"
  shows "\<exists>t u. presses T (ks @ [0x1C]) s = Some t
    \<and> terminal_read buf nbytes t =
        Some (Inr (int n, \<lambda>i. if unat i < n then key_char (keys_state s) (ks ! unat i) else buf i, u))
    \<and> key_buffer_pos u = 0 \<and> (\<forall>i. unat i < 128 \<longrightarrow> term_key_buffer (terminal u b) i = 0)"
proof -
  let ?cs = "map (key_char (keys_state s)) ks"
  obtain v where v: "presses T ks s = Some v" "keys_view v = keys_view
    (upd_terminal b (\<lambda>x. x\<lparr>term_key_buffer := put_keys ?cs (key_buffer_pos s) (term_key_buffer x)\<rparr>)
      (s\<lparr>key_buffer_pos := key_buffer_pos s + of_nat (length ks), right_bound := right_bound s + int (length ks)\<rparr>))"
    using presses_chars [OF assms(4,6,5,1)] assms(2,7) by auto
  define t where "t = sti (handle_enter (key_state 0x1C v))"
  have t: "presses T (ks @ [0x1C]) s = Some t" using v(1) enter_key [of T v] by (simp add: presses_append t_def)
  have kv: "keys_view t = keys_view (v\<lparr>enter_pressed := 1, right_bound := 7\<rparr>)"
    unfolding t_def by (rule enter_key_view)
  have f: "key_buffer t = Some b" "enter_pressed t = 1"
    "term_key_buffer (terminal t b) = put_keys ?cs 0 (term_key_buffer (terminal s b))"
    using kv v(2) assms(1,2) by (simp_all add: keys_view_def)
  have "0 \<notin> set ?cs" using assms(6) by (auto simp: list_all_iff)
  then have line: "key_line (term_key_buffer (terminal t b)) = ?cs"
    unfolding f(3) using assms(3,7) by (intro key_line_put) simp_all
  have "terminal_read buf nbytes t = Some (Inr (int n, \<lambda>k. if unat k < n then ?cs ! unat k else buf k,
      upd_terminal b (\<lambda>b. b\<lparr>term_key_buffer := (\<lambda>k. if unat k < 128 then 0 else term_key_buffer b k)\<rparr>)
        (t\<lparr>enter_pressed := 0, key_buffer_pos := 0, right_bound := 7\<rparr>)))"
    by (rule terminal_read_eq) (use f line assms(7,8) in simp_all)
  moreover have "(\<lambda>k. if unat k < n then ?cs ! unat k else buf k) =
      (\<lambda>i. if unat i < n then key_char (keys_state s) (ks ! unat i) else buf i)"
    using assms(8) by (auto simp: fun_eq_iff)
  ultimately show ?thesis using t by auto
qed

theorem typed_line_is_read_witness:
  "\<exists>t u. presses some_tables [0x26, 0x1F, 0x1C] blank_kernel = Some t
     \<and> terminal_read (\<lambda>_. 0) 10 t = Some (Inr (2, \<lambda>i. if unat i < 2 then [108, 115] ! unat i else 0, u))"
proof -
  have k: "key_char 0 0x26 = 108" "key_char 0 0x1F = 115" by (simp_all add: key_char_def keymap_defs)
  have s: "key_buffer_pos blank_kernel = 0" "keys_state blank_kernel = 0" "ctrl_pressed blank_kernel = 0"
    by (simp_all add: blank_kernel_def rofs.defs)
  have f: "(\<lambda>i. if unat i < 2 then key_char 0 ([0x26, 0x1F] ! unat i) else 0) =
      (\<lambda>i :: u32. if unat i < 2 then [108, 115] ! unat i else (0 :: u8))"
    by (auto simp: fun_eq_iff less_2_cases_iff k)
  have l: "list_all (\<lambda>k. unat k < 60 \<and> key_char (keys_state blank_kernel) k \<noteq> 0) [0x26, 0x1F]"
    by (simp add: s k)
  have st: "keys_state blank_kernel < 4" "ctrl_pressed blank_kernel \<noteq> 1" by (simp_all add: s)
  have kb: "\<forall>i. unat i < 128 \<longrightarrow> term_key_buffer (terminal blank_kernel 0) i = 0"
    by (simp add: blank_terminal_def)
  from typed_line_is_read [OF _ s(1) kb st l, of 2 10 some_tables "\<lambda>_. 0"]
  show ?thesis unfolding s f by auto
qed



text \<open>
  Claim C16. A key other than a cursor key or a terminal switch never makes the handler go outside the
  key buffer: the handler finishes and the position stays within it. The left cursor key does not
  check the position: at the start of an empty line it underflows, and backspace then writes outside.
\<close>

theorem key_buffer_in_bounds:
  assumes "keys_inv b s" and "ucast k \<notin> {ARROW_LEFT, ARROW_RIGHT}" and "ucast k \<notin> switch_keys \<or> alt_pressed s \<noteq> 1"
  shows "(\<exists>t. keyboard_handler T (\<lambda>_ _. k) s = finished t \<and> keys_inv b t)
    \<and> (key_buffer_pos s = 0 \<and> screen_x s \<noteq> 7 \<longrightarrow>
        (\<exists>t. keyboard_handler T (\<lambda>_ _. 0x4B) s = finished t \<and> keyboard_handler T (\<lambda>_ _. 0x0E) t = Inl OutOfBounds))"
  using handler_ok [OF assms] left_arrow_key [of s b T] assms(1) by (auto simp: keys_inv_def)

lemma blank_kernel_keys:
  "keys_inv 0 blank_kernel" "mods_ok blank_kernel" "alt_pressed blank_kernel = 0" "shift_pressed blank_kernel = 0"
  "key_buffer_pos blank_kernel = 0" "screen_x blank_kernel = 0"
  by (simp_all add: keys_inv_def mods_ok_def blank_kernel_def rofs.defs tiny_fs_def init_rofs_def Let_def paging.defs
      blank_paging_def)

theorem key_buffer_in_bounds_witness:
  "\<exists>t. keyboard_handler some_tables (\<lambda>_ _. 0x4B) blank_kernel = finished t
     \<and> keyboard_handler some_tables (\<lambda>_ _. 0x0E) t = Inl OutOfBounds"
  using key_buffer_in_bounds [OF blank_kernel_keys(1), of "0x1E" some_tables] blank_kernel_keys
  by (simp add: scancodes switch_keys_def)

text \<open>
  Claim C37. The keymap row in use stays the one for the modifiers held, with one exception: capslock
  pressed while shift is held, which selects the row as if shift were not held.
\<close>

theorem modifiers_select_row:
  assumes "keys_inv b s" and "mods_ok s" and "ucast k \<notin> {ARROW_LEFT, ARROW_RIGHT}"
    and "ucast k \<notin> switch_keys \<or> alt_pressed s \<noteq> 1"
  shows "\<exists>t. keyboard_handler T (\<lambda>_ _. k) s = finished t
    \<and> (mods_ok t \<longleftrightarrow> \<not> (ucast k = CAPSLOCK \<and> shift_pressed s = 1))"
proof (cases "ucast k \<in> mod_keys")
  case True
  then show ?thesis by (rule handler_mod_key [OF assms(2)])
next
  case False
  then have "ucast k \<noteq> CAPSLOCK" by (auto simp: mod_keys_def)
  then show ?thesis using handler_ok [OF assms(1,3,4), of T] False mods_ok_view assms(2) by blast
qed

theorem modifiers_select_row_witness:
  "\<exists>t. keyboard_handler some_tables (\<lambda>_ _. 0x2A) blank_kernel = finished t \<and> mods_ok t"
  using modifiers_select_row [OF blank_kernel_keys(1,2), of "0x2A" some_tables] blank_kernel_keys
  by (auto simp: scancodes switch_keys_def)

end
