(* ===== verification/IDT.thy ===== *)
theory IDT
  imports Procs Keyboard
begin

text \<open>
  The interrupt descriptor table of \<^verbatim>\<open>student-distrib/idt.c\<close>: the entries \<open>init_idt\<close> writes, the
  exception handlers made by \<open>CREATE_EXCEPTION\<close> and the generic one. Where the linker puts a handler
  is a parameter. A gate of the IA-32 manual is read off an entry's fields.
\<close>

section \<open>Handlers\<close>

datatype handler = EX_DIVIDE_ERROR | EX_DEBUG | EX_NON_MASKABLE_INTERRUPT | EX_BREAKPOINT | EX_OVERFLOW
  | EX_BOUND_RANGE_EXCEEDED | EX_INVALID_OPCODE | EX_DEVICE_NOT_AVAILABLE | EX_DOUBLE_FAULT
  | EX_COPROCESSOR_SEGMENT_OVERRUN | EX_INVALID_TSS | EX_SEGMENT_NOT_PRESENT | EX_STACK_FAULT
  | EX_GENERAL_PROTECTION | EX_PAGE_FAULT | EX_UNKNOWN | EX_FLOATING_POINT_ERROR | EX_ALIGNMENT_CHECK
  | EX_MACHINE_CHECK | EX_FLOATING_POINT | EX_GENERIC | Handle_rtc | Handle_keyboard | Handle_syscall

text \<open>The message of an exception; the other handlers are not made from one.\<close>

fun exception_message :: "handler \<Rightarrow> string option" where
  "exception_message EX_DIVIDE_ERROR = Some ''(DE) Divide Error Exception!''"
| "exception_message EX_DEBUG = Some ''(DB) Debug Exception!''"
| "exception_message EX_NON_MASKABLE_INTERRUPT = Some ''(NI) Non Maskable Interrupt!''"
| "exception_message EX_BREAKPOINT = Some ''(BP) Breakpoint Exception!''"
| "exception_message EX_OVERFLOW = Some ''(OF) Overflow Excepion!''"
| "exception_message EX_BOUND_RANGE_EXCEEDED = Some ''(BR) Bound Range Exceeded Exception!''"
| "exception_message EX_INVALID_OPCODE = Some ''(UD) Invalid Opcode Exception!''"
| "exception_message EX_DEVICE_NOT_AVAILABLE = Some ''(NM) Device Not Available Exception!''"
| "exception_message EX_DOUBLE_FAULT = Some ''(DF) Double Fault Exception!''"
| "exception_message EX_COPROCESSOR_SEGMENT_OVERRUN = Some ''(CS) Coprocessor Segment Overrun!''"
| "exception_message EX_INVALID_TSS = Some ''(TS) Invalid TSS Exception!''"
| "exception_message EX_SEGMENT_NOT_PRESENT = Some ''(NP) Segment Not Present!''"
| "exception_message EX_STACK_FAULT = Some ''(SS) Stack Fault Exception!''"
| "exception_message EX_GENERAL_PROTECTION = Some ''(GP) General Protection Exception!''"
| "exception_message EX_PAGE_FAULT = Some ''(PF) Page Fault Exception!''"
| "exception_message EX_UNKNOWN = Some ''(UN) Unknown Exception!''"
| "exception_message EX_FLOATING_POINT_ERROR = Some ''(MF) x87 Floating-Point Error!''"
| "exception_message EX_ALIGNMENT_CHECK = Some ''(AC) Alignment Check Exception!''"
| "exception_message EX_MACHINE_CHECK = Some ''(MC) Machine Check Exception!''"
| "exception_message EX_FLOATING_POINT = Some ''(XM) SIMD Floating Point Exception!''"
| "exception_message _ = None"

text \<open>
  \<open>printf("%s\n", message); halt(-1);\<close> where the directive \<open>%s\<close> is a \<open>puts\<close> of the message. The status
  \<open>-1\<close> becomes a byte.
\<close>

definition exception ::
  "tables \<Rightarrow> device \<Rightarrow> string \<Rightarrow> 'a kernel_scheme \<Rightarrow> (fault + outcome \<times> 'a kernel_scheme) option" where
  "exception T dev message s =
     map_option (\<lambda>(_, s). halt T dev (- 1) (putc 10 s)) (puts (c_str message) s)"

definition generic_exception :: "tables \<Rightarrow> device \<Rightarrow> 'a kernel_scheme \<Rightarrow> fault + outcome \<times> 'a kernel_scheme" where
  "generic_exception T dev s =
     (let s = cli s;
          s = printk ''An unknown interrupt occured!\<newline>'' s
      in case halt T dev (- 1) s of
           Inl e \<Rightarrow> Inl e
         | Inr (Returned n, s) \<Rightarrow> Inr (Returned n, sti s)
         | Inr r \<Rightarrow> Inr r)"

section \<open>The table\<close>

record idt_desc_t =
  offset_15_00 :: u16
  seg_selector :: u16
  reserved4 :: u8
  reserved3 :: bool
  reserved2 :: bool
  reserved1 :: bool
  size_32 :: bool
  reserved0 :: bool
  dpl :: nat
  present :: bool
  offset_31_16 :: u16

definition NUM_VEC :: nat where [const_defs]: "NUM_VEC = 256"
definition KERNEL_CS :: u16 where [const_defs]: "KERNEL_CS = 0x10"
definition INT_KEYBOARD :: nat where [const_defs]: "INT_KEYBOARD = 0x21"
definition INT_RTC :: nat where [const_defs]: "INT_RTC = 0x28"
definition INT_SYSCALL :: nat where [const_defs]: "INT_SYSCALL = 0x80"

definition SET_IDT_ENTRY :: "(handler \<Rightarrow> u32) \<Rightarrow> nat \<Rightarrow> handler \<Rightarrow> (nat \<Rightarrow> idt_desc_t) \<Rightarrow> nat \<Rightarrow> idt_desc_t" where
  "SET_IDT_ENTRY at i h idt =
     (let idt = idt(i := (idt i)\<lparr>offset_31_16 := ucast (drop_bit 16 (at h AND 0xFFFF0000))\<rparr>)
      in idt(i := (idt i)\<lparr>offset_15_00 := ucast (at h AND 0xFFFF)\<rparr>))"

text \<open>The body of the loop, and the loop.\<close>

definition init_gate :: "(handler \<Rightarrow> u32) \<Rightarrow> nat \<Rightarrow> (nat \<Rightarrow> idt_desc_t) \<Rightarrow> nat \<Rightarrow> idt_desc_t" where
  "init_gate at i idt =
     (let idt = idt(i := (idt i)\<lparr>seg_selector := KERNEL_CS, reserved4 := 0,
                reserved3 := (i < 32 \<or> i = INT_SYSCALL), reserved2 := True, reserved1 := True, size_32 := True,
                reserved0 := False, dpl := (if i = INT_SYSCALL then 3 else 0), present := True\<rparr>)
      in if i \<ge> 32 then SET_IDT_ENTRY at i EX_GENERIC idt else idt)"

definition exceptions :: "handler list" where
  "exceptions = [EX_DIVIDE_ERROR, EX_DEBUG, EX_NON_MASKABLE_INTERRUPT, EX_BREAKPOINT, EX_OVERFLOW,
     EX_BOUND_RANGE_EXCEEDED, EX_INVALID_OPCODE, EX_DEVICE_NOT_AVAILABLE, EX_DOUBLE_FAULT,
     EX_COPROCESSOR_SEGMENT_OVERRUN, EX_INVALID_TSS, EX_SEGMENT_NOT_PRESENT, EX_STACK_FAULT,
     EX_GENERAL_PROTECTION, EX_PAGE_FAULT, EX_UNKNOWN, EX_FLOATING_POINT_ERROR, EX_ALIGNMENT_CHECK,
     EX_MACHINE_CHECK, EX_FLOATING_POINT]"

definition init_idt :: "(handler \<Rightarrow> u32) \<Rightarrow> (nat \<Rightarrow> idt_desc_t) \<Rightarrow> nat \<Rightarrow> idt_desc_t" where
  "init_idt at idt =
     (let idt = fold (init_gate at) [0..<NUM_VEC] idt;
          idt = fold (\<lambda>(i, h). SET_IDT_ENTRY at i h) (zip [0x00..<0x14] exceptions) idt;
          idt = SET_IDT_ENTRY at INT_RTC Handle_rtc idt;
          idt = SET_IDT_ENTRY at INT_KEYBOARD Handle_keyboard idt
      in SET_IDT_ENTRY at INT_SYSCALL Handle_syscall idt)"

section \<open>What the processor reads\<close>

text \<open>The handler's address in an entry, and the kind of its gate.\<close>

definition gate_offset :: "idt_desc_t \<Rightarrow> u32" where
  "gate_offset g = push_bit 16 (ucast (offset_31_16 g)) OR ucast (offset_15_00 g)"

definition gate_ok :: "idt_desc_t \<Rightarrow> bool" where
  "gate_ok g \<longleftrightarrow> present g \<and> seg_selector g = KERNEL_CS \<and> size_32 g \<and> \<not> reserved0 g \<and> reserved1 g \<and> reserved2 g
     \<and> reserved4 g = 0"

lemma split_offset:
  fixes a :: u32 and hi lo :: u16
  assumes hi: "hi = ucast (drop_bit 16 (a AND 0xFFFF0000))" and lo: "lo = ucast (a AND 0xFFFF)"
  shows "push_bit 16 (ucast hi) OR ucast lo = a"
proof (rule bit_word_eqI)
  fix n assume n: "n < LENGTH(32)"
  have l: "bit (0xFFFF :: u32) m \<longleftrightarrow> m < 16" for m
  proof -
    have "(0xFFFF :: u32) = mask 16" by (simp add: mask_eq_exp_minus_1)
    then show ?thesis by (simp only: bit_mask_iff) auto
  qed
  have h: "bit (0xFFFF0000 :: u32) m \<longleftrightarrow> 16 \<le> m \<and> m < 32" for m
  proof -
    have e: "(0xFFFF0000 :: u32) = NOT 0xFFFF" by simp
    show ?thesis unfolding e by (simp only: bit_not_iff l) auto
  qed
  have bl: "bit lo m \<longleftrightarrow> m < 16 \<and> bit a m" for m
    unfolding lo by (auto simp: bit_ucast_iff bit_and_iff l simp del: bit_numeral_word_iff)
  have bh: "bit hi m \<longleftrightarrow> m < 16 \<and> bit a (16 + m)" for m
    unfolding hi by (simp only: bit_ucast_iff bit_drop_bit_eq comp_apply bit_and_iff h) auto
  show "bit (push_bit 16 (ucast hi) OR ucast lo :: u32) n = bit a n"
    using n by (auto simp: bit_or_iff bit_push_bit_iff bit_ucast_iff bl bh)
qed

lemma SET_IDT_ENTRY_eq:
  "SET_IDT_ENTRY at i h idt j =
     (if j = i then (idt i)\<lparr>offset_31_16 := ucast (drop_bit 16 (at h AND 0xFFFF0000)),
        offset_15_00 := ucast (at h AND 0xFFFF)\<rparr> else idt j)"
  by (simp add: SET_IDT_ENTRY_def Let_def)

lemma gate_offset_set [simp]: "gate_offset (SET_IDT_ENTRY at i h idt i) = at h"
  by (rule trans [OF _ split_offset [OF refl refl]]) (simp add: gate_offset_def SET_IDT_ENTRY_eq)

lemma SET_IDT_ENTRY_same:
  "gate_ok (SET_IDT_ENTRY at i h idt j) = gate_ok (idt j)" "dpl (SET_IDT_ENTRY at i h idt j) = dpl (idt j)"
  "reserved3 (SET_IDT_ENTRY at i h idt j) = reserved3 (idt j)"
  "j \<noteq> i \<Longrightarrow> SET_IDT_ENTRY at i h idt j = idt j"
  by (auto simp: SET_IDT_ENTRY_eq gate_ok_def)

lemma init_gate_eq:
  "j \<noteq> i \<Longrightarrow> init_gate at i idt j = idt j"
  "gate_ok (init_gate at i idt i)" "dpl (init_gate at i idt i) = (if i = INT_SYSCALL then 3 else 0)"
  "reserved3 (init_gate at i idt i) \<longleftrightarrow> i < 32 \<or> i = INT_SYSCALL"
  "32 \<le> i \<Longrightarrow> gate_offset (init_gate at i idt i) = at EX_GENERIC"
  "i < 32 \<Longrightarrow> gate_offset (init_gate at i idt i) = gate_offset (idt i)"
proof -
  let ?g = "idt(i := (idt i)\<lparr>seg_selector := KERNEL_CS, reserved4 := 0,
                reserved3 := (i < 32 \<or> i = INT_SYSCALL), reserved2 := True, reserved1 := True, size_32 := True,
                reserved0 := False, dpl := (if i = INT_SYSCALL then 3 else 0), present := True\<rparr>)"
  have e: "init_gate at i idt = (if 32 \<le> i then SET_IDT_ENTRY at i EX_GENERIC ?g else ?g)"
    by (simp add: init_gate_def Let_def)
  show "j \<noteq> i \<Longrightarrow> init_gate at i idt j = idt j" by (simp add: e SET_IDT_ENTRY_same(4))
  show "gate_ok (init_gate at i idt i)" by (simp add: e SET_IDT_ENTRY_same) (simp add: gate_ok_def)
  show "dpl (init_gate at i idt i) = (if i = INT_SYSCALL then 3 else 0)" by (simp add: e SET_IDT_ENTRY_same)
  show "reserved3 (init_gate at i idt i) \<longleftrightarrow> i < 32 \<or> i = INT_SYSCALL" by (simp add: e SET_IDT_ENTRY_same)
  show "32 \<le> i \<Longrightarrow> gate_offset (init_gate at i idt i) = at EX_GENERIC" by (simp add: e)
  show "i < 32 \<Longrightarrow> gate_offset (init_gate at i idt i) = gate_offset (idt i)" by (simp add: e gate_offset_def)
qed

lemma init_gate_cong: "f i = g i \<Longrightarrow> init_gate at i f i = init_gate at i g i"
  by (simp add: init_gate_def Let_def SET_IDT_ENTRY_eq)

lemma init_gates:
  "fold (init_gate at) [0..<n] idt j = (if j < n then init_gate at j idt j else idt j)"
proof (induction n)
  case (Suc n)
  let ?f = "fold (init_gate at) [0..<n] idt"
  have step: "fold (init_gate at) [0..<Suc n] idt = init_gate at n ?f" by simp
  show ?case
  proof (cases "j = n")
    case True
    have "init_gate at n ?f n = init_gate at n idt n"
      using Suc True by (intro init_gate_cong) simp
    then show ?thesis unfolding step using True by simp
  next
    case False
    then show ?thesis unfolding step init_gate_eq(1) [OF False] using Suc by simp
  qed
qed simp

lemma set_handlers:
  "gate_offset (fold (\<lambda>(i, h). SET_IDT_ENTRY at i h) (zip [0..<length hs] hs) idt j) =
     (if j < length hs then at (hs ! j) else gate_offset (idt j))"
  "gate_ok (fold (\<lambda>(i, h). SET_IDT_ENTRY at i h) (zip [0..<length hs] hs) idt j) = gate_ok (idt j)"
  "dpl (fold (\<lambda>(i, h). SET_IDT_ENTRY at i h) (zip [0..<length hs] hs) idt j) = dpl (idt j)"
  "reserved3 (fold (\<lambda>(i, h). SET_IDT_ENTRY at i h) (zip [0..<length hs] hs) idt j) = reserved3 (idt j)"
proof (induction hs rule: rev_induct)
  case (snoc h hs)
  let ?f = "fold (\<lambda>(i, h). SET_IDT_ENTRY at i h) (zip [0..<length hs] hs) idt"
  have step: "fold (\<lambda>(i, h). SET_IDT_ENTRY at i h) (zip [0..<length (hs @ [h])] (hs @ [h])) idt =
      SET_IDT_ENTRY at (length hs) h ?f" by simp
  show "gate_offset (fold (\<lambda>(i, h). SET_IDT_ENTRY at i h) (zip [0..<length (hs @ [h])] (hs @ [h])) idt j) =
     (if j < length (hs @ [h]) then at ((hs @ [h]) ! j) else gate_offset (idt j))"
    unfolding step using snoc.IH(1)
    by (cases "j = length hs") (simp_all add: SET_IDT_ENTRY_same(4) nth_append)
  show "gate_ok (fold (\<lambda>(i, h). SET_IDT_ENTRY at i h) (zip [0..<length (hs @ [h])] (hs @ [h])) idt j) = gate_ok (idt j)"
    "dpl (fold (\<lambda>(i, h). SET_IDT_ENTRY at i h) (zip [0..<length (hs @ [h])] (hs @ [h])) idt j) = dpl (idt j)"
    "reserved3 (fold (\<lambda>(i, h). SET_IDT_ENTRY at i h) (zip [0..<length (hs @ [h])] (hs @ [h])) idt j) = reserved3 (idt j)"
    unfolding step using snoc.IH by (simp_all add: SET_IDT_ENTRY_same(1-3))
qed simp_all

text \<open>The handler each vector gets; none for the vectors 20 to 31, whose entries keep their old offset.\<close>

definition vector_handler :: "nat \<Rightarrow> handler option" where
  "vector_handler v =
     (if v < 20 then Some (exceptions ! v) else if v < 32 then None
      else if v = 0x21 then Some Handle_keyboard else if v = 0x28 then Some Handle_rtc
      else if v = 0x80 then Some Handle_syscall else Some EX_GENERIC)"

lemma init_idt_fields:
  assumes "v < 256"
  shows "gate_ok (init_idt at idt v)" "dpl (init_idt at idt v) = (if v = 0x80 then 3 else 0)"
    "reserved3 (init_idt at idt v) \<longleftrightarrow> v < 32 \<or> v = 0x80"
    "gate_offset (init_idt at idt v) = (case vector_handler v of None \<Rightarrow> gate_offset (idt v) | Some h \<Rightarrow> at h)"
proof -
  let ?g = "fold (init_gate at) [0..<256] idt"
  define e where "e = fold (\<lambda>(i, h). SET_IDT_ENTRY at i h) (zip [0..<length exceptions] exceptions) ?g"
  have "(0x14 :: nat) = length exceptions" by (simp add: exceptions_def)
  then have t: "init_idt at idt = SET_IDT_ENTRY at 0x80 Handle_syscall
      (SET_IDT_ENTRY at 0x21 Handle_keyboard (SET_IDT_ENTRY at 0x28 Handle_rtc e))"
    unfolding e_def init_idt_def Let_def NUM_VEC_def INT_RTC_def INT_KEYBOARD_def INT_SYSCALL_def by simp
  have g: "?g v = init_gate at v idt v" using assms init_gates [of at 256 idt v] by simp
  have len: "length exceptions = 20" by (simp add: exceptions_def)
  have i: "INT_SYSCALL = 0x80" by (simp add: INT_SYSCALL_def)
  show "gate_ok (init_idt at idt v)" "dpl (init_idt at idt v) = (if v = 0x80 then 3 else 0)"
    "reserved3 (init_idt at idt v) \<longleftrightarrow> v < 32 \<or> v = 0x80"
    unfolding t e_def by (simp_all only: SET_IDT_ENTRY_same(1-3) set_handlers(2-4) g init_gate_eq(2-4) i)
  have "gate_offset (e v) = (if v < 20 then at (exceptions ! v) else if v < 32 then gate_offset (idt v) else at EX_GENERIC)"
    unfolding e_def set_handlers(1) g unfolding len by (auto simp: init_gate_eq(5,6))
  then show "gate_offset (init_idt at idt v) = (case vector_handler v of None \<Rightarrow> gate_offset (idt v) | Some h \<Rightarrow> at h)"
    unfolding t vector_handler_def
    by (cases "v = 0x80"; cases "v = 0x21"; cases "v = 0x28") (simp_all add: SET_IDT_ENTRY_same(4))
qed

section \<open>Exceptions\<close>

lemma exception_text: "exception_message h = Some m \<Longrightarrow> is_str (c_str m) (map of_char m)"
  by (cases h) (auto simp: is_str_def c_str_def nth_append unat_of_nat less_Suc_eq)

lemma exception_eq:
  assumes "exception_message h = Some m"
  shows "\<exists>u. exception T dev m s = Some (halt T dev (- 1) u) \<and> con_step s u"
proof -
  have "puts (c_str m) s = Some (of_nat (length m), fold putc (map of_char m) s)"
    using puts_is_str [OF exception_text [OF assms]] by simp
  moreover have "con_step s (putc 10 (fold putc (map of_char m) s))"
    by (rule con_step_trans [OF con.ok_fold con_step_putc])
  ultimately show ?thesis
    by (intro exI [of _ "putc 10 (fold putc (map of_char m) s)"]) (simp add: exception_def)
qed

section \<open>Claims\<close>


definition blank_gate :: idt_desc_t where
  "blank_gate = \<lparr>offset_15_00 = 0, seg_selector = 0, reserved4 = 0, reserved3 = False, reserved2 = False,
     reserved1 = False, size_32 = False, reserved0 = False, dpl = 0, present = False, offset_31_16 = 0\<rparr>"


text \<open>The message is printed and the process ends with the byte of \<open>-1\<close>.\<close>

lemma ends_process:
  assumes "proc_rel A s" and "top_stack A = p # q # ps" and "on_stack p (esp s)" and "exception_message h = Some m"
  shows "\<exists>t. exception T dev m s = Some (Inr (ResumeParent 255, t)) \<and> proc_rel (set_top (q # ps) A) t
    \<and> esp t = parent_esp (pcbs s (get_pcb (of_nat p))) \<and> window_of T t (of_nat q)"
proof -
  obtain u where u: "exception T dev m s = Some (halt T dev (- 1) u)" "con_step s u"
    using exception_eq [OF assms(4)] by blast
  have k: "kern_same s u" using u(2) by (rule kern_same_con)
  then have r: "proc_rel A u" "on_stack p (esp u)" "parent_esp (pcbs u b) = parent_esp (pcbs s b)" for b
    using proc_rel_same [OF assms(1)] assms(3) by (simp_all add: kern_same_def proc_same_def)
  have "(- 1 :: u8) = 255" by simp
  then show ?thesis
    using halt_pops_rel [OF r(1) assms(2) r(2), of T dev "- 1"] walked_window r(3) u(1) by metis
qed

text \<open>
  Claim C13. An exception in a process that another one executed ends it with status 255 and resumes the
  parent, which gets its stack, control block and window back.
\<close>

theorem exception_ends_process:
  assumes "proc_rel A s" and "top_stack A = p # q # ps" and "on_stack p (esp s)" and "exception_message h = Some m"
  shows "\<exists>t. exception T dev m s = Some (Inr (ResumeParent 255, t)) \<and> proc_rel (set_top (q # ps) A) t
    \<and> esp t = parent_esp (pcbs s (get_pcb (of_nat p))) \<and> window_of T t (of_nat q)"
  by (rule ends_process [OF assms])

theorem exception_ends_process_witness:
  "\<exists>t. exception some_tables (\<lambda>_ _. 0) ''(DE) Divide Error Exception!'' pair_kernel = Some (Inr (ResumeParent 255, t))
     \<and> esp t = 0x7FFE00"
proof -
  have "on_stack 1 (esp pair_kernel)"
    by (simp add: pair_kernel_def on_stack_def get_pcb_def const_defs)
  moreover have "top_stack (set_top [1, 0] no_procs) = [1, 0]" by (simp add: stacks_set_top)
  moreover have "parent_esp (pcbs pair_kernel (get_pcb 1)) = 0x7FFE00" by (simp add: pair_kernel_def)
  ultimately show ?thesis
    using exception_ends_process [OF pair_kernel_rel, of 1 0 "[]" EX_DIVIDE_ERROR "''(DE) Divide Error Exception!''"
        some_tables "\<lambda>_ _. 0"] by auto
qed

end
