(* ===== verification/Boot.thy ===== *)
theory Boot
  imports IDT
begin

text \<open>
  The part of \<open>entry\<close> in \<^verbatim>\<open>student-distrib/kernel.c\<close> that starts the kernel: the stack in the task state
  segment, the interrupt controllers, the keyboard, paging and the terminals.
\<close>

definition start_kernel :: "tables \<Rightarrow> 'a kernel_scheme \<Rightarrow> fault + outcome \<times> 'a kernel_scheme" where
  "start_kernel T s =
     (let s = s\<lparr>tss_ss0 := KERNEL_DS\<rparr>;
          s = s\<lparr>tss_esp0 := 0x800000\<rparr>;
          s = i8259_init s;
          s = init_keyboard s;
          s = sti s;
          s = init_paging T s
      in init_terminals T s)"

lemma ports_keep [simp]:
  "pg (outb x p s) = pg s" "processes_flags (outb x p k) = processes_flags k"
  "pg (enable_irq n s) = pg s" "processes_flags (enable_irq n k) = processes_flags k"
  "mem (enable_irq n c) = mem c" "boot_block (enable_irq n r) = boot_block r" "inodes (enable_irq n r) = inodes r"
  "data_blocks (enable_irq n r) = data_blocks r" "mem (outb x p d) = mem d" "boot_block (outb x p r) = boot_block r"
  "inodes (outb x p r) = inodes r" "data_blocks (outb x p r) = data_blocks r"
  by (simp_all add: outb_def enable_irq_eq)

text \<open>What \<open>init_terminals\<close> finds: the initial mapping, and the static data of the kernel as it was.\<close>

lemma start_kernel_eq:
  obtains u where "start_kernel T s = init_terminals T u" "pg u = walked u"
    "processes_flags u = processes_flags s" "userTable (walked u) = userTable (pg s)"
    "\<And>i. unat i < 1024 \<Longrightarrow> pageDir (walked u) i =
       (if i = 0 then pageTable_at T OR 3 else if i = 1 then FOUR_MB OR PAGE_DIR_FLAGS else 2)"
    "mem u = mem s" "boot_block u = boot_block s" "inodes u = inodes s" "data_blocks u = data_blocks s"
proof -
  define v where "v = sti (init_keyboard (i8259_init (s\<lparr>tss_ss0 := KERNEL_DS, tss_esp0 := 0x800000\<rparr>)))"
  have v: "pg v = pg s" "processes_flags v = processes_flags s" "mem v = mem s" "boot_block v = boot_block s"
    "inodes v = inodes s" "data_blocks v = data_blocks s"
    by (simp_all add: v_def sti_def cli_def init_keyboard_def i8259_init_def Let_def)
  have "start_kernel T s = init_terminals T (init_paging T v)"
    by (simp add: start_kernel_def v_def Let_def)
  moreover have "pg (init_paging T v) = walked (init_paging T v)"
    using tlb_ok_ops(1) [of T v] by (simp add: tlb_ok_def)
  moreover have "processes_flags (init_paging T v) = processes_flags s"
    "userTable (walked (init_paging T v)) = userTable (pg s)"
    by (simp_all add: init_paging_def Let_def init_loop ARR_SIZE_def v)
  moreover have "mem (init_paging T v) = mem s" "boot_block (init_paging T v) = boot_block s"
    "inodes (init_paging T v) = inodes s" "data_blocks (init_paging T v) = data_blocks s"
    by (simp_all add: init_paging_def Let_def v)
  ultimately show ?thesis using init_paging_dir [of _ T v] that by blast
qed

end
