(* ===== verification/System.thy ===== *)
theory System
  imports Boot
begin

text \<open>
  The kernel as a state machine: a state is the processor's mode and the kernel's data, a step is user
  code writing where the page tables let it, a trap from user code to the kernel stack that the task
  state segment names, a return to user code, or a system call, key press or exception run to its end.
  An invariant of all reachable states ties the pieces together: the processes, the stack the kernel
  runs on, the page tables and the saved stacks of the terminals.

  Two steps are left out: the end of the last process of a terminal, and the start of a terminal, when
  the shell cannot be started. A trap stays on its 8 KB kernel stack, which the code does not check.
\<close>

section \<open>Steps\<close>

datatype mode = User | Kernel

text \<open>A stack pointer in the same 8 KB as another.\<close>

definition same_stack :: "u32 \<Rightarrow> u32 \<Rightarrow> bool" where
  "same_stack e f \<longleftrightarrow> drop_bit 13 e = drop_bit 13 f"

text \<open>More than one process runs on the current terminal.\<close>

definition has_parent :: "'a kernel_scheme \<Rightarrow> bool" where
  "has_parent s \<longleftrightarrow> num_processes (terminal s (term_cur s - 1)) > 1"

inductive kstep :: "tables \<Rightarrow> mode \<times> 'a kernel_scheme \<Rightarrow> mode \<times> 'a kernel_scheme \<Rightarrow> bool" for T :: tables where
  Trap: "same_stack e (tss_esp0 s) \<Longrightarrow> kstep T (User, s) (Kernel, s\<lparr>intr := i, esp := e, ebp := b\<rparr>)"
| Run: "\<forall>a. (\<nexists>v. translate T s v = Some (a, True)) \<longrightarrow> m a = mem s a \<Longrightarrow> kstep T (User, s) (User, s\<lparr>mem := m\<rparr>)"
| Return: "kstep T (Kernel, s) (User, sti s)"
| Execute: "execute T dev command s = Inr (Returned n, t) \<Longrightarrow> kstep T (Kernel, s) (Kernel, t)"
| Execute_enter: "execute T dev command s = Inr (EnterUser eip, t) \<Longrightarrow> kstep T (Kernel, s) (User, t)"
| Execute_exit: "execute T dev command s = Inr (ResumeParent status, t) \<Longrightarrow> has_parent s \<Longrightarrow>
    kstep T (Kernel, s) (Kernel, t)"
| Halt: "halt T dev status s = Inr (ResumeParent status', t) \<Longrightarrow> has_parent s \<Longrightarrow> kstep T (Kernel, s) (Kernel, t)"
| Halt_enter: "halt T dev status s = Inr (EnterUser eip, t) \<Longrightarrow> kstep T (Kernel, s) (User, t)"
| Read: "sys_read fd buf n s = Some (Inr (r, buf', t)) \<Longrightarrow> kstep T (Kernel, s) (Kernel, t)"
| Write: "sys_write dev fd buf n s = (r, t) \<Longrightarrow> kstep T (Kernel, s) (Kernel, t)"
| Open: "sys_open dev name s = (r, t) \<Longrightarrow> kstep T (Kernel, s) (Kernel, t)"
| Close: "sys_close dev fd s = (r, t) \<Longrightarrow> kstep T (Kernel, s) (Kernel, t)"
| Getargs: "getargs T ubuf n s = Some (Inr (r, t)) \<Longrightarrow> kstep T (Kernel, s) (Kernel, t)"
| Vidmap: "vidmap T p s = Inr (r, t) \<Longrightarrow> kstep T (Kernel, s) (Kernel, t)"
| Key: "keyboard_handler T (\<lambda>_ _. k) s = Inr (Returned n, t) \<Longrightarrow>
    ucast k \<notin> switch_keys \<or> alt_pressed s \<noteq> 1 \<Longrightarrow> kstep T (Kernel, s) (Kernel, t)"
| Switch: "switch_terminal T term s = Inr (Returned n, t) \<Longrightarrow> term \<in> {1, 2, 3} \<Longrightarrow>
    init (terminal s (term - 1)) \<noteq> 0 \<or> \<not> can_execute s \<Longrightarrow> kstep T (Kernel, s) (Kernel, t)"
| Switch_enter: "switch_terminal T term s = Inr (EnterUser eip, t) \<Longrightarrow> term \<in> {1, 2, 3} \<Longrightarrow> kstep T (Kernel, s) (User, t)"
| Exception: "exception T dev m s = Some (Inr (ResumeParent status, t)) \<Longrightarrow> exception_message h = Some m \<Longrightarrow>
    has_parent s \<Longrightarrow> kstep T (Kernel, s) (Kernel, t)"
| Exception_enter: "exception T dev m s = Some (Inr (EnterUser eip, t)) \<Longrightarrow> exception_message h = Some m \<Longrightarrow>
    kstep T (Kernel, s) (User, t)"

inductive_cases kstepE: "kstep T c d"
inductive_simps kstep_user: "kstep T (User, s) c"

text \<open>Reachable: by steps from the first shell.\<close>

inductive reachable :: "tables \<Rightarrow> mode \<times> 'a kernel_scheme \<Rightarrow> bool" for T :: tables where
  Boot: "processes_flags s = 0 \<Longrightarrow> userTable (pg s) = (\<lambda>_. 0) \<Longrightarrow> start_kernel T s = Inr (EnterUser eip, t) \<Longrightarrow> reachable T (User, t)"
| Step: "reachable T c \<Longrightarrow> kstep T c d \<Longrightarrow> reachable T d"

section \<open>The invariant\<close>

text \<open>
  Each terminal has its page; it has been started when it has processes; the stack saved for one that
  is not current is that of its running process.
\<close>

definition term_sys :: "int \<Rightarrow> nat list \<Rightarrow> int \<Rightarrow> terminal_t \<Rightarrow> bool" where
  "term_sys cur ps t x \<longleftrightarrow> vid_mem x = term_page t \<and> (init x \<noteq> 0 \<longleftrightarrow> ps \<noteq> [])
     \<and> (t \<noteq> cur - 1 \<and> ps \<noteq> [] \<longrightarrow> on_stack (hd ps) (term_esp x))"

text \<open>
  The page tables: the kernel's page, the video page, the window, the terminals' pages and, after
  \<open>vidmap\<close>, the video page again at \<open>VIRTUAL_END\<close>. Nothing else is present.
\<close>

definition entries_ok :: "tables \<Rightarrow> entries \<Rightarrow> bool" where
  "entries_ok T p \<longleftrightarrow> pageDir p 0 = pageTable_at T OR 3
     \<and> pageDir p 1 = FOUR_MB OR PAGE_DIR_FLAGS \<and> pageDir p 25 = userTable_at T OR RWP_FLAGS
     \<and> pageDir p 33 \<in> {2, userTable_at T OR RWP_FLAGS}
     \<and> (\<forall>i. unat i < 1024 \<and> i \<notin> {0, 1, 25, 32, 33} \<longrightarrow> pageDir p i = 2)
     \<and> userTable p 0 \<in> {0, VIDEOMEM OR RWP_FLAGS} \<and> userTable p 1 = TERM_1_MEM OR RWP_FLAGS
     \<and> userTable p 2 = TERM_2_MEM OR RWP_FLAGS \<and> userTable p 3 = TERM_3_MEM OR RWP_FLAGS
     \<and> (\<forall>i. i \<notin> {0, 1, 2, 3} \<longrightarrow> userTable p i = 0)"

definition maps_ok :: "tables \<Rightarrow> 'a kernel_scheme \<Rightarrow> bool" where
  "maps_ok T s \<longleftrightarrow> tlb_ok s \<and> entries_ok T (walked s)"

definition window_entry :: "tables \<Rightarrow> 'a kernel_scheme \<Rightarrow> nat \<Rightarrow> bool" where
  "window_entry T s k \<longleftrightarrow> maps_ok T s \<and> pageDir (walked s) (dir_index VIRTUAL_START) = frame_of (of_nat k) OR RW_FLAGS"

definition kern_ok :: "tables \<Rightarrow> procs \<Rightarrow> mode \<Rightarrow> 'a kernel_scheme \<Rightarrow> bool" where
  "kern_ok T A m s \<longleftrightarrow> proc_rel A s \<and> top_stack A \<noteq> []
     \<and> (m = Kernel \<longrightarrow> on_stack (hd (top_stack A)) (esp s)) \<and> on_stack (hd (top_stack A)) (tss_esp0 s)
     \<and> window_entry T s (hd (top_stack A))
     \<and> (\<forall>t\<in>{0, 1, 2}. term_sys (current A) (stacks A t) t (terminal s t))"

lemma maps_ok_same: "maps_ok T s \<Longrightarrow> walked t = walked s \<Longrightarrow> pg t = pg s \<Longrightarrow> maps_ok T t"
  by (auto simp: maps_ok_def tlb_ok_def)

text \<open>A new window, and the page \<open>vidmap\<close> adds.\<close>

lemma entries_ok_upd:
  "entries_ok T p \<Longrightarrow> entries_ok T (p\<lparr>pageDir := (pageDir p)(32 := x)\<rparr>)"
  "entries_ok T p \<Longrightarrow> entries_ok T (p\<lparr>pageDir := (pageDir p)(33 := userTable_at T OR RWP_FLAGS),
     userTable := (userTable p)(0 := VIDEOMEM OR RWP_FLAGS)\<rparr>)"
  by (auto simp: entries_ok_def)

lemma kern_okD:
  assumes "kern_ok T A m s"
  shows "proc_rel A s" "top_stack A \<noteq> []" "m = Kernel \<Longrightarrow> on_stack (hd (top_stack A)) (esp s)"
    "on_stack (hd (top_stack A)) (tss_esp0 s)" "window_entry T s (hd (top_stack A))"
    "t \<in> {0, 1, 2} \<Longrightarrow> term_sys (current A) (stacks A t) t (terminal s t)"
    "hd (top_stack A) < 6" "hd (top_stack A) \<in> set (all_procs A)" "maps_ok T s"
proof -
  show r: "proc_rel A s" and ne: "top_stack A \<noteq> []" using assms unfolding kern_ok_def by blast+
  show "hd (top_stack A) \<in> set (all_procs A)"
    using top_in_all [OF proc_relD(2) [OF r]] ne by (cases "top_stack A") auto
  then show "hd (top_stack A) < 6" using proc_relD(4) [OF r] by auto
  show "maps_ok T s" using assms unfolding kern_ok_def window_entry_def by blast
qed (use assms in \<open>unfold kern_ok_def, blast+\<close>)

lemma term_sys_same:
  "vid_mem y = vid_mem x \<Longrightarrow> init y = init x \<Longrightarrow> term_esp y = term_esp x \<Longrightarrow> term_sys c ps t y = term_sys c ps t x"
  by (simp add: term_sys_def)

lemma term_sys_same2: "term_same s t \<Longrightarrow> term_sys c ps i (terminal t i) = term_sys c ps i (terminal s i)"
  unfolding term_same_def by (rule term_sys_same) blast+

text \<open>Calls that leave processes, stacks and page tables alone keep it.\<close>

lemma kern_ok_same: "kern_ok T A m s \<Longrightarrow> kern_same s t \<Longrightarrow> kern_ok T A m t"
proof -
  assume ok: "kern_ok T A m s" and k: "kern_same s t"
  have "proc_rel A t" using proc_rel_same [OF kern_okD(1) [OF ok]] k by (simp add: kern_same_def)
  moreover have "term_sys (current A) (stacks A i) i (terminal t i)" if "i \<in> {0, 1, 2}" for i
    using kern_okD(6) [OF ok that] term_sys_same2 [of s t] k by (simp add: kern_same_def)
  moreover have w: "walked t = walked s" "pg t = pg s" using k by (simp_all add: kern_same_def)
  have "window_entry T t (hd (top_stack A))"
    using kern_okD(5) [OF ok] maps_ok_same [OF _ w] by (simp add: window_entry_def w(1))
  moreover have "esp t = esp s" "tss_esp0 t = tss_esp0 s" using k by (simp_all add: kern_same_def)
  ultimately show ?thesis using ok by (simp add: kern_ok_def)
qed

section \<open>Stacks\<close>

lemma on_stack_iff:
  assumes "k < 6"
  shows "on_stack k e \<longleftrightarrow> unat e div 0x2000 = unat (get_pcb (of_nat k)) div 0x2000"
proof -
  let ?b = "get_pcb (of_nat k)"
  have n: "unat (of_nat k :: u32) = k" using assms by (simp add: unat_of_nat_small)
  then have "(of_nat k :: u32) < 1024" using assms by (simp add: word_less_nat_alt)
  then have b: "unat ?b = 0x800000 - 0x2000 * (k + 1)" using unat_get_pcb [of "of_nat k"] n by simp
  have al: "unat ?b = 0x2000 * (1023 - k)" using b assms by simp
  have "on_stack k e \<longleftrightarrow> unat (e - ?b) < 0x2000"
    by (simp add: on_stack_def EIGHT_KB_BLOCK_def word_less_nat_alt)
  also have "\<dots> \<longleftrightarrow> unat ?b \<le> unat e \<and> unat e < unat ?b + 0x2000"
  proof (cases "?b \<le> e")
    case True
    then have "unat (e - ?b) = unat e - unat ?b" "unat ?b \<le> unat e" by (simp_all add: unat_sub word_le_nat_alt)
    then show ?thesis by linarith
  next
    case False
    then have lt: "unat e < unat ?b" by (simp add: word_le_nat_alt)
    then have "unat (e - ?b) = 2 ^ 32 + unat e - unat ?b" by (simp add: unat_sub_if')
    then show ?thesis using lt b by simp
  qed
  also have "\<dots> \<longleftrightarrow> unat e div 0x2000 = unat ?b div 0x2000"
    unfolding al by (auto simp: div_nat_eqI)
  finally show ?thesis .
qed

lemma unat_drop_13: "unat (drop_bit 13 e) = unat e div 0x2000" for e :: u32
  by (simp add: drop_bit_eq_div unat_div_distrib)

lemma same_stack_on: "k < 6 \<Longrightarrow> same_stack e f \<Longrightarrow> on_stack k f \<Longrightarrow> on_stack k e"
proof -
  assume k: "k < 6" and "same_stack e f" and f: "on_stack k f"
  then have "unat e div 0x2000 = unat f div 0x2000"
    unfolding same_stack_def using unat_drop_13 by metis
  then show ?thesis using on_stack_iff [OF k] f by simp
qed

lemma kernel_stack_on: "k < 6 \<Longrightarrow> on_stack k (kernel_stack (of_nat k))"
proof -
  assume "k < 6"
  then have "kernel_stack (of_nat k) - get_pcb (of_nat k) = 0x1FFC"
    by (simp add: kernel_stack_def get_pcb_def const_defs ucast_small_pid algebra_simps)
  then show ?thesis by (simp add: on_stack_def EIGHT_KB_BLOCK_def)
qed

section \<open>Every step keeps it\<close>

lemma remap_window_entry:
  assumes m: "maps_ok T s" and w: "walked t = walked (remap VIRTUAL_START (frame_of (of_nat k)) s)" and "tlb_ok t"
  shows "window_entry T t k"
proof -
  have "walked t = (walked s)\<lparr>pageDir := (pageDir (walked s))(32 := frame_of (of_nat k) OR RW_FLAGS)\<rparr>"
    using w m by (simp add: maps_ok_def tlb_ok_def remap_def refresh_tbl_def Let_def const_defs)
  moreover have "dir_index VIRTUAL_START = 32" by (simp add: dir_index_def const_defs)
  ultimately show ?thesis using m assms(3) by (simp add: window_entry_def maps_ok_def entries_ok_upd)
qed

text \<open>A new process on top of \<open>A\<close>, whose current terminal has been started.\<close>

lemma kern_ok_entered:
  assumes e: "entered A k s t" and m: "maps_ok T s" and i: "init (terminal s (current A - 1)) \<noteq> 0"
    and ts: "\<And>i. i \<in> {0, 1, 2} \<Longrightarrow> vid_mem (terminal s i) = term_page i \<and>
        (i \<noteq> current A - 1 \<longrightarrow> term_sys (current A) (stacks A i) i (terminal s i))"
  shows "kern_ok T (set_top (k # top_stack A) A) User t"
proof -
  let ?A = "set_top (k # top_stack A) A"
  have f: "proc_rel ?A t" "k < 6" "tss_esp0 t = kernel_stack (of_nat k)" "term_same s t" "window_entry T t k"
    using e remap_window_entry [OF m] unfolding entered_def by blast+
  have "term_sys (current ?A) (stacks ?A j) j (terminal t j)" if j: "j \<in> {0, 1, 2}" for j
  proof (cases "j = current A - 1")
    case True
    have "vid_mem (terminal t j) = term_page j" "init (terminal t j) \<noteq> 0"
      using ts [OF j] i True f(4) unfolding term_same_def by auto
    then show ?thesis using True by (simp add: term_sys_def stacks_set_top)
  next
    case False
    then show ?thesis using ts [OF j] term_sys_same2 [OF f(4)] by (simp add: stacks_set_top)
  qed
  then show ?thesis
    using f kernel_stack_on [OF f(2)] unfolding kern_ok_def by (simp add: stacks_set_top)
qed

lemma kern_ok_push: "kern_ok T A m s \<Longrightarrow> entered A k s t \<Longrightarrow> kern_ok T (set_top (k # top_stack A) A) User t"
proof (erule kern_ok_entered)
  assume ok: "kern_ok T A m s"
  show "maps_ok T s" by (rule kern_okD(9) [OF ok])
  note c = current_cases [OF proc_relD(2) [OF kern_okD(1) [OF ok]]]
  show "init (terminal s (current A - 1)) \<noteq> 0"
    using kern_okD(6) [OF ok c] kern_okD(2) [OF ok] by (simp add: term_sys_def top_stack_def)
  show "vid_mem (terminal s i) = term_page i \<and>
      (i \<noteq> current A - 1 \<longrightarrow> term_sys (current A) (stacks A i) i (terminal s i))" if "i \<in> {0, 1, 2}" for i
    using kern_okD(6) [OF ok that] by (simp add: term_sys_def)
qed

text \<open>A process that ends with no parent makes room for a shell.\<close>

lemma kern_ok_relaunch:
  assumes ok: "kern_ok T A m s" and e: "entered (set_top [] A) k s t"
  shows "kern_ok T (set_top [k] A) User t"
proof -
  note c = current_cases [OF proc_relD(2) [OF kern_okD(1) [OF ok]]]
  have "kern_ok T (set_top (k # top_stack (set_top [] A)) (set_top [] A)) User t"
  proof (rule kern_ok_entered [OF e kern_okD(9) [OF ok]])
    show "init (terminal s (current (set_top [] A) - 1)) \<noteq> 0"
      using kern_okD(6) [OF ok c] kern_okD(2) [OF ok] by (simp add: term_sys_def top_stack_def stacks_set_top)
    show "vid_mem (terminal s i) = term_page i \<and> (i \<noteq> current (set_top [] A) - 1 \<longrightarrow>
        term_sys (current (set_top [] A)) (stacks (set_top [] A) i) i (terminal s i))" if "i \<in> {0, 1, 2}" for i
      using kern_okD(6) [OF ok that] by (simp add: term_sys_def stacks_set_top)
  qed
  then show ?thesis by (simp add: stacks_set_top)
qed

lemma has_parent_rel: "kern_ok T A m s \<Longrightarrow> has_parent s \<longleftrightarrow> (\<exists>p q ps. top_stack A = p # q # ps)"
proof -
  assume ok: "kern_ok T A m s"
  have "num_processes (terminal s (term_cur s - 1)) = int (length (top_stack A))"
    using proc_relD(1,6) [OF kern_okD(1) [OF ok]] by simp
  then show ?thesis
    using kern_okD(2) [OF ok] unfolding has_parent_def
    by (cases "top_stack A"; cases "tl (top_stack A)") auto
qed

text \<open>Ending a process, with a parent and without.\<close>

lemma kern_ok_halt:
  assumes ok: "kern_ok T A Kernel s" and h: "halt T dev status s = Inr (r, t)"
  shows "(\<exists>n. r = Returned n) \<or> (\<exists>st. r = ResumeParent st \<and> (has_parent s \<longrightarrow> (\<exists>A. kern_ok T A Kernel t))) \<or>
    (\<exists>eip A. r = EnterUser eip \<and> kern_ok T A User t)"
proof -
  note r = kern_okD(1) [OF ok]
  show ?thesis
  proof (cases "has_parent s")
    case True
    then obtain p q ps where top: "top_stack A = p # q # ps" using has_parent_rel [OF ok] by blast
    have e: "on_stack p (esp s)" using kern_okD(3) [OF ok] top by simp
    from halt_pops_rel [OF r top e, of T dev status]
    obtain u where u: "halt T dev status s = Inr (ResumeParent status, u)" "proc_rel (set_top (q # ps) A) u"
      "on_stack q (esp u)" "tss_esp0 u = esp u" "tlb_ok u" "term_same s u"
      "walked u = walked (remap VIRTUAL_START (frame_of (of_nat q)) s)" by blast
    have "term_sys (current (set_top (q # ps) A)) (stacks (set_top (q # ps) A) i) i (terminal u i)" if "i \<in> {0, 1, 2}" for i
      unfolding term_sys_same2 [OF u(6)] using kern_okD(6) [OF ok that] top
      by (cases "i = current A - 1") (simp_all add: term_sys_def stacks_set_top top_stack_def)
    then have "kern_ok T (set_top (q # ps) A) Kernel u"
      using u remap_window_entry [OF kern_okD(9) [OF ok] u(7,5)] unfolding kern_ok_def by (simp add: stacks_set_top)
    then show ?thesis using h u(1) by auto
  next
    case False
    then obtain p where top: "top_stack A = [p]"
      using has_parent_rel [OF ok] kern_okD(2) [OF ok] by (metis neq_Nil_conv)
    have e: "on_stack p (esp s)" using kern_okD(3) [OF ok] top by simp
    have "\<exists>B. kern_ok T B User t" if "r = EnterUser eip" for eip
      using halt_last_rel [OF r top e h [unfolded that]] kern_ok_relaunch [OF ok] by blast
    then show ?thesis using False by (cases r) auto
  qed
qed

lemma halt_no_return: "halt T dev status s \<noteq> Inr (Returned n, t)"
  by (auto simp: halt_halted or_shell_def resume_parent_def Let_def
      split: sum.splits prod.splits outcome.splits if_splits)

lemma kern_same_sti: "kern_same s (sti s)"
  by (simp add: kern_same_def term_same_def proc_same_def sti_def)

lemma kern_ok_execute:
  assumes ok: "kern_ok T A Kernel s" and x: "execute T dev command s = Inr (r, t)"
  shows "(\<exists>n. r = Returned n \<and> kern_ok T A Kernel t) \<or>
    (\<exists>st. r = ResumeParent st \<and> (has_parent s \<longrightarrow> (\<exists>A. kern_ok T A Kernel t))) \<or>
    (\<exists>eip A. r = EnterUser eip \<and> kern_ok T A User t)"
proof (cases command)
  case None
  then have "r = Returned (- 1)" "t = sti (cli s)" using x by (auto simp: execute_def Let_def)
  then show ?thesis using kern_ok_same [OF ok kern_same_trans [OF cli_same(1) kern_same_sti]] by blast
next
  case (Some c)
  obtain com_buf i where tok: "copy_token [32, 0, 10] c (\<lambda>_. 0) 0 = Inr (com_buf, i)"
    using x Some by (auto simp: execute_def Let_def split: sum.splits)
  have ok': "kern_ok T A Kernel (cli s)" by (rule kern_ok_same [OF ok cli_same(1)])
  show ?thesis
  proof (cases "strncmp com_buf (c_str ''exit'') 4 = 0")
    case True
    obtain r' t' where h: "halt T dev 0 (cli s) = Inr (r', t')"
      using x Some tok True by (auto simp: execute_def Let_def split: sum.splits)
    have "r' \<noteq> Returned n" for n using h halt_no_return by blast
    then have rt: "r = r'" "t = t'"
      using x Some tok True h by (auto simp: execute_def Let_def split: outcome.splits)
    have "has_parent (cli s) = has_parent s" by (simp add: has_parent_def cli_def)
    then show ?thesis using kern_ok_halt [OF ok' h] rt \<open>\<And>n. r' \<noteq> Returned n\<close> by auto
  next
    case False
    then have "exec_command T c s = Inr (r, t)"
      using x Some tok by (simp add: execute_def exec_command_def Let_def)
    from exec_command_rel [OF kern_okD(1) [OF ok] kern_okD(3) [OF ok refl] this]
    show ?thesis using kern_ok_same [OF ok] kern_ok_push [OF ok] by blast
  qed
qed

lemma kern_ok_term: "kern_ok T A m s \<Longrightarrow> t \<in> {0, 1, 2} \<Longrightarrow> vid_mem (terminal s t) \<in> {TERM_1_MEM, TERM_2_MEM, TERM_3_MEM}"
  using kern_okD(6) [of T A m s t] term_page_cases [of t] by (simp add: term_sys_def)

text \<open>Loading a terminal that has been started.\<close>

lemma kern_ok_load:
  assumes ok: "kern_ok T A Kernel s" and tm: "term \<in> {1, 2, 3}" "term \<noteq> term_cur s"
    and i: "init (terminal s (term - 1)) \<noteq> 0" and t: "t = sti (snd (terminal_load term (switching term s)))"
  shows "kern_ok T (A\<lparr>current := term\<rparr>) Kernel t"
proof -
  let ?A = "A\<lparr>current := term\<rparr>" and ?u = "switching term s"
  note r = kern_okD(1) [OF ok] and cur = proc_relD(1) [OF kern_okD(1) [OF ok]]
  have c: "term_cur s - 1 \<in> {0, 1, 2}" "term - 1 \<in> {0, 1, 2}" "term - 1 \<noteq> term_cur s - 1"
    using current_cases [OF proc_relD(2) [OF r]] cur tm by auto
  note sw = switching_fields [OF kern_ok_term [OF ok c(1)] refl, where tm = "term"]
  have v: "vid_mem (terminal ?u (term - 1)) \<in> {TERM_1_MEM, TERM_2_MEM, TERM_3_MEM}"
    using kern_ok_term [OF ok c(2)] sw(9) by simp
  note ld = terminal_load_fields [OF v]
  have x: "terminal ?u (term - 1) = terminal s (term - 1)" by (rule sw(8) [OF c(3)])
  have ne: "stacks A (term - 1) \<noteq> []" using kern_okD(6) [OF ok c(2)] i by (simp add: term_sys_def)
  have top: "top_stack ?A = stacks A (term - 1)" by (simp add: top_stack_def)
  define k where "k = hd (stacks A (term - 1))"
  have k: "k < 6" "term_pid (terminal s (term - 1)) = of_nat k" "on_stack k (term_esp (terminal s (term - 1)))"
  proof -
    have "k \<in> set (all_procs A)" using stacks_in_all [OF c(2), of A] hd_in_set [OF ne] by (auto simp: k_def)
    then show "k < 6" using proc_relD(4) [OF r] by auto
    have "terms_ok A (terminal s)" using r unfolding proc_rel_def by blast
    then show "term_pid (terminal s (term - 1)) = of_nat k" using c(2) ne unfolding terms_ok_def k_def by blast
    show "on_stack k (term_esp (terminal s (term - 1)))"
      using kern_okD(6) [OF ok c(2)] ne c(3) cur unfolding term_sys_def k_def by auto
  qed
  have "proc_same ?u t"
    unfolding t using ld by (simp add: proc_same_def sti_def)
  then have rel: "proc_rel ?A t"
    using proc_rel_switch [OF r tm(1)] sw(2) proc_same_trans by blast
  have w: "window_entry T t k"
  proof (rule remap_window_entry)
    show "maps_ok T ?u" by (rule maps_ok_same [OF kern_okD(9) [OF ok] sw(5,6)])
    show "walked t = walked (remap VIRTUAL_START (frame_of (of_nat k)) ?u)"
      unfolding t using ld(13) x k by (simp add: sti_def ucast_small_pid)
    show "tlb_ok t" unfolding t by (simp add: terminal_load_def Let_def tlb_ok_def sti_def remap_def refresh_tbl_def
        set_screen_pos_def update_cursor_loc_eq)
  qed
  have fields: "esp t = term_esp (terminal s (term - 1))" "tss_esp0 t = kernel_stack (of_nat k)" "terminal t = terminal ?u"
    unfolding t using ld x k by (simp_all add: sti_def)
  have "term_sys term (stacks A j) j (terminal t j)" if j: "j \<in> {0, 1, 2}" for j
  proof (cases "j = term_cur s - 1")
    case True
    have "on_stack (hd (stacks A j)) (esp s)"
      using kern_okD(3) [OF ok refl] True cur by (simp add: top_stack_def)
    then show ?thesis using kern_okD(6) [OF ok j] sw(7,9,10) True fields(3) by (simp add: term_sys_def)
  next
    case False
    then show ?thesis using kern_okD(6) [OF ok j] sw(8) [OF False] fields(3) cur by (simp add: term_sys_def)
  qed
  then show ?thesis
    using rel ne fields k kernel_stack_on [OF k(1)] w unfolding kern_ok_def top k_def by simp
qed

text \<open>Starting a terminal.\<close>

lemma kern_ok_start:
  assumes ok: "kern_ok T A Kernel s" and tm: "term \<in> {1, 2, 3}" "term \<noteq> term_cur s"
    and i: "init (terminal s (term - 1)) = 0" and x: "terminal_start T term (switching term s) = Inr (EnterUser eip, t)"
  shows "\<exists>B. kern_ok T B User t"
proof -
  let ?A = "A\<lparr>current := term\<rparr>" and ?u = "switching term s"
  note r = kern_okD(1) [OF ok] and cur = proc_relD(1) [OF kern_okD(1) [OF ok]]
  have c: "term_cur s - 1 \<in> {0, 1, 2}" "term - 1 \<in> {0, 1, 2}" "term - 1 \<noteq> term_cur s - 1"
    using current_cases [OF proc_relD(2) [OF r]] cur tm by auto
  note sw = switching_fields [OF kern_ok_term [OF ok c(1)] refl, where tm = "term"]
  have top: "top_stack ?A = []" using kern_okD(6) [OF ok c(2)] i by (simp add: top_stack_def term_sys_def)
  have rel: "proc_rel ?A ?u" by (rule proc_rel_switch [OF r tm(1) sw(2)])
  obtain k where e: "entered ?A k (show_terminal term ?u) t"
    using terminal_start_rel [OF rel top x] by auto
  note sh = show_terminal_fields [where t = "show_terminal term ?u" and s = ?u, OF refl]
  have "kern_ok T (set_top (k # top_stack ?A) ?A) User t"
  proof (rule kern_ok_entered [OF e])
    show "maps_ok T (show_terminal term ?u)"
      by (rule maps_ok_same [OF kern_okD(9) [OF ok]]) (simp_all add: sh(4,5) sw(5,6))
    show "init (terminal (show_terminal term ?u) (current ?A - 1)) \<noteq> 0" by (simp add: sh(6))
    fix j :: int assume j: "j \<in> {0, 1, 2}"
    have s: "term_sys (current A) (stacks A j) j (terminal s j)" by (rule kern_okD(6) [OF ok j])
    have "term_sys term (stacks A j) j (terminal (show_terminal term ?u) j)" if "j \<noteq> term - 1"
    proof (cases "j = term_cur s - 1")
      case True
      have "on_stack (hd (stacks A j)) (esp s)"
        using kern_okD(3) [OF ok refl] True cur by (simp add: top_stack_def)
      then show ?thesis using s sw(7,9,10) True that by (simp add: term_sys_def sh(6))
    next
      case False
      then show ?thesis using s sw(8) [OF False] cur that by (simp add: term_sys_def sh(6))
    qed
    moreover have "vid_mem (terminal (show_terminal term ?u) j) = term_page j"
      using s sw(9) [of j] by (auto simp add: sh(6) term_sys_def)
    ultimately show "vid_mem (terminal (show_terminal term ?u) j) = term_page j \<and> (j \<noteq> current ?A - 1 \<longrightarrow>
        term_sys (current ?A) (stacks ?A j) j (terminal (show_terminal term ?u) j))" by simp
  qed
  then show ?thesis by blast
qed

text \<open>Fields outside what \<open>kern_same\<close> looks at.\<close>

lemma kern_same_upds [simp]:
  "kern_same s (t\<lparr>key_buffer_pos := w\<rparr>) = kern_same s t" "kern_same s (t\<lparr>right_bound := x\<rparr>) = kern_same s t"
  "kern_same s (t\<lparr>enter_pressed := y\<rparr>) = kern_same s t" "kern_same s (t\<lparr>shift_pressed := y\<rparr>) = kern_same s t"
  "kern_same s (t\<lparr>capslock_state := y\<rparr>) = kern_same s t" "kern_same s (t\<lparr>ctrl_pressed := y\<rparr>) = kern_same s t"
  "kern_same s (t\<lparr>alt_pressed := y\<rparr>) = kern_same s t" "kern_same s (t\<lparr>keys_state := y\<rparr>) = kern_same s t"
  "kern_same s (t\<lparr>screen_x := x\<rparr>) = kern_same s t" "kern_same s (t\<lparr>screen_y := x\<rparr>) = kern_same s t"
  "kern_same s (t\<lparr>io := es\<rparr>) = kern_same s t" "kern_same s (t\<lparr>intr := b\<rparr>) = kern_same s t"
  "kern_same s (t\<lparr>mem := m\<rparr>) = kern_same s t" "kern_same s (t\<lparr>slave_mask := y\<rparr>) = kern_same s t"
  "kern_same s (t\<lparr>int_occur := z\<rparr>) = kern_same s t"
  "terminal t = f \<Longrightarrow> kern_same s (t\<lparr>terminal := f(i := (f i)\<lparr>term_key_buffer := kb\<rparr>)\<rparr>) = kern_same s t"
  "pcbs t = g \<Longrightarrow> kern_same s (t\<lparr>pcbs := g(p := (g p)\<lparr>files := fs\<rparr>)\<rparr>) = kern_same s t"
  by (auto simp: kern_same_def term_same_def proc_same_def)

lemma kern_same_fields [simp]:
  "kern_same s (sti t) = kern_same s t" "kern_same s (cli t) = kern_same s t"
  "kern_same s (set_screen_pos a b t) = kern_same s t" "kern_same s (update_cursor_loc a b t) = kern_same s t"
  by (simp_all add: sti_def cli_def set_screen_pos_def update_cursor_loc_eq)

lemma kern_same_conI: "con_step t u \<Longrightarrow> kern_same s t \<Longrightarrow> kern_same s u"
  by (rule kern_same_trans [OF _ kern_same_con])

text \<open>Calls on files.\<close>

lemma kern_same_open: "kern_same s (snd (sys_open dev name s))"
proof (cases name)
  case None
  then show ?thesis by (simp add: sys_open_refused)
next
  case (Some n)
  consider "read_dentry_by_name s n = None" | "find_slot 6 2 (cur_files s) = None"
    | d i where "read_dentry_by_name s n = Some d" "find_slot 6 2 (cur_files s) = Some i" "type_ops (file_type d) = None"
    | d i ops where "read_dentry_by_name s n = Some d" "find_slot 6 2 (cur_files s) = Some i"
      "type_ops (file_type d) = Some ops"
    by (metis option.exhaust)
  then show ?thesis
  proof cases
    case 4
    then show ?thesis using sys_open_ok [of s n d i ops dev] Some by auto
  qed (simp_all add: Some sys_open_refused sys_open_bad_type)
qed

lemma kern_same_close: "kern_same s (snd (sys_close dev fd s))"
proof -
  define u where "u = snd (call_close (op_close (fileops (cur_file s fd))) dev fd s)"
  have "kern_same s u" unfolding u_def by (rule kern_same_drv [OF ops.close_ok])
  then show ?thesis by (auto simp: sys_close_def Let_def u_def split: prod.splits)
qed

text \<open>Calls that only write user memory.\<close>

lemma getargs_shape: "getargs T buf n s = Some (Inr (r, t)) \<Longrightarrow> \<exists>m. t = s\<lparr>mem := m\<rparr>"
proof -
  assume a: "getargs T buf n s = Some (Inr (r, t))"
  have "t = s \<or> (\<exists>m. t = s\<lparr>mem := m\<rparr>)"
    using a by (auto simp: getargs_def Let_def split: if_splits option.splits)
  moreover have "s = s\<lparr>mem := mem s\<rparr>" by simp
  ultimately show ?thesis by blast
qed

lemma kern_ok_vidmap:
  assumes ok: "kern_ok T A m s" and x: "vidmap T p s = Inr (r, t)"
  shows "kern_ok T A m t"
proof -
  let ?u = "remapWithPageTable T VIRTUAL_END VIDEOMEM s"
  have "t = s \<or> (\<exists>m'. t = ?u\<lparr>mem := m'\<rparr>)"
    using x by (auto simp: vidmap_def Let_def simp del: user_store.simps dest: user_store_shape split: if_splits sum.splits)
  then consider "t = s" | m' where "t = ?u\<lparr>mem := m'\<rparr>" by blast
  then show ?thesis
  proof cases
    case 2
    have "walked s = pg s" using kern_okD(9) [OF ok] by (simp add: maps_ok_def tlb_ok_def)
    then have w: "walked t = (walked s)\<lparr>pageDir := (pageDir (walked s))(33 := userTable_at T OR RWP_FLAGS),
        userTable := (userTable (walked s))(0 := VIDEOMEM OR RWP_FLAGS)\<rparr>" and tlb: "tlb_ok t"
      unfolding 2 by (simp_all add: remapWithPageTable_def refresh_tbl_def Let_def tlb_ok_def const_defs)
    have "maps_ok T t"
      using kern_okD(9) [OF ok] entries_ok_upd(2) [of T "walked s"] tlb by (simp add: maps_ok_def w)
    then have "window_entry T t (hd (top_stack A))"
      using kern_okD(5) [OF ok] by (simp add: window_entry_def w dir_index_def const_defs)
    moreover have "proc_same s t" "term_same s t" "esp t = esp s" "tss_esp0 t = tss_esp0 s"
      unfolding 2 by (simp_all add: proc_same_def term_same_def remapWithPageTable_def refresh_tbl_def Let_def)
    moreover from this have "proc_rel A t" using proc_rel_same [OF kern_okD(1) [OF ok]] by blast
    ultimately show ?thesis
      using ok term_sys_same2 [of s t] unfolding kern_ok_def by simp
  qed (simp add: ok)
qed

text \<open>Keys.\<close>

lemma kern_same_key_pressed: "key_pressed_handler k s = Inr t \<Longrightarrow> kern_same s t"
  by (auto simp: key_pressed_handler_def key_buffer_set_def Let_def intro!: kern_same_conI [OF con_step_putc]
      kern_same_conI [OF con_step_clear] split: if_splits option.splits)

lemma kern_same_backspace: "handle_backpace s = Inr t \<Longrightarrow> kern_same s t"
  by (auto simp: handle_backpace_def key_buffer_set_def do_backspace_def Let_def split: if_splits option.splits)

lemma kern_same_moves:
  "kern_same s (move_cursor_left t) = kern_same s t" "kern_same s (move_cursor_right t) = kern_same s t"
  by (simp_all add: move_cursor_left_def move_cursor_right_def Let_def)

lemma kern_same_enter: "kern_same s (handle_enter s)"
  by (auto simp: handle_enter_def Let_def intro: kern_same_conI [OF con_step_enter])

lemma kern_same_scancode:
  "handle_scancode T k s = Inr (r, t) \<Longrightarrow> k \<notin> switch_keys \<or> alt_pressed s \<noteq> 1 \<Longrightarrow> kern_same s t"
  by (cases "handle_backpace s"; cases "key_pressed_handler (ucast k) s")
    (auto simp: handle_scancode_def switch_keys_def kern_same_moves kern_same_enter
      dest: kern_same_backspace kern_same_key_pressed split: if_splits)

lemma kern_same_keyboard:
  assumes x: "keyboard_handler T (\<lambda>_ _. k) s = Inr (Returned n, t)"
    and k: "ucast k \<notin> switch_keys \<or> alt_pressed s \<noteq> 1"
  shows "kern_same s t"
proof -
  let ?s = "key_state k s"
  obtain es where e: "?s = s\<lparr>intr := False, io := es\<rparr>" using key_state_eq by blast
  have s: "kern_same s ?s" "alt_pressed ?s = alt_pressed s" unfolding e by simp_all
  obtain u m where u: "(if ucast k \<noteq> (0xE0 :: u32) then handle_scancode T (ucast k) ?s else finished ?s) = Inr (Returned m, u)"
    "t = sti u"
    using x unfolding handler_key_state by (auto split: sum.splits prod.splits outcome.splits)
  have "kern_same ?s u"
    using u(1) kern_same_scancode [of T "ucast k" ?s "Returned m" u] k s(2)
    by (cases "ucast k = (0xE0 :: u32)") simp_all
  then show ?thesis using kern_same_trans [OF s(1)] u(2) by simp
qed

text \<open>Switching terminals.\<close>

lemma kern_ok_switch:
  assumes ok: "kern_ok T A Kernel s" and tm: "tm \<in> {1, 2, 3}"
    and x: "switch_terminal T tm s = Inr (Returned n, t)" and i: "init (terminal s (tm - 1)) \<noteq> 0 \<or> \<not> can_execute s"
  shows "\<exists>B. kern_ok T B Kernel t"
proof -
  have c: "term_cur (cli s) = term_cur s" "terminal (cli s) = terminal s" "can_execute (cli s) = can_execute s"
    by (simp_all add: cli_def can_execute_def)
  consider "tm = term_cur s" | "tm \<noteq> term_cur s" "init (terminal s (tm - 1)) = 0"
    | "tm \<noteq> term_cur s" "init (terminal s (tm - 1)) \<noteq> 0" by blast
  then show ?thesis
  proof cases
    case 1
    then have "t = sti (cli s)" using x by (simp add: switch_terminal_def Let_def c)
    then have "kern_same s t" by simp
    then show ?thesis using kern_ok_same [OF ok] by blast
  next
    case 2
    then have "t = sti (printk ''\<newline>Please close processes before opening another teminal\<newline>391OS> '' (cli s))"
      using x i by (simp add: switch_terminal_def Let_def c)
    moreover have "con_step (cli s) (printk ''\<newline>Please close processes before opening another teminal\<newline>391OS> '' (cli s))"
      by (rule con_step_printk) simp
    ultimately have "kern_same s t" by (simp add: kern_same_conI)
    then show ?thesis using kern_ok_same [OF ok] by blast
  next
    case 3
    have "term_cur s - 1 \<in> {0, 1, 2}"
      using current_cases [OF proc_relD(2) [OF kern_okD(1) [OF ok]]] proc_relD(1) [OF kern_okD(1) [OF ok]] by simp
    note sw = switching_fields [OF kern_ok_term [OF ok this] refl, where tm = tm]
    have "t = sti (snd (terminal_load tm (switching tm s)))"
      using x 3 sw(10) [of "tm - 1"] by (simp add: switch_terminal_eq)
    then show ?thesis using kern_ok_load [OF ok tm 3] by blast
  qed
qed

lemma kern_ok_switch_enter:
  assumes ok: "kern_ok T A Kernel s" and tm: "tm \<in> {1, 2, 3}" and x: "switch_terminal T tm s = Inr (EnterUser eip, t)"
  shows "\<exists>B. kern_ok T B User t"
proof -
  have c: "term_cur (cli s) = term_cur s" "terminal (cli s) = terminal s" "can_execute (cli s) = can_execute s"
    by (simp_all add: cli_def can_execute_def)
  have t: "tm \<noteq> term_cur s" "init (terminal s (tm - 1)) \<noteq> 0 \<or> can_execute s"
    using x by (auto simp: switch_terminal_def Let_def c split: if_splits)
  have "term_cur s - 1 \<in> {0, 1, 2}"
    using current_cases [OF proc_relD(2) [OF kern_okD(1) [OF ok]]] proc_relD(1) [OF kern_okD(1) [OF ok]] by simp
  note sw = switching_fields [OF kern_ok_term [OF ok this] refl, where tm = tm]
  have i: "init (terminal s (tm - 1)) = 0"
    using x sw(10) [of "tm - 1"] by (auto simp: switch_terminal_eq [OF t] split: if_splits)
  then have "terminal_start T tm (switching tm s) = Inr (EnterUser eip, t)"
    using x sw(10) [of "tm - 1"] by (auto simp: switch_terminal_eq [OF t] split: sum.splits prod.splits outcome.splits)
  then show ?thesis using kern_ok_start [OF ok tm t(1) i] by blast
qed

text \<open>Booting.\<close>

lemma kern_ok_boot:
  assumes "processes_flags s = 0" and "userTable (pg s) = (\<lambda>_. 0)" and x: "start_kernel T s = Inr (EnterUser eip, t)"
  shows "\<exists>A. kern_ok T A User t"
proof -
  obtain v where v: "start_kernel T s = init_terminals T v" "pg v = walked v" "processes_flags v = 0"
    "userTable (walked v) = (\<lambda>_. 0)" "\<And>i. unat i < 1024 \<Longrightarrow> pageDir (walked v) i =
       (if i = 0 then pageTable_at T OR 3 else if i = 1 then FOUR_MB OR PAGE_DIR_FLAGS else 2)"
    using start_kernel_eq [of T s] assms(1,2) by metis
  obtain u where u: "init_terminals T v = terminal_start T 1 u" "term_cur u = 1" "processes_flags u = processes_flags v"
    "\<And>i. i \<in> {0, 1, 2} \<Longrightarrow> terminal u i = (reset_terminal i (terminal v i))\<lparr>vid_mem := term_page i\<rparr>"
    "tlb_ok u" "walked u = (pg v)\<lparr>pageDir := (pageDir (pg v))(TERM_MEM div FOUR_MB := userTable_at T OR RWP_FLAGS),
       userTable := (userTable (pg v))(1 := TERM_1_MEM OR RWP_FLAGS, 2 := TERM_2_MEM OR RWP_FLAGS,
         3 := TERM_3_MEM OR RWP_FLAGS)\<rparr>"
    by (rule init_terminals_start [of T v]) blast
  have "TERM_MEM div FOUR_MB = 25" by (simp add: TERM_MEM_def const_defs)
  then have "entries_ok T (walked u)"
    using v(5) unfolding entries_ok_def u(6) v(2) by (auto simp: v(4))
  then have maps: "maps_ok T u" using u(5) by (simp add: maps_ok_def)
  note r = init_terminals_no_procs [OF v(3) u(2,3,4)]
  obtain k where e: "entered no_procs k (show_terminal 1 u) t"
    using terminal_start_rel [OF r _ x [unfolded v(1) u(1)]] by auto
  note sh = show_terminal_fields [where t = "show_terminal 1 u" and s = u, OF refl]
  have "kern_ok T (set_top (k # top_stack no_procs) no_procs) User t"
  proof (rule kern_ok_entered [OF e])
    show "maps_ok T (show_terminal 1 u)" by (rule maps_ok_same [OF maps sh(4,5)])
    show "init (terminal (show_terminal 1 u) (current no_procs - 1)) \<noteq> 0" by (simp add: sh(6))
    show "vid_mem (terminal (show_terminal 1 u) i) = term_page i \<and> (i \<noteq> current no_procs - 1 \<longrightarrow>
        term_sys (current no_procs) (stacks no_procs i) i (terminal (show_terminal 1 u) i))" if "i \<in> {0, 1, 2}" for i
      using u(4) [OF that] u(4) [of 0] that by (auto simp: sh(6) term_sys_def reset_terminal_def)
  qed
  then show ?thesis by blast
qed

text \<open>Every step.\<close>

lemma kern_ok_step: "kstep T c d \<Longrightarrow> kern_ok T A (fst c) (snd c) \<Longrightarrow> \<exists>B. kern_ok T B (fst d) (snd d)"
proof (induction rule: kstep.induct)
  case (Trap e s b i)
  then have ok: "kern_ok T A User s" by simp
  have "on_stack (hd (top_stack A)) e"
    by (rule same_stack_on [OF kern_okD(7) [OF ok] Trap(1) kern_okD(4) [OF ok]])
  then show ?case
    using kern_ok_same [OF ok, of "s\<lparr>intr := i\<rparr>"]
    by (auto simp: kern_ok_def proc_rel_def window_entry_def maps_ok_def tlb_ok_def)
next
  case (Run s m)
  then have "kern_ok T A User (s\<lparr>mem := m\<rparr>)" using kern_ok_same [of T A User s] by simp
  then show ?case by auto
next
  case (Return s)
  then have "kern_ok T A Kernel (sti s)" using kern_ok_same [of T A Kernel s "sti s"] by simp
  then have "kern_ok T A User (sti s)" by (simp add: kern_ok_def)
  then show ?case by auto
next
  case (Execute dev command s n t)
  then show ?case using kern_ok_execute [of T A s dev command "Returned n" t] by auto
next
  case (Execute_enter dev command s eip t)
  then show ?case using kern_ok_execute [of T A s dev command "EnterUser eip" t] by auto
next
  case (Execute_exit dev command s status t)
  then show ?case using kern_ok_execute [of T A s dev command "ResumeParent status" t] by auto
next
  case (Halt dev status s status' t)
  then show ?case using kern_ok_halt [of T A s dev status "ResumeParent status'" t] by auto
next
  case (Halt_enter dev status s eip t)
  then show ?case using kern_ok_halt [of T A s dev status "EnterUser eip" t] by auto
next
  case (Read fd buf n s r buf' t)
  then show ?case using kern_ok_same [of T A Kernel s t] kern_same_drv [OF sys_read_step [OF Read(1)]] by auto
next
  case (Write dev fd buf n s r t)
  then show ?case
    using kern_ok_same [of T A Kernel s t] kern_same_drv [OF sys_write_step [of fd s dev buf n]] by auto
next
  case (Open dev name s r t)
  then show ?case using kern_ok_same [of T A Kernel s t] kern_same_open [of s dev name] by auto
next
  case (Close dev fd s r t)
  then show ?case using kern_ok_same [of T A Kernel s t] kern_same_close [of s dev fd] by auto
next
  case (Getargs ubuf n s r t)
  then obtain m where "t = s\<lparr>mem := m\<rparr>" using getargs_shape by blast
  then have "kern_same s t" by simp
  then show ?case using Getargs(2) kern_ok_same [of T A Kernel s t] by auto
next
  case (Vidmap p s r t)
  then show ?case using kern_ok_vidmap [of T A Kernel s p r t] by auto
next
  case (Key k s n t)
  then show ?case using kern_ok_same [of T A Kernel s t] kern_same_keyboard [OF Key(1,2)] by auto
next
  case (Switch tm s n t)
  then show ?case using kern_ok_switch [of T A s tm n t] by auto
next
  case (Switch_enter tm s eip t)
  then show ?case using kern_ok_switch_enter [of T A s tm eip t] by auto
next
  case (Exception dev m s status t h)
  obtain u where u: "exception T dev m s = Some (halt T dev (- 1) u)" "con_step s u"
    using exception_eq [OF Exception(2)] by blast
  have k: "kern_same s u" by (rule kern_same_con [OF u(2)])
  then have "kern_ok T A Kernel u" using Exception kern_ok_same [of T A Kernel s u] by simp
  moreover have "has_parent u" using Exception(3) k by (simp add: has_parent_def kern_same_def proc_same_def)
  ultimately show ?case using kern_ok_halt [of T A u dev "- 1" "ResumeParent status" t] u(1) Exception(1) by auto
next
  case (Exception_enter dev m s eip t h)
  obtain u where u: "exception T dev m s = Some (halt T dev (- 1) u)" "con_step s u"
    using exception_eq [OF Exception_enter(2)] by blast
  then have "kern_ok T A Kernel u" using Exception_enter kern_ok_same [OF _ kern_same_con] by simp
  then show ?case using kern_ok_halt [of T A u dev "- 1" "EnterUser eip" t] u(1) Exception_enter(1) by auto
qed

lemma reachable_kern_ok: "reachable T c \<Longrightarrow> \<exists>A. kern_ok T A (fst c) (snd c)"
proof (induction rule: reachable.induct)
  case (Boot s eip t)
  then show ?case using kern_ok_boot [OF Boot] by simp
next
  case (Step c d)
  then show ?case using kern_ok_step by blast
qed

section \<open>What user code can reach\<close>

text \<open>The frame of process \<open>k\<close>, and the pages of video memory that every process shares.\<close>

definition frame :: "nat \<Rightarrow> u32 set" where
  "frame k = {a. 0x800000 + k * 0x400000 \<le> unat a \<and> unat a < 0x800000 + (k + 1) * 0x400000}"

definition shared :: "u32 set" where
  "shared = {a. \<exists>b\<in>{VIDEOMEM, TERM_1_MEM, TERM_2_MEM, TERM_3_MEM}. unat b \<le> unat a \<and> unat a < unat b + 4096}"

lemma page_offset_less: "unat (v AND 0xFFF :: u32) < 4096"
proof -
  have "v AND 0xFFF = take_bit 12 v" by (simp add: take_bit_eq_mask mask_eq_exp_minus_1)
  then show ?thesis by (simp add: take_bit_eq_mod unat_mod_distrib)
qed

lemma shared_page: "b \<in> {VIDEOMEM, TERM_1_MEM, TERM_2_MEM, TERM_3_MEM} \<Longrightarrow> b + (v AND 0xFFF) \<in> shared"
proof -
  assume b: "b \<in> {VIDEOMEM, TERM_1_MEM, TERM_2_MEM, TERM_3_MEM}"
  then have "unat b < 0x10000000"
    by (auto simp: VIDEOMEM_def TERM_1_MEM_def TERM_2_MEM_def TERM_3_MEM_def)
  then have "unat (b + (v AND 0xFFF)) = unat b + unat (v AND 0xFFF)"
    using page_offset_less [of v] by (simp add: unat_word_ariths(1))
  then show ?thesis using b page_offset_less [of v] unfolding shared_def by (intro CollectI bexI [of _ b]) simp_all
qed

lemma window_frame: "k < 6 \<Longrightarrow> frame_of (of_nat k) + (v AND 0x3FFFFF) \<in> frame k"
proof -
  assume "k < 6"
  then have "unat (of_nat k :: u32) = k" "(of_nat k :: u32) < 256"
    by (simp_all add: unat_of_nat_small word_less_nat_alt)
  then show ?thesis using unat_frame_addr [of "of_nat k" v] big_offset_less [of v] by (simp add: frame_def)
qed

text \<open>A page of the user table: user code reaches it only if it is one of the shared ones.\<close>

lemma walk_user_table:
  assumes T: "tables_ok T" and e: "entries_ok T p" and d: "pageDir p (dir_index v) = userTable_at T OR RWP_FLAGS"
    and w: "walk T p v = Some (a, u)"
  shows "a \<in> shared"
proof -
  have page: "a \<in> shared" if "userTable p (table_index v) = b OR RWP_FLAGS"
    "b \<in> {VIDEOMEM, TERM_1_MEM, TERM_2_MEM, TERM_3_MEM}" for b
  proof -
    have "b AND 0xFFF = 0"
      using that(2) by (auto simp: VIDEOMEM_def TERM_1_MEM_def TERM_2_MEM_def TERM_3_MEM_def)
    from walk_user_page [OF T d that(1) this] have "a = b + (v AND 0xFFF)" using w by simp
    then show ?thesis using shared_page [OF that(2)] by simp
  qed
  have none: "userTable p (table_index v) \<noteq> 0"
  proof
    assume z: "userTable p (table_index v) = 0"
    have "bit RWP_FLAGS 0" "\<not> bit RWP_FLAGS 7" "RWP_FLAGS AND 0xFFF = RWP_FLAGS" by (simp_all add: RWP_FLAGS_def)
    moreover have "userTable_at T AND 0xFFF = 0" "pageTable_at T \<noteq> userTable_at T" using T by (auto simp: tables_ok_def)
    ultimately have "walk T p v = None"
      unfolding walk_def d using z by (simp add: entry_base entry_flag table_at_def)
    then show False using w by simp
  qed
  from e none have "\<exists>b\<in>{VIDEOMEM, TERM_1_MEM, TERM_2_MEM, TERM_3_MEM}. userTable p (table_index v) = b OR RWP_FLAGS"
    unfolding entries_ok_def by (cases "table_index v \<in> {0, 1, 2, 3}") auto
  then show ?thesis using page by blast
qed

text \<open>The first 8 MB are the kernel's: no access of user code gets there.\<close>

lemma walk_kernel_pages:
  assumes T: "tables_ok T" and e: "entries_ok T p" and v: "dir_index v \<in> {0, 1}"
  shows "walk T p v \<noteq> Some (a, True)"
proof
  assume w: "walk T p v = Some (a, True)"
  have "pageTable_at T AND 0xFFF = 0" using T by (simp add: tables_ok_def)
  then have "\<not> bit (pageDir p 0) 2" "\<not> bit (pageDir p 0) 7" "\<not> bit (pageDir p 1) 2"
    using e by (simp_all add: entries_ok_def entry_flag const_defs)
  then show False using v w by (auto simp: walk_def Let_def split: if_splits option.splits)
qed

lemma kern_ok_translate:
  assumes T: "tables_ok T" and ok: "kern_ok T A m s" and t: "translate T s v = Some (a, True)"
  shows "a \<in> frame (hd (top_stack A)) \<or> a \<in> shared"
proof -
  have e: "entries_ok T (walked s)" using kern_okD(9) [OF ok] by (simp add: maps_ok_def)
  have w: "walk T (walked s) v = Some (a, True)" using t by (simp add: translate_def)
  have "pageDir (walked s) (dir_index v) \<noteq> 2" using w by (auto simp: walk_def)
  moreover have "dir_index v \<noteq> 0" "dir_index v \<noteq> 1" using walk_kernel_pages [OF T e] w by auto
  ultimately consider "dir_index v = 32" | "pageDir (walked s) (dir_index v) = userTable_at T OR RWP_FLAGS"
    using e dir_index_less [of v] unfolding entries_ok_def by (cases "dir_index v \<in> {25, 33}") auto
  then show ?thesis
  proof cases
    case 1
    have "dir_index VIRTUAL_START = 32" by (simp add: dir_index_def const_defs)
    then have "pageDir (walked s) (dir_index v) = frame_of (of_nat (hd (top_stack A))) OR RW_FLAGS"
      using kern_okD(5) [OF ok] 1 by (simp add: window_entry_def)
    from walk_big_page [OF frame_aligned this, of T] have "a = frame_of (of_nat (hd (top_stack A))) + (v AND 0x3FFFFF)"
      using w by simp
    then show ?thesis using window_frame [OF kern_okD(7) [OF ok]] by simp
  next
    case 2
    then show ?thesis using walk_user_table [OF T e 2 w] by blast
  qed
qed

lemma frames_apart:
  assumes "j \<noteq> k" and "a \<in> frame j"
  shows "a \<notin> frame k"
proof -
  have "unat a div 0x400000 = i + 2" if "a \<in> frame i" for i
    using that by (intro div_nat_eqI) (simp_all add: frame_def)
  from this [of j] this [of k] show ?thesis using assms by auto
qed

lemma shared_apart: "a \<in> shared \<Longrightarrow> k < 6 \<Longrightarrow> a \<notin> frame k"
  by (auto simp: shared_def frame_def VIDEOMEM_def TERM_1_MEM_def TERM_2_MEM_def TERM_3_MEM_def)

lemma kernel_page_apart:
  "a \<in> frame k \<or> a \<in> shared \<Longrightarrow> \<not> (0x400000 \<le> unat a \<and> unat a < 0x800000)"
  by (auto simp: shared_def frame_def VIDEOMEM_def TERM_1_MEM_def TERM_2_MEM_def TERM_3_MEM_def)

section \<open>Starting the kernel\<close>

text \<open>Showing a terminal writes the screen only.\<close>

lemma image_show_terminal:
  assumes i: "image_at s" and v: "vid_mem (terminal s (tm - 1)) \<in> {TERM_1_MEM, TERM_2_MEM, TERM_3_MEM}"
    and p: "0 \<le> pos_x (terminal s (tm - 1))" "pos_x (terminal s (tm - 1)) < 80"
      "0 \<le> pos_y (terminal s (tm - 1))" "pos_y (terminal s (tm - 1)) < 25"
  shows "image_at (show_terminal tm s)"
proof -
  define u where "u = (update_cursor_loc (pos_x (terminal s (tm - 1))) (pos_y (terminal s (tm - 1)))
      (s\<lparr>terminal := (terminal s)(tm - 1 := (terminal s (tm - 1))\<lparr>init := 1\<rparr>), key_buffer := Some (tm - 1),
         key_buffer_pos := term_key_buffer_pos (terminal s (tm - 1)),
         screen_x := pos_x (terminal s (tm - 1)), screen_y := pos_y (terminal s (tm - 1))\<rparr>))
    \<lparr>mem := memcpy (mem s) VIDEO (vid_mem (terminal s (tm - 1))) screen_bytes\<rparr>"
  define t where "t = show_terminal tm s"
  have "t = fold printk banner u"
    by (simp add: t_def show_terminal_def Let_def u_def set_screen_pos_def get_screen_x_def get_screen_y_def
        update_cursor_loc_eq)
  then have c: "con_step u t" using con_step_banner by simp
  have "screen_inv u" using p by (simp add: u_def update_cursor_loc_eq screen_inv_def const_defs)
  then have m: "mem t a = mem u a" if "a \<notin> text_cells" for a using c that by (simp add: con_step_def)
  have "mem t a = mem s a" if a: "0x500000 \<le> unat a" "unat a < 0x503000" for a
  proof -
    have "a \<notin> text_cells" using text_cells_low a by fastforce
    moreover have "VIDEO \<le> a" using a(1) by (simp add: VIDEO_def word_le_nat_alt)
    then have "\<not> unat (a - VIDEO) < 4000" using a(1) by (simp add: unat_sub) (simp add: VIDEO_def)
    ultimately show ?thesis using m memcpy_screen(2) [OF v] by (simp add: u_def blit_def)
  qed
  moreover have "boot_block t = boot_block s" "inodes t = inodes s" "data_blocks t = data_blocks s"
    using c by (auto simp: con_step_def u_def update_cursor_loc_eq)
  ultimately have "image_at t" using i by (simp add: image_at_def)
  then show ?thesis by (simp add: t_def)
qed

text \<open>With the image in memory the kernel gets to its first shell.\<close>

lemma start_kernel_shell:
  assumes i: "image_at s" and f: "processes_flags s = 0"
  shows "\<exists>t. start_kernel T s = Inr (EnterUser (entry_point tiny_program), t)"
proof -
  obtain v where v: "start_kernel T s = init_terminals T v" "processes_flags v = 0"
    "mem v = mem s" "boot_block v = boot_block s" "inodes v = inodes s" "data_blocks v = data_blocks s"
    by (rule start_kernel_eq [of T s]) (simp add: f)
  obtain u where u: "init_terminals T v = terminal_start T 1 u" "term_cur u = 1" "processes_flags u = processes_flags v"
    "\<And>i. i \<in> {0, 1, 2} \<Longrightarrow> terminal u i = (reset_terminal i (terminal v i))\<lparr>vid_mem := term_page i\<rparr>"
    "\<And>a. unat a < 0x6400000 \<Longrightarrow> mem u a = mem v a" "boot_block u = boot_block v" "inodes u = inodes v"
    "data_blocks u = data_blocks v"
    by (rule init_terminals_start [of T v]) blast
  have img: "image_at u" using i v u(5-8) by (simp add: image_at_def)
  let ?w = "show_terminal 1 u"
  have "image_at ?w"
    using u(4) [of 0] by (intro image_show_terminal [OF img]) (simp_all add: reset_terminal_def term_page_def)
  then have "image_at (cli ?w)" by (simp add: image_at_def cli_def)
  then have ready: "shell_ready (cli ?w) tiny_program" by (rule image_shell_ready)
  have r: "proc_rel no_procs ?w"
    using proc_rel_same [OF init_terminals_no_procs [OF v(2) u(2,3,4)] show_terminal_fields(1) [OF refl]] .
  have "\<not> bit (processes_flags ?w) 0" using proc_relD(5) [OF r, of 0] by simp
  then have "can_execute ?w" using can_execute_rel [OF r] free_pid_None by fastforce
  from exec_command_shell [OF r _ this ready, of T]
  show ?thesis unfolding v(1) u(1) terminal_start_def by auto
qed

section \<open>Claims\<close>

lemma window_entry_of: "window_entry T s k \<Longrightarrow> window_of T s (of_nat k)"
  by (simp add: window_entry_def window_of_def translate_def walk_big_page [OF frame_aligned])


lemma booted: "\<exists>t. reachable some_tables (User, t :: kernel)"
proof -
  have "processes_flags prog_kernel = 0" "userTable (pg prog_kernel) = (\<lambda>_. 0)"
    by (simp_all add: prog_kernel_def blank_kernel_def rofs.defs tiny_fs_def init_rofs_def Let_def blank_paging_def paging.defs)
  then show ?thesis
    using start_kernel_shell [OF prog_kernel_image, of some_tables] reachable.Boot by blast
qed




end
