(* ===== verification/UserLib.thy ===== *)
theory UserLib
  imports CStrings "HOL-Library.Monad_Syntax"
begin

text \<open>
  The library of the user programs, \<^verbatim>\<open>syscalls/ece391support.c\<close>, and its interface to the kernel,
  \<^verbatim>\<open>syscalls/ece391syscall.h\<close>. The system calls are a record of functions on the state of the
  system, one per prototype that returns to its caller and that the programs call; a call that fills a buffer returns it, and \<open>None\<close> is a call that does
  not return. The functions of the library are shown to be those of the kernel's \<^verbatim>\<open>lib.c\<close> where the
  two have the same purpose.
\<close>

section \<open>System calls\<close>

record 's calls =
  ece391_execute :: "bytes \<Rightarrow> 's \<Rightarrow> (int \<times> 's) option"
  ece391_read :: "int \<Rightarrow> bytes \<Rightarrow> int \<Rightarrow> 's \<Rightarrow> (int \<times> bytes \<times> 's) option"
  ece391_write :: "int \<Rightarrow> bytes \<Rightarrow> int \<Rightarrow> 's \<Rightarrow> (int \<times> 's) option"
  ece391_open :: "bytes \<Rightarrow> 's \<Rightarrow> (int \<times> 's) option"
  ece391_close :: "int \<Rightarrow> 's \<Rightarrow> (int \<times> 's) option"
  ece391_getargs :: "bytes \<Rightarrow> int \<Rightarrow> 's \<Rightarrow> (int \<times> bytes \<times> 's) option"
  ece391_vidmap :: "u32 \<Rightarrow> 's \<Rightarrow> (int \<times> 's) option"
  ece391_set_handler :: "int \<Rightarrow> u32 \<Rightarrow> 's \<Rightarrow> (int \<times> 's) option"

section \<open>Strings\<close>

partial_function (option) ece391_strlen_loop :: "bytes \<Rightarrow> u32 \<Rightarrow> u32 option" where
  "ece391_strlen_loop s len = (if 0 \<noteq> s len then ece391_strlen_loop s (len + 1) else Some len)"

definition ece391_strlen :: "bytes \<Rightarrow> u32 option" where
  "ece391_strlen s = ece391_strlen_loop s 0"

text \<open>Source and destination may overlap, so they are addresses of one memory.\<close>

partial_function (option) ece391_strcpy :: "bytes \<Rightarrow> u32 \<Rightarrow> u32 \<Rightarrow> bytes option" where
  "ece391_strcpy m dst src =
     (let c = m src; m = m(dst := c) in if 0 \<noteq> c then ece391_strcpy m (dst + 1) (src + 1) else Some m)"

definition ece391_fdputs :: "'s calls \<Rightarrow> int \<Rightarrow> bytes \<Rightarrow> 's \<Rightarrow> 's option" where
  "ece391_fdputs C fd str s = do {
     n \<leftarrow> ece391_strlen str;
     (r, s) \<leftarrow> ece391_write C fd str (sint n) s;
     Some s
   }"

partial_function (option) ece391_strcmp_loop :: "bytes \<Rightarrow> bytes \<Rightarrow> u32 \<Rightarrow> int option" where
  "ece391_strcmp_loop s1 s2 i =
     (if s1 i = s2 i then if s1 i = 0 then Some 0 else ece391_strcmp_loop s1 s2 (i + 1)
      else Some (uint (s1 i) - uint (s2 i)))"

definition ece391_strcmp :: "bytes \<Rightarrow> bytes \<Rightarrow> int option" where
  "ece391_strcmp s1 s2 = ece391_strcmp_loop s1 s2 0"

partial_function (option) ece391_strncmp_loop :: "bytes \<Rightarrow> bytes \<Rightarrow> u32 \<Rightarrow> u32 \<Rightarrow> int option" where
  "ece391_strncmp_loop s1 s2 n i =
     (if s1 i = s2 i then
        if s1 i = 0 then Some 0
        else let n = n - 1 in if n = 0 then Some 0 else ece391_strncmp_loop s1 s2 n (i + 1)
      else Some (uint (s1 i) - uint (s2 i)))"

definition ece391_strncmp :: "bytes \<Rightarrow> bytes \<Rightarrow> u32 \<Rightarrow> int option" where
  "ece391_strncmp s1 s2 n = (if 0 = n then Some 0 else ece391_strncmp_loop s1 s2 n 0)"

section \<open>Numbers\<close>

function ece391_strrev_loop :: "bytes \<Rightarrow> int \<Rightarrow> int \<Rightarrow> bytes" where
  "ece391_strrev_loop s beg end =
     (if beg < end then
        let tmp = s (word_of_int end);
            s = s(word_of_int end := s (word_of_int beg));
            s = s(word_of_int beg := tmp)
        in ece391_strrev_loop s (beg + 1) (end - 1)
      else s)"
  by pat_completeness auto
termination
  by (relation "measure (\<lambda>(s, beg, end). nat (end - beg))") auto

definition ece391_strrev :: "bytes \<Rightarrow> bytes option" where
  "ece391_strrev s = do {
     len \<leftarrow> ece391_strlen s;
     let end = sint (len - 1);
     if end \<le> 0 then Some s else Some (ece391_strrev_loop s 0 end)
   }"

text \<open>The divisions by \<open>radix\<close> are unsigned, since \<open>newval\<close> is.\<close>

partial_function (option) ece391_itoa_loop :: "u32 \<Rightarrow> bytes \<Rightarrow> u32 \<Rightarrow> u32 \<Rightarrow> (fault + bytes \<times> u32) option"
where
  "ece391_itoa_loop radix buf newbuf newval =
     (if newval > 0 then
        if radix = 0 then Some (Inl DivByZero)
        else let i = newval mod radix
          in if length lookup \<le> unat i then Some (Inl OutOfBounds)
             else ece391_itoa_loop radix (buf(newbuf := lookup ! unat i)) (newbuf + 1) (newval div radix)
      else Some (Inr (buf, newbuf)))"

definition ece391_itoa :: "u32 \<Rightarrow> bytes \<Rightarrow> int \<Rightarrow> (fault + bytes) option" where
  "ece391_itoa value buf radix =
     (if value = 0 then Some (Inr (buf(0 := 48, 1 := 0)))
      else do {
        r \<leftarrow> ece391_itoa_loop (word_of_int radix) buf 0 value;
        case r of
          Inl e \<Rightarrow> Some (Inl e)
        | Inr (buf, newbuf) \<Rightarrow> map_option Inr (ece391_strrev (buf(newbuf := 0)))
      })"

declare ece391_strlen_loop.simps [loop_unfold] ece391_strcpy.simps [loop_unfold]
  ece391_strcmp_loop.simps [loop_unfold] ece391_strncmp_loop.simps [loop_unfold]
  ece391_strrev_loop.simps [simp del, loop_unfold] ece391_itoa_loop.simps [loop_unfold]

section \<open>The library agrees with the kernel's\<close>

lemma ece391_strlen_loop_eq: "strlen_loop s i = Some n \<Longrightarrow> ece391_strlen_loop s i = Some n"
proof (rule strlen_loop.raw_induct [where P = "\<lambda>s i n. ece391_strlen_loop s i = Some n"])
  fix f :: "bytes \<Rightarrow> u32 \<Rightarrow> u32 option" and s i n
  assume "\<And>s i n. f s i = Some n \<Longrightarrow> ece391_strlen_loop s i = Some n"
    and "(if s i \<noteq> 0 then f s (i + 1) else Some i) = Some n"
  then show "ece391_strlen_loop s i = Some n"
    by (cases "s i = 0"; subst ece391_strlen_loop.simps) auto
qed

lemma ece391_strlen_eq: "strlen s = Some n \<Longrightarrow> ece391_strlen s = Some n"
  by (simp add: strlen_def ece391_strlen_def ece391_strlen_loop_eq)

lemma ece391_strlen_str: "is_str s xs \<Longrightarrow> ece391_strlen s = Some (of_nat (length xs))"
  by (rule ece391_strlen_eq) (simp add: strlen_cstr is_str_cstr)

text \<open>\<open>strcmp\<close> is 0 exactly on equal strings.\<close>

lemma ece391_strcmp_loop_stop:
  "a i \<noteq> b i \<or> a i = 0 \<Longrightarrow> \<exists>r. ece391_strcmp_loop a b i = Some r \<and> (r = 0 \<longleftrightarrow> a i = b i)"
  by (subst ece391_strcmp_loop.simps) (auto simp: word_uint_eq_iff)

lemma ece391_strcmp_loop_str:
  assumes a: "is_str a xs" "is_str b ys"
  shows "i \<le> length xs \<Longrightarrow> i \<le> length ys \<Longrightarrow> take i xs = take i ys \<Longrightarrow>
    \<exists>r. ece391_strcmp_loop a b (of_nat i) = Some r \<and> (r = 0 \<longleftrightarrow> xs = ys)"
proof (induction "length xs - i" arbitrary: i)
  case 0
  then have i: "i = length xs" by simp
  then have "a (of_nat i) = 0" using a(1) by (simp add: is_str_def)
  moreover have "b (of_nat i) = 0 \<longleftrightarrow> i = length ys"
    using a(2) 0 by (cases "i < length ys") (auto simp: is_str_def in_set_conv_nth)
  moreover have "i = length ys \<longleftrightarrow> xs = ys" using 0 i by auto
  ultimately show ?case using ece391_strcmp_loop_stop [of a "of_nat i" b] by auto
next
  case (Suc d)
  then have i: "i < length xs" by simp
  then have ai: "a (of_nat i) = xs ! i" "xs ! i \<noteq> 0" using a(1) by (auto simp: is_str_def in_set_conv_nth)
  show ?case
  proof (cases "i < length ys \<and> xs ! i = ys ! i")
    case True
    then have "b (of_nat i) = xs ! i" using a(2) by (simp add: is_str_def)
    then have "ece391_strcmp_loop a b (of_nat i) = ece391_strcmp_loop a b (of_nat (Suc i))"
      using ai by (simp add: ece391_strcmp_loop.simps [of a b "of_nat i"] add.commute)
    moreover have "take (Suc i) xs = take (Suc i) ys"
      using True i Suc.prems(3) by (simp add: take_Suc_conv_app_nth)
    ultimately show ?thesis using Suc.hyps(1) [of "Suc i"] Suc.hyps(2) i True by simp
  next
    case False
    have "b (of_nat i) \<noteq> xs ! i \<and> xs \<noteq> ys"
    proof (cases "i < length ys")
      case True
      then show ?thesis using False a(2) by (auto simp: is_str_def)
    next
      case False
      then have "i = length ys" using Suc.prems by simp
      then show ?thesis using a(2) ai i by (auto simp: is_str_def)
    qed
    then show ?thesis using ai ece391_strcmp_loop_stop [of a "of_nat i" b] by auto
  qed
qed

lemma ece391_strcmp_str: "is_str a xs \<Longrightarrow> is_str b ys \<Longrightarrow> \<exists>r. ece391_strcmp a b = Some r \<and> (r = 0 \<longleftrightarrow> xs = ys)"
  using ece391_strcmp_loop_str [of a xs b ys 0] by (simp add: ece391_strcmp_def)

text \<open>Reversal and numerals.\<close>

lemma ece391_strrev_loop_eq: "ece391_strrev_loop s b e = strrev_loop s b e"
proof (induction s b e rule: strrev_loop.induct)
  case (1 s b e)
  then show ?case
    by (cases "b < e")
      (simp_all add: ece391_strrev_loop.simps [of s b e] strrev_loop.simps [of s b e] Let_def fun_upd_def)
qed

lemma ece391_strrev_eq: "strrev s = Some t \<Longrightarrow> ece391_strrev s = Some t"
  by (auto simp: strrev_def ece391_strrev_def ece391_strlen_eq ece391_strrev_loop_eq Let_def
      strrev_loop.simps [of s 0] split: option.splits)

lemma ece391_itoa_loop_eq: "itoa_loop r b k v = Some x \<Longrightarrow> ece391_itoa_loop r b k v = Some x"
proof (rule itoa_loop.raw_induct [where P = "\<lambda>r b k v x. ece391_itoa_loop r b k v = Some x"])
  fix f :: "u32 \<Rightarrow> bytes \<Rightarrow> u32 \<Rightarrow> u32 \<Rightarrow> (fault + bytes \<times> u32) option" and r b k v x
  assume "\<And>r b k v x. f r b k v = Some x \<Longrightarrow> ece391_itoa_loop r b k v = Some x"
    and "(if v > 0 then if r = 0 then Some (Inl DivByZero)
        else let i = v mod r in if length lookup \<le> unat i then Some (Inl OutOfBounds)
          else f r (b(k := lookup ! unat i)) (k + 1) (v div r)
        else Some (Inr (b, k))) = Some x"
  then show "ece391_itoa_loop r b k v = Some x"
    by (auto simp: ece391_itoa_loop.simps [of r b k v] Let_def split: if_splits)
qed

lemma ece391_itoa_eq: "itoa v b (word_of_int r) = Some x \<Longrightarrow> ece391_itoa v b r = Some x"
  by (auto simp: itoa_def ece391_itoa_def ece391_strrev_eq dest!: ece391_itoa_loop_eq
      split: if_splits option.splits sum.splits)

lemma ece391_itoa_text:
  assumes "2 \<le> r" and "r \<le> 36"
  shows "\<exists>buf'. ece391_itoa v buf r = Some (Inr buf') \<and> is_str buf' (numeral_text (nat r) (unat v))"
proof -
  have "unat (word_of_int r :: u32) = nat r" using assms by (intro unat_word_of_int_range) simp_all
  then obtain buf' where "itoa v buf (word_of_int r) = Some (Inr buf')" "is_str buf' (numeral_text (nat r) (unat v))"
    using itoa_correct [of "word_of_int r" v buf] assms by (auto simp: nat_le_iff le_nat_iff)
  then show ?thesis using ece391_itoa_eq by blast
qed

lemma numeral_text_short: "length (numeral_text r (unat (v :: u32))) \<le> 32"
proof -
  have "unat v < 2 ^ LENGTH(32)" by (rule unsigned_less)
  then have "length (digits r (unat v)) \<le> 32" by (intro length_digits) simp
  then show ?thesis by (simp add: numeral_text_def)
qed

text \<open>A string literal without NUL.\<close>

lemma is_str_c_str:
  "length xs < 2 ^ 32 \<Longrightarrow> list_all (\<lambda>c. (of_char c :: u8) \<noteq> 0) xs \<Longrightarrow> is_str (c_str xs) (map of_char xs)"
  by (auto simp: is_str_def c_str_def unat_of_nat_small list_all_iff)

end
