(* ===== verification/Programs.thy ===== *)
theory Programs
  imports Keyboard UserLib
begin

text \<open>
  The user programs of \<^verbatim>\<open>src/syscalls\<close>: each \<open>main\<close> is a function of the system calls, the contents
  its stack buffers happen to have, and the state of the system; it gives the status it returns.
  The loops that read until the end of a file are partial functions. The programs are then run on
  the system calls of the kernel's model: \<open>cat\<close> prints a file, \<open>ls\<close> lists the directory.
\<close>

section \<open>hello, testprint and counter\<close>

definition hello_main :: "'s calls \<Rightarrow> bytes \<Rightarrow> 's \<Rightarrow> (int \<times> 's) option" where
  "hello_main C buf s = do {
     s \<leftarrow> ece391_fdputs C 1 (c_str ''Hi, what's your name? '') s;
     (cnt, buf, s) \<leftarrow> ece391_read C 0 buf 1023 s;
     if cnt = - 1 then do {
       s \<leftarrow> ece391_fdputs C 1 (c_str ''Can't read name from keyboard.\<newline>'') s;
       Some (3, s)
     } else do {
       let buf = buf(word_of_int cnt := 0);
       s \<leftarrow> ece391_fdputs C 1 (c_str ''Hello, '') s;
       s \<leftarrow> ece391_fdputs C 1 buf s;
       Some (0, s)
     }
   }"

definition testprint_main :: "'s calls \<Rightarrow> 's \<Rightarrow> (int \<times> 's) option" where
  "testprint_main C s = do {
     s \<leftarrow> ece391_fdputs C 1 (c_str ''Hello, if this ran, the program was correct. Yay!\<newline>'') s;
     Some (0, s)
   }"

text \<open>The numbers from \<open>i + 1\<close> to \<open>mx\<close>, one on a line.\<close>

partial_function (option) counter_loop :: "'s calls \<Rightarrow> u32 \<Rightarrow> u32 \<Rightarrow> bytes \<Rightarrow> 's \<Rightarrow> 's option" where
  "counter_loop C mx i buf s =
     (if i < mx then do {
        r \<leftarrow> ece391_itoa (i + 1) buf 10;
        case r of
          Inl e \<Rightarrow> None
        | Inr buf \<Rightarrow> do {
            s \<leftarrow> ece391_fdputs C 1 buf s;
            s \<leftarrow> ece391_fdputs C 1 (c_str ''\<newline>'') s;
            counter_loop C mx (i + 1) buf s
          }
      } else Some s)"

definition counter_main :: "'s calls \<Rightarrow> bytes \<Rightarrow> 's \<Rightarrow> (int \<times> 's) option" where
  "counter_main C buf s = do {
     s \<leftarrow> ece391_fdputs C 1 (c_str ''Enter the Test Number: (0): 100, (1): 10000, (2): 100000\<newline>'') s;
     (cnt, buf, s) \<leftarrow> ece391_read C 0 buf 1023 s;
     if cnt = - 1 then do {
       s \<leftarrow> ece391_fdputs C 1 (c_str ''Can't read the number from keyboard.\<newline>'') s;
       Some (3, s)
     } else do {
       let buf = buf(word_of_int cnt := 0);
       n \<leftarrow> ece391_strlen buf;
       if n > 1 \<or> n = 1 \<and> (buf 0 < 48 \<or> buf 0 > 50) then do {
         s \<leftarrow> ece391_fdputs C 1 (c_str ''Wrong Choice!\<newline>'') s;
         Some (0, s)
       } else do {
         let mx = (if buf 0 = 48 then 100 else if buf 0 = 49 then 10000 else if buf 0 = 50 then 100000 else 0);
         s \<leftarrow> counter_loop C mx 0 buf s;
         Some (0, s)
       }
     }
   }"

section \<open>cat and ls\<close>

partial_function (option) cat_loop :: "'s calls \<Rightarrow> int \<Rightarrow> bytes \<Rightarrow> 's \<Rightarrow> (int \<times> 's) option" where
  "cat_loop C fd buf s = do {
     (cnt, buf, s) \<leftarrow> ece391_read C fd buf 1024 s;
     if 0 \<noteq> cnt then
       if cnt = - 1 then do {
         s \<leftarrow> ece391_fdputs C 1 (c_str ''file read failed\<newline>'') s;
         Some (3, s)
       } else do {
         (r, s) \<leftarrow> ece391_write C 1 buf cnt s;
         if r = - 1 then Some (3, s) else cat_loop C fd buf s
       }
     else Some (0, s)
   }"

definition cat_main :: "'s calls \<Rightarrow> bytes \<Rightarrow> 's \<Rightarrow> (int \<times> 's) option" where
  "cat_main C buf s = do {
     (r, buf, s) \<leftarrow> ece391_getargs C buf 1024 s;
     if 0 \<noteq> r then do {
       s \<leftarrow> ece391_fdputs C 1 (c_str ''could not read arguments\<newline>'') s;
       Some (3, s)
     } else do {
       (fd, s) \<leftarrow> ece391_open C buf s;
       if fd = - 1 then do {
         s \<leftarrow> ece391_fdputs C 1 (c_str ''file not found\<newline>'') s;
         Some (2, s)
       } else cat_loop C fd buf s
     }
   }"

partial_function (option) ls_loop :: "'s calls \<Rightarrow> int \<Rightarrow> bytes \<Rightarrow> 's \<Rightarrow> (int \<times> 's) option" where
  "ls_loop C fd buf s = do {
     (cnt, buf, s) \<leftarrow> ece391_read C fd buf 32 s;
     if 0 \<noteq> cnt then
       if cnt = - 1 then do {
         s \<leftarrow> ece391_fdputs C 1 (c_str ''directory entry read failed\<newline>'') s;
         Some (3, s)
       } else do {
         let buf = buf(word_of_int cnt := 10);
         (r, s) \<leftarrow> ece391_write C 1 buf (cnt + 1) s;
         if r = - 1 then Some (3, s) else ls_loop C fd buf s
       }
     else Some (0, s)
   }"

definition ls_main :: "'s calls \<Rightarrow> bytes \<Rightarrow> 's \<Rightarrow> (int \<times> 's) option" where
  "ls_main C buf s = do {
     (fd, s) \<leftarrow> ece391_open C (c_str ''.'') s;
     if fd = - 1 then do {
       s \<leftarrow> ece391_fdputs C 1 (c_str ''directory open failed\<newline>'') s;
       Some (2, s)
     } else ls_loop C fd buf s
   }"

section \<open>shell\<close>

text \<open>What the shell says of the status a command gave.\<close>

definition shell_report :: "'s calls \<Rightarrow> int \<Rightarrow> 's \<Rightarrow> 's option" where
  "shell_report C rval s =
     (if rval = - 1 then ece391_fdputs C 1 (c_str ''no such command\<newline>'') s
      else if rval = 256 then ece391_fdputs C 1 (c_str ''program terminated by exception\<newline>'') s
      else if rval \<noteq> 0 then ece391_fdputs C 1 (c_str ''program terminated abnormally\<newline>'') s
      else Some s)"

partial_function (option) shell_loop :: "'s calls \<Rightarrow> bytes \<Rightarrow> 's \<Rightarrow> (int \<times> 's) option" where
  "shell_loop C buf s = do {
     s \<leftarrow> ece391_fdputs C 1 (c_str ''391OS> '') s;
     (cnt, buf, s) \<leftarrow> ece391_read C 0 buf 1023 s;
     if cnt = - 1 then do {
       s \<leftarrow> ece391_fdputs C 1 (c_str ''read from keyboard failed\<newline>'') s;
       Some (3, s)
     } else do {
       let cnt = (if cnt > 0 \<and> buf (word_of_int (cnt - 1)) = 10 then cnt - 1 else cnt);
       let buf = buf(word_of_int cnt := 0);
       d \<leftarrow> ece391_strcmp buf (c_str ''exit'');
       if d = 0 then Some (0, s)
       else if buf 0 = 0 then shell_loop C buf s
       else do {
         (rval, s) \<leftarrow> ece391_execute C buf s;
         s \<leftarrow> shell_report C rval s;
         shell_loop C buf s
       }
     }
   }"

definition shell_main :: "'s calls \<Rightarrow> bytes \<Rightarrow> 's \<Rightarrow> (int \<times> 's) option" where
  "shell_main C buf s = do {
     s \<leftarrow> ece391_fdputs C 1 (c_str ''Starting 391 Shell\<newline>'') s;
     shell_loop C buf s
   }"

section \<open>Programs that write to the terminal\<close>

text \<open>
  What a program relies on when it writes to descriptor 1: every character appears on the terminal,
  and the call returns how many there were.
\<close>

locale text_out =
  fixes C :: "'s calls" and ok :: "'s \<Rightarrow> bool" and out :: "'s \<Rightarrow> tty"
  assumes write_ok: "ok s \<Longrightarrow> length xs < 2 ^ 31 \<Longrightarrow> 0 \<notin> set xs \<Longrightarrow> \<forall>i<length xs. buf (of_nat i) = xs ! i \<Longrightarrow>
    \<exists>t. ece391_write C 1 buf (int (length xs)) s = Some (int (length xs), t) \<and> ok t \<and> out t = fold tty_putc xs (out s)"
begin

lemma fdputs_ok:
  assumes "ok s" and "is_str str xs" and "length xs < 2 ^ 31"
  shows "\<exists>t. ece391_fdputs C 1 str s = Some t \<and> ok t \<and> out t = fold tty_putc xs (out s)"
proof -
  have "sint (of_nat (length xs) :: u32) = int (length xs)"
    using assms(3) by (subst sint_unat_small) (simp_all add: unat_of_nat_small)
  moreover obtain t where "ece391_write C 1 str (int (length xs)) s = Some (int (length xs), t)" "ok t"
    "out t = fold tty_putc xs (out s)"
    using write_ok [OF assms(1,3)] assms(2) by (auto simp: is_str_def)
  ultimately show ?thesis by (simp add: ece391_fdputs_def ece391_strlen_str [OF assms(2)])
qed

lemma says:
  assumes "ok s" and "length xs < 2 ^ 31" and "list_all (\<lambda>c. (of_char c :: u8) \<noteq> 0) xs"
  shows "\<exists>t. ece391_fdputs C 1 (c_str xs) s = Some t \<and> ok t \<and> out t = fold tty_putc (map of_char xs) (out s)"
  using fdputs_ok [OF assms(1) is_str_c_str [OF _ assms(3)]] assms(2) by simp

text \<open>Counting from \<open>i + 1\<close> to \<open>mx\<close>.\<close>

lemma counter_loop_ok:
  "ok s \<Longrightarrow> i \<le> mx \<Longrightarrow> \<exists>t. counter_loop C mx i buf s = Some t \<and> ok t \<and>
     out t = fold tty_putc (concat (map (\<lambda>k. numeral_text 10 k @ [10]) [Suc (unat i)..<Suc (unat mx)])) (out s)"
proof (induction "unat mx - unat i" arbitrary: i buf s)
  case 0
  then have "i = mx" by (simp add: word_le_nat_alt word_unat_eq_iff)
  then show ?case using 0 by (intro exI [of _ s]) (simp add: counter_loop.simps [of C mx mx])
next
  case (Suc d)
  have i: "i < mx" "unat (i + 1) = Suc (unat i)" "i + 1 \<le> mx"
  proof -
    show 1: "i < mx" using Suc.hyps(2) by (simp add: word_less_nat_alt)
    have "unat mx < 2 ^ LENGTH(32)" by (rule unsigned_less)
    then show "unat (i + 1) = Suc (unat i)" using 1 by (simp add: word_less_nat_alt unat_word_ariths(1))
    then show "i + 1 \<le> mx" using 1 by (simp add: word_le_nat_alt word_less_nat_alt)
  qed
  obtain b where b: "ece391_itoa (i + 1) buf 10 = Some (Inr b)" "is_str b (numeral_text 10 (unat (i + 1)))"
    using ece391_itoa_text [of 10 "i + 1" buf] by auto
  have l: "length (numeral_text 10 (unat (i + 1))) < 2 ^ 31" using numeral_text_short [of 10 "i + 1"] by simp
  obtain u where u: "ece391_fdputs C 1 b s = Some u" "ok u" "out u = fold tty_putc (numeral_text 10 (unat (i + 1))) (out s)"
    using fdputs_ok [OF Suc.prems(1) b(2) l] by blast
  obtain v where v: "ece391_fdputs C 1 (c_str ''\<newline>'') u = Some v" "ok v" "out v = tty_putc 10 (out u)"
    using says [OF u(2), of "''\<newline>''"] by auto
  have "unat mx - unat (i + 1) = d" using Suc.hyps(2) i by simp
  from Suc.hyps(1) [OF this [symmetric] v(2) i(3), of b]
  obtain t where t: "counter_loop C mx (i + 1) b v = Some t" "ok t"
    "out t = fold tty_putc (concat (map (\<lambda>k. numeral_text 10 k @ [10]) [Suc (unat (i + 1))..<Suc (unat mx)])) (out v)"
    by blast
  have "counter_loop C mx i buf s = Some t"
    using i(1) b(1) u(1) v(1) t(1) by (simp add: counter_loop.simps [of C mx i])
  moreover have "[Suc (unat i)..<Suc (unat mx)] = Suc (unat i) # [Suc (unat (i + 1))..<Suc (unat mx)]"
    using i Suc.hyps(2) by (simp add: upt_conv_Cons del: upt_Suc)
  ultimately show ?case using t u(3) v(3) i(2) by (simp del: upt_Suc)
qed

end

lemma fold_take_drop: "fold f (drop n xs) (fold f (take n xs) z) = fold f xs z"
  by (metis append_take_drop_id fold_append comp_apply)

text \<open>
  And when it reads a file to its end: \<open>rest\<close> is what the descriptor still has to deliver, which
  writing to the terminal does not change.
\<close>

locale text_file = text_out C ok out for C :: "'s calls" and ok and out +
  fixes fd :: int and rest :: "'s \<Rightarrow> u8 list"
  assumes read_ok: "ok s \<Longrightarrow> n < 2 ^ 31 \<Longrightarrow> xs = take n (rest s) \<Longrightarrow>
      \<exists>b t. ece391_read C fd buf (int n) s = Some (int (length xs), b, t) \<and> ok t \<and> out t = out s \<and>
        rest t = drop n (rest s) \<and> (\<forall>i<length xs. b (of_nat i) = xs ! i) \<and> (\<forall>k. length xs \<le> unat k \<longrightarrow> b k = buf k)"
    and write_rest: "ok s \<Longrightarrow> ece391_write C 1 buf k s = Some (r, t) \<Longrightarrow> rest t = rest s"
begin

lemma cat_loop_ok:
  "ok s \<Longrightarrow> 0 \<notin> set (rest s) \<Longrightarrow>
   \<exists>t. cat_loop C fd buf s = Some (0, t) \<and> ok t \<and> rest t = [] \<and> out t = fold tty_putc (rest s) (out s)"
proof (induction "length (rest s)" arbitrary: buf s rule: less_induct)
  case less
  let ?xs = "take 1024 (rest s)"
  obtain b u where r: "ece391_read C fd buf 1024 s = Some (int (length ?xs), b, u)" "ok u" "out u = out s"
    "rest u = drop 1024 (rest s)" "\<forall>i<length ?xs. b (of_nat i) = ?xs ! i"
    using read_ok [OF less.prems(1), of 1024 ?xs buf] by auto
  show ?case
  proof (cases "rest s = []")
    case True
    then show ?thesis using r by (simp add: cat_loop.simps [of C fd buf s])
  next
    case False
    have len: "length ?xs < 2 ^ 31" by simp
    have "0 \<notin> set ?xs" using less.prems(2) by (auto dest: in_set_takeD)
    then obtain v where w: "ece391_write C 1 b (int (length ?xs)) u = Some (int (length ?xs), v)" "ok v"
      "out v = fold tty_putc ?xs (out u)"
      using write_ok [OF r(2) _ _ r(5)] len by blast
    have v: "rest v = drop 1024 (rest s)" using write_rest [OF r(2) w(1)] r(4) by simp
    have "length (rest v) < length (rest s)" "0 \<notin> set (rest v)"
      using False less.prems(2) by (auto simp: v dest: in_set_dropD)
    from less.hyps [OF this(1) w(2) this(2), of b]
    obtain t where t: "cat_loop C fd b v = Some (0, t)" "ok t" "rest t = []" "out t = fold tty_putc (rest v) (out v)"
      by blast
    have "cat_loop C fd buf s = cat_loop C fd b v"
      using r(1) w(1) False by (simp add: cat_loop.simps [of C fd buf s])
    moreover have "out t = fold tty_putc (rest s) (out s)"
      using t(4) w(3) r(3) v by (simp add: fold_take_drop)
    ultimately show ?thesis using t by simp
  qed
qed

end

section \<open>The kernel as the programs see it\<close>

text \<open>
  The system calls of the kernel's model. What \<open>execute\<close> gives the program is up to the programs it
  runs, and the arguments come through user memory, so these two are parameters.
\<close>

definition kernel_calls :: "tables \<Rightarrow> device \<Rightarrow> (bytes \<Rightarrow> 'a kernel_scheme \<Rightarrow> (int \<times> 'a kernel_scheme) option) \<Rightarrow>
    (bytes \<Rightarrow> int \<Rightarrow> 'a kernel_scheme \<Rightarrow> (int \<times> bytes \<times> 'a kernel_scheme) option) \<Rightarrow> 'a kernel_scheme calls" where
  "kernel_calls T dev ex ga = \<lparr>
     ece391_execute = ex,
     ece391_read = (\<lambda>fd buf n s. case sys_read fd (Some buf) n s of
       Some (Inr (r, Some b, s)) \<Rightarrow> Some (r, b, s) | _ \<Rightarrow> None),
     ece391_write = (\<lambda>fd buf n s. Some (sys_write dev fd (Some buf) n s)),
     ece391_open = (\<lambda>name s. Some (sys_open dev (Some name) s)),
     ece391_close = (\<lambda>fd s. Some (sys_close dev fd s)),
     ece391_getargs = ga,
     ece391_vidmap = (\<lambda>p s. case vidmap T p s of Inr r \<Rightarrow> Some r | Inl _ \<Rightarrow> None),
     ece391_set_handler = (\<lambda>signum h s. Some (set_handler (word_of_int signum) h, s))\<rparr>"

text \<open>The screen is good and descriptor 1 is the terminal.\<close>

definition stdout_ok :: "'a kernel_scheme \<Rightarrow> bool" where
  "stdout_ok s \<longleftrightarrow> screen_inv s \<and> is_open (cur_file s 1) \<and> fileops (cur_file s 1) = stdout_ops"

lemma con_step_files: "con_step s t \<Longrightarrow> pcbs t = pcbs s \<and> get_current_pcb t = get_current_pcb s \<and> cur_file t = cur_file s"
  by (auto simp: con_step_def get_current_pcb_def cur_file_def fun_eq_iff)

lemma written_exact:
  assumes "length xs < 2 ^ 31" and "0 \<notin> set xs" and "\<forall>i<length xs. buf (of_nat i) = xs ! i"
  shows "written buf (int (length xs)) = xs"
proof -
  have "map (\<lambda>k. buf (word_of_int k)) [0..int (length xs) - 1] = xs"
    using assms(3) by (intro nth_equalityI) simp_all
  then show ?thesis using assms(2) by (simp add: written_def takeWhile_eq_all_conv) auto
qed

lemma kernel_write:
  assumes "stdout_ok s" and "length xs < 2 ^ 31" "0 \<notin> set xs" "\<forall>i<length xs. buf (of_nat i) = xs ! i"
  shows "ece391_write (kernel_calls T dev ex ga) 1 buf (int (length xs)) s = Some (int (length xs), fold putc xs s)"
  using assms(1) written_exact [OF assms(2-4)]
  by (simp add: kernel_calls_def sys_write_def stdout_ok_def MAX_FILES_def stdout_ops_def terminal_write_eq)

lemma kernel_says:
  assumes "stdout_ok s" and "length xs < 2 ^ 31" and "list_all (\<lambda>c. (of_char c :: u8) \<noteq> 0) xs"
  shows "ece391_fdputs (kernel_calls T dev ex ga) 1 (c_str xs) s = Some (fold putc (map of_char xs) s)"
proof -
  have str: "is_str (c_str xs) (map of_char xs)" using assms(2,3) by (intro is_str_c_str) simp_all
  have "sint (of_nat (length xs) :: u32) = int (length xs)"
    using assms(2) by (subst sint_unat_small) (simp_all add: unat_of_nat_small)
  moreover have "ece391_write (kernel_calls T dev ex ga) 1 (c_str xs) (int (length (map of_char xs :: u8 list))) s =
      Some (int (length (map of_char xs :: u8 list)), fold putc (map of_char xs) s)"
    by (rule kernel_write [OF assms(1)]) (use assms(2) str in \<open>auto simp: is_str_def\<close>)
  ultimately show ?thesis using ece391_strlen_str [OF str] by (simp add: ece391_fdputs_def)
qed

lemma stdout_fold: "stdout_ok s \<Longrightarrow> stdout_ok (fold putc xs s)"
  using con_step_files [OF con.ok_fold [of s xs]] tty_of_fold [of s xs] by (simp add: stdout_ok_def)

interpretation kernel_out: text_out "kernel_calls T dev ex ga" stdout_ok tty_of for T dev ex ga
proof unfold_locales
  fix s :: "'a kernel_scheme" and xs and buf :: bytes
  assume "stdout_ok s" "length xs < 2 ^ 31" "0 \<notin> set xs" "\<forall>i<length xs. buf (of_nat i) = xs ! i"
  then show "\<exists>t. ece391_write (kernel_calls T dev ex ga) 1 buf (int (length xs)) s = Some (int (length xs), t)
      \<and> stdout_ok t \<and> tty_of t = fold tty_putc xs (tty_of s)"
    using kernel_write [of s xs buf] stdout_fold [of s xs] tty_of_fold [of s xs]
    by (intro exI [of _ "fold putc xs s"]) (simp add: stdout_ok_def)
qed

section \<open>Programs that read a line\<close>

text \<open>Descriptor 0 is the terminal too, and the user has typed a line.\<close>

definition stdin_ok :: "'a kernel_scheme \<Rightarrow> bool" where
  "stdin_ok s \<longleftrightarrow> stdout_ok s \<and> is_open (cur_file s 0) \<and> fileops (cur_file s 0) = stdin_ops"

definition line_waits :: "'a kernel_scheme \<Rightarrow> u8 list \<Rightarrow> bool" where
  "line_waits s line \<longleftrightarrow> enter_pressed s \<noteq> 0 \<and>
     (\<exists>b. key_buffer s = Some b \<and> key_line (term_key_buffer (terminal s b)) = line)"

lemma line_chars: "line_waits s line \<Longrightarrow> 0 \<notin> set line"
  by (auto simp: line_waits_def key_line_def dest: set_takeWhileD)

lemma line_waits_fold: "line_waits s line \<Longrightarrow> line_waits (fold putc xs s) line"
  using con.ok_fold [of s xs] by (auto simp: con_step_def line_waits_def)

lemma stdin_fold: "stdin_ok s \<Longrightarrow> stdin_ok (fold putc xs s)"
  using con_step_files [OF con.ok_fold [of s xs]] stdout_fold [of s xs] by (simp add: stdin_ok_def)

text \<open>The program gets the line, and ends it with a NUL.\<close>

lemma kernel_read_line:
  assumes s: "stdin_ok s" "line_waits s line" and n: "length line < 128" "length line \<le> nat nbytes"
  shows "\<exists>b t. ece391_read (kernel_calls T dev ex ga) 0 buf nbytes s = Some (int (length line), b, t)
    \<and> stdin_ok t \<and> tty_of t = tty_of s \<and> is_str (b(of_nat (length line) := 0)) line
    \<and> (\<forall>i<length line. b (of_nat i) = line ! i)"
proof -
  obtain k where k: "key_buffer s = Some k" "key_line (term_key_buffer (terminal s k)) = line" "enter_pressed s \<noteq> 0"
    using s(2) by (auto simp: line_waits_def)
  let ?b = "\<lambda>k. if unat k < length line then line ! unat k else buf k"
  let ?t = "upd_terminal k (\<lambda>x. x\<lparr>term_key_buffer := (\<lambda>k. if unat k < 128 then 0 else term_key_buffer x k)\<rparr>)
        (s\<lparr>enter_pressed := 0, key_buffer_pos := 0, right_bound := 7\<rparr>)"
  have "terminal_read buf nbytes s = Some (Inr (int (length line), ?b, ?t))"
    by (rule terminal_read_eq) (use k n in simp_all)
  then have rd: "ece391_read (kernel_calls T dev ex ga) 0 buf nbytes s = Some (int (length line), ?b, ?t)"
    using s(1) by (simp add: kernel_calls_def sys_read_def stdin_ok_def stdin_ops_def MAX_FILES_def)
  have g: "get_current_pcb ?t = get_current_pcb s" by (simp add: get_current_pcb_def)
  have "cur_file ?t = cur_file s" unfolding cur_file_def g by (simp add: fun_eq_iff)
  then have "stdin_ok ?t" using s(1) by (simp add: stdin_ok_def stdout_ok_def screen_inv_def)
  moreover have "tty_of ?t = tty_of s" by (simp add: tty_of_def)
  moreover have b: "?b (of_nat i) = line ! i" if "i < length line" for i
    using that n(1) by (simp add: unat_of_nat_small)
  moreover have "(of_nat i :: u32) \<noteq> of_nat (length line)" if "i < length line" for i
    using that n(1) by (simp add: word_unat_eq_iff unat_of_nat_small)
  then have "is_str (?b(of_nat (length line) := 0)) line"
    using b line_chars [OF s(2)] n(1) by (simp add: is_str_def)
  ultimately show ?thesis using rd by blast
qed

text \<open>The prompt and the line that answers it.\<close>

lemma kernel_ask:
  assumes s: "stdin_ok s" "line_waits s line" and n: "length line < 128"
    and q: "length q < 2 ^ 31" "list_all (\<lambda>c. (of_char c :: u8) \<noteq> 0) q"
  shows "\<exists>p b t. ece391_fdputs (kernel_calls T dev ex ga) 1 (c_str q) s = Some p
    \<and> ece391_read (kernel_calls T dev ex ga) 0 buf 1023 p = Some (int (length line), b, t)
    \<and> stdin_ok t \<and> tty_of t = fold tty_putc (map of_char q) (tty_of s) \<and> is_str (b(of_nat (length line) := 0)) line
    \<and> (\<forall>i<length line. b (of_nat i) = line ! i)"
proof -
  let ?p = "fold putc (map of_char q) s"
  have so: "stdout_ok s" "screen_inv s" using s(1) by (simp_all add: stdin_ok_def stdout_ok_def)
  have "length line \<le> nat 1023" using n by simp
  from kernel_read_line [OF stdin_fold [OF s(1)] line_waits_fold [OF s(2)] n this]
  show ?thesis using kernel_says [OF so(1) q] tty_of_fold [OF so(2)] by metis
qed

text \<open>
  \<open>hello\<close>, run on the kernel's own system calls by a user who types a name, prints its
  question and greets that name, character for character, and returns 0.
\<close>

theorem hello_greets:
  fixes s :: "'a kernel_scheme"
  assumes "stdin_ok s" and "line_waits s name" and "length name < 128"
  shows "\<exists>t. hello_main (kernel_calls T dev ex ga) buf s = Some (0, t)
    \<and> tty_of t = fold tty_putc (map of_char ''Hi, what's your name? '' @ map of_char ''Hello, '' @ name) (tty_of s)"
proof -
  let ?C = "kernel_calls T dev ex ga" and ?ask = "''Hi, what's your name? ''"
  have "\<exists>p b t. ece391_fdputs ?C 1 (c_str ?ask) s = Some p
    \<and> ece391_read ?C 0 buf 1023 p = Some (int (length name), b, t)
    \<and> stdin_ok t \<and> tty_of t = fold tty_putc (map of_char ?ask) (tty_of s) \<and> is_str (b(of_nat (length name) := 0)) name
    \<and> (\<forall>i<length name. b (of_nat i) = name ! i)"
    by (rule kernel_ask [OF assms]) simp_all
  then obtain p b u where p: "ece391_fdputs ?C 1 (c_str ?ask) s = Some p"
    "ece391_read ?C 0 buf 1023 p = Some (int (length name), b, u)" "stdin_ok u"
    "tty_of u = fold tty_putc (map of_char ?ask) (tty_of s)" "is_str (b(of_nat (length name) := 0)) name" by blast
  have u: "stdout_ok u" using p(3) by (simp add: stdin_ok_def)
  have "\<exists>v. ece391_fdputs ?C 1 (c_str ''Hello, '') u = Some v \<and> stdout_ok v
    \<and> tty_of v = fold tty_putc (map of_char ''Hello, '') (tty_of u)"
    by (rule kernel_out.says [OF u]) simp_all
  then obtain v where v: "ece391_fdputs ?C 1 (c_str ''Hello, '') u = Some v" "stdout_ok v"
    "tty_of v = fold tty_putc (map of_char ''Hello, '') (tty_of u)" by blast
  have "length name < 2 ^ 31" using assms(3) by simp
  from kernel_out.fdputs_ok [OF v(2) p(5) this]
  obtain t where t: "ece391_fdputs ?C 1 (b(of_nat (length name) := 0)) v = Some t"
    "tty_of t = fold tty_putc name (tty_of v)" by blast
  have "hello_main ?C buf s = Some (0, t)" using p(1,2) v(1) t(1) by (simp add: hello_main_def)
  then show ?thesis unfolding fold_append comp_apply p(4) [symmetric] v(3) [symmetric] t(2) [symmetric] by blast
qed

text \<open>
  Claim C26. \<open>counter\<close> counts: given the choice 0, 1 or 2 it prints the numbers from 1 to 100, 10000 or
  100000 in decimal, each on a line of its own, and returns 0.
\<close>

theorem counter_counts:
  fixes s :: "'a kernel_scheme"
  assumes "stdin_ok s" and "line_waits s [c]" and "(c, n) \<in> {(48, 100), (49, 10000), (50, 100000)}"
  shows "\<exists>t. counter_main (kernel_calls T dev ex ga) buf s = Some (0, t)
    \<and> tty_of t = fold tty_putc (map of_char ''Enter the Test Number: (0): 100, (1): 10000, (2): 100000\<newline>''
        @ concat (map (\<lambda>k. numeral_text 10 k @ [10]) [1..<Suc n])) (tty_of s)"
proof -
  let ?C = "kernel_calls T dev ex ga" and ?ask = "''Enter the Test Number: (0): 100, (1): 10000, (2): 100000\<newline>''"
  have "\<exists>p b t. ece391_fdputs ?C 1 (c_str ?ask) s = Some p
    \<and> ece391_read ?C 0 buf 1023 p = Some (int (length [c]), b, t)
    \<and> stdin_ok t \<and> tty_of t = fold tty_putc (map of_char ?ask) (tty_of s) \<and> is_str (b(of_nat (length [c]) := 0)) [c]
    \<and> (\<forall>i<length [c]. b (of_nat i) = [c] ! i)"
    by (rule kernel_ask [OF assms(1,2)]) simp_all
  then obtain p b u where p: "ece391_fdputs ?C 1 (c_str ?ask) s = Some p"
    "ece391_read ?C 0 buf 1023 p = Some (1, b, u)" "stdin_ok u"
    "tty_of u = fold tty_putc (map of_char ?ask) (tty_of s)" "is_str (b(1 := 0)) [c]" "b 0 = c" by auto
  have len: "ece391_strlen (b(1 := 0)) = Some 1" using ece391_strlen_str [OF p(5)] by simp
  have "stdout_ok u" "0 \<le> (of_nat n :: u32)" using p(3) by (simp_all add: stdin_ok_def)
  from kernel_out.counter_loop_ok [OF this]
  obtain t where t: "counter_loop ?C (of_nat n) 0 (b(1 := 0)) u = Some t"
    "tty_of t = fold tty_putc (concat (map (\<lambda>k. numeral_text 10 k @ [10]) [Suc (unat (0 :: u32))..<Suc (unat (of_nat n :: u32))])) (tty_of u)"
    by blast
  have n: "unat (of_nat n :: u32) = n" using assms(3) by (intro unat_of_nat_small) auto
  have "counter_main ?C buf s = Some (0, t)"
    using assms(3) p(1,2,6) len t(1) by (auto simp: counter_main_def)
  then show ?thesis unfolding fold_append comp_apply p(4) [symmetric] using t(2) n by (simp del: upt_Suc)
qed

text \<open>
  Claim C25. The shell takes the line that the user typed after its prompt: \<open>exit\<close> ends it with 0, an
  empty line is passed over, and any other line is executed as it is typed and its status reported,
  after which the shell asks again.
\<close>

theorem shell_takes_line:
  fixes s :: "'a kernel_scheme"
  assumes "stdin_ok s" and "line_waits s line" and "length line < 128" and "10 \<notin> set line"
    and "C = kernel_calls T dev ex ga"
  shows "\<exists>b t. is_str b line \<and> stdin_ok t \<and> tty_of t = fold tty_putc (map of_char ''391OS> '') (tty_of s)
    \<and> shell_loop C buf s =
      (if line = map of_char ''exit'' then Some (0, t)
       else if line = [] then shell_loop C b t
       else do {
         (rval, u) \<leftarrow> ex b t;
         v \<leftarrow> shell_report C rval u;
         shell_loop C b v
       })"
proof -
  let ?ask = "''391OS> ''"
  have "\<exists>p b t. ece391_fdputs C 1 (c_str ?ask) s = Some p
    \<and> ece391_read C 0 buf 1023 p = Some (int (length line), b, t)
    \<and> stdin_ok t \<and> tty_of t = fold tty_putc (map of_char ?ask) (tty_of s) \<and> is_str (b(of_nat (length line) := 0)) line
    \<and> (\<forall>i<length line. b (of_nat i) = line ! i)"
    unfolding assms(5) by (rule kernel_ask [OF assms(1-3)]) simp_all
  then obtain p b t where p: "ece391_fdputs C 1 (c_str ?ask) s = Some p"
    "ece391_read C 0 buf 1023 p = Some (int (length line), b, t)" "stdin_ok t"
    "tty_of t = fold tty_putc (map of_char ?ask) (tty_of s)" "is_str (b(of_nat (length line) := 0)) line"
    "\<forall>i<length line. b (of_nat i) = line ! i" by blast
  let ?b = "b(of_nat (length line) := 0)"
  have nl: "\<not> (0 < int (length line) \<and> b (word_of_int (int (length line) - 1)) = 10)"
  proof
    assume a: "0 < int (length line) \<and> b (word_of_int (int (length line) - 1)) = 10"
    then have "int (length line) - 1 = int (length line - 1)" by (cases line) simp_all
    then have "b (of_nat (length line - 1)) = 10" using a by (simp only: of_int_of_nat_eq)
    moreover have "b (of_nat (length line - 1)) = line ! (length line - 1)"
      by (rule p(6) [rule_format]) (use a in auto)
    ultimately have "line ! (length line - 1) = 10" by (simp only:)
    then show False using a assms(4) by (metis diff_less nth_mem of_nat_0_less_iff zero_less_one)
  qed
  have e: "is_str (c_str ''exit'') (map of_char ''exit'')" by (rule is_str_c_str) simp_all
  obtain d where d: "ece391_strcmp ?b (c_str ''exit'') = Some d" "d = 0 \<longleftrightarrow> line = map of_char ''exit''"
    using ece391_strcmp_str [OF p(5) e] by blast
  have z: "?b 0 = 0 \<longleftrightarrow> line = []"
    using p(5) by (cases line) (auto simp: is_str_def)
  have m: "int (length line) = - 1 \<longleftrightarrow> False" by simp
  have x: "ece391_execute C = ex" by (simp add: assms(5) kernel_calls_def)
  have "shell_loop C buf s =
      (if line = map of_char ''exit'' then Some (0, t)
       else if line = [] then shell_loop C ?b t
       else do { (rval, u) \<leftarrow> ex ?b t; v \<leftarrow> shell_report C rval u; shell_loop C ?b v })"
    by (subst shell_loop.simps)
      (simp only: p(1,2) bind.bind_lunit prod.case nl m if_False Let_def d z x of_int_of_nat_eq simp_thms refl)
  then show ?thesis using p(3-5) by blast
qed

text \<open>A process with the terminal on 0 and 1, and a line at the keyboard.\<close>

definition typed_kernel :: "u8 list \<Rightarrow> kernel" where
  "typed_kernel line = upd_terminal 0 (\<lambda>x. x\<lparr>term_key_buffer := put_keys line 0 (\<lambda>_. 0)\<rparr>)
     (proc_kernel\<lparr>enter_pressed := 1\<rparr>)"

lemma proc_kernel_stdout: "stdout_ok proc_kernel"
  using proc_kernel_ok
  by (simp add: stdout_ok_def files_ok_def cur_file_def cur_files_def screen_inv_def)
    (simp add: proc_kernel_def blank_kernel_def rofs.defs tiny_fs_def init_rofs_def Let_def paging.defs blank_paging_def
      NUM_COLS_def NUM_ROWS_def)

lemma typed_kernel_ok:
  assumes "0 \<notin> set line" and "length line < 128"
  shows "stdin_ok (typed_kernel line)" "line_waits (typed_kernel line) line"
proof -
  have g: "get_current_pcb (typed_kernel line) = get_current_pcb proc_kernel" by (simp add: typed_kernel_def get_current_pcb_def)
  have "cur_file (typed_kernel line) = cur_file proc_kernel" unfolding cur_file_def g by (simp add: typed_kernel_def fun_eq_iff)
  then show "stdin_ok (typed_kernel line)"
    using proc_kernel_stdout proc_kernel_ok
    by (simp add: stdin_ok_def stdout_ok_def files_ok_def cur_file_def cur_files_def screen_inv_def)
      (simp add: typed_kernel_def)
  have "key_buffer proc_kernel = Some 0" by (simp add: proc_kernel_def)
  then show "line_waits (typed_kernel line) line"
    using key_line_put [of "\<lambda>_. 0" line] assms by (simp add: line_waits_def typed_kernel_def)
qed

theorem hello_greets_witness:
  "\<exists>t. hello_main (kernel_calls some_tables (\<lambda>_ _. 0) (\<lambda>_ s. None) (\<lambda>b n s. None)) (\<lambda>_. 0) (typed_kernel [65, 108]) = Some (0, t)
    \<and> tty_of t = fold tty_putc (map of_char ''Hi, what's your name? Hello, '' @ [65, 108]) (tty_of (typed_kernel [65, 108]))"
  using hello_greets [OF typed_kernel_ok [of "[65, 108]"], of some_tables "\<lambda>_ _. 0" "\<lambda>_ s. None" "\<lambda>b n s. None" "\<lambda>_. 0"] by simp

theorem counter_counts_witness:
  "\<exists>t. counter_main (kernel_calls some_tables (\<lambda>_ _. 0) (\<lambda>_ s. None) (\<lambda>b n s. None)) (\<lambda>_. 0) (typed_kernel [48]) = Some (0, t)"
  using counter_counts [OF typed_kernel_ok [of "[48]"], of 100 some_tables "\<lambda>_ _. 0" "\<lambda>_ s. None" "\<lambda>b n s. None" "\<lambda>_. 0"]
  by (auto simp del: upt_Suc upt_rec_numeral fold_simps list.map)

theorem shell_takes_line_witness:
  "\<exists>t. shell_loop (kernel_calls some_tables (\<lambda>_ _. 0) (\<lambda>_ s. None) (\<lambda>b n s. None)) (\<lambda>_. 0) (typed_kernel (map of_char ''exit'')) = Some (0, t)
    \<and> tty_of t = fold tty_putc (map of_char ''391OS> '') (tty_of (typed_kernel (map of_char ''exit'')))"
  using shell_takes_line [OF typed_kernel_ok [of "map of_char ''exit''"] _ _ refl, of some_tables "\<lambda>_ _. 0" "\<lambda>_ s. None" "\<lambda>b n s. None" "\<lambda>_. 0"]
  by auto

section \<open>cat\<close>

text \<open>A file whose bytes do not lie in the screen's memory, so that printing does not change them.\<close>

definition off_screen :: "'a kernel_scheme \<Rightarrow> u32 \<Rightarrow> bool" where
  "off_screen s n \<longleftrightarrow> (\<forall>m. (\<forall>a. a \<notin> text_cells \<longrightarrow> m a = mem s a) \<longrightarrow>
     file_bytes (s\<lparr>mem := m\<rparr>) n = file_bytes s n \<and> inode_ok (s\<lparr>mem := m\<rparr>) n = inode_ok s n)"

definition file_ready :: "int \<Rightarrow> 'a kernel_scheme \<Rightarrow> bool" where
  "file_ready fd s \<longleftrightarrow> stdout_ok s \<and> 2 \<le> fd \<and> fd < 8 \<and> is_open (cur_file s fd) \<and> fileops (cur_file s fd) = file_ops
     \<and> inode_ok s (inode (cur_file s fd)) \<and> off_screen s (inode (cur_file s fd))
     \<and> unat (pos (cur_file s fd)) \<le> length (file_bytes s (inode (cur_file s fd)))"

definition file_rest :: "int \<Rightarrow> 'a kernel_scheme \<Rightarrow> u8 list" where
  "file_rest fd s = map show_char (drop (unat (pos (cur_file s fd))) (file_bytes s (inode (cur_file s fd))))"

lemma image_fields:
  "mem t = mem s \<Longrightarrow> boot_block t = boot_block s \<Longrightarrow> inodes t = inodes s \<Longrightarrow> data_blocks t = data_blocks s \<Longrightarrow>
   file_bytes t n = file_bytes s n \<and> inode_ok t n = inode_ok s n"
  by (simp add: file_bytes_def file_byte_def inode_at_def inode_length_def data_block_num_def
      inode_ok_def num_inodes_def)

lemma off_screen_con:
  assumes c: "con_step s t" and s: "screen_inv s" and o: "off_screen s n"
  shows "file_bytes t n = file_bytes s n" "inode_ok t n = inode_ok s n" "off_screen t n"
proof -
  obtain m i x y where t: "t = s\<lparr>mem := m, io := i, screen_x := x, screen_y := y\<rparr>"
    using c by (auto simp: con_step_def)
  have f: "file_bytes (t\<lparr>mem := m'\<rparr>) n = file_bytes (s\<lparr>mem := m'\<rparr>) n \<and> inode_ok (t\<lparr>mem := m'\<rparr>) n = inode_ok (s\<lparr>mem := m'\<rparr>) n" for m'
    by (rule image_fields) (simp_all add: t)
  have m: "mem t a = mem s a" if "a \<notin> text_cells" for a using con_step_mem [OF c s that] .
  show 1: "file_bytes t n = file_bytes s n" "inode_ok t n = inode_ok s n"
    using f [of "mem t"] o m unfolding off_screen_def by simp_all
  show "off_screen t n"
    using o m f 1 unfolding off_screen_def by simp
qed

lemma file_ready_con:
  assumes c: "con_step s t" and r: "file_ready fd s" and i: "stdout_ok t"
  shows "file_ready fd t" "file_rest fd t = file_rest fd s"
proof -
  have s: "screen_inv s" and o: "off_screen s (inode (cur_file s fd))"
    using r by (simp_all add: file_ready_def stdout_ok_def)
  show "file_ready fd t" "file_rest fd t = file_rest fd s"
    using r i off_screen_con [OF c s o] con_step_files [OF c] by (simp_all add: file_ready_def file_rest_def)
qed

lemma kernel_read:
  assumes r: "file_ready fd s" and n: "n < 2 ^ 31" and xs: "xs = take n (file_rest fd s)"
  shows "\<exists>b t. ece391_read (kernel_calls T dev ex ga) fd buf (int n) s = Some (int (length xs), b, t) \<and>
    file_ready fd t \<and> tty_of t = tty_of s \<and> file_rest fd t = drop n (file_rest fd s) \<and> (\<forall>i<length xs. b (of_nat i) = xs ! i)
    \<and> (\<forall>k. length xs \<le> unat k \<longrightarrow> b k = buf k) \<and> (\<exists>g. t = upd_file (get_current_pcb s) (nat fd) g s)"
proof -
  let ?f = "cur_file s fd"
  let ?F = "file_bytes s (inode ?f)"
  define t where "t = upd_file (get_current_pcb s) (nat fd) (\<lambda>f. f\<lparr>pos := pos f + of_nat (length xs)\<rparr>) s"
  have f: "2 \<le> fd" "fd < 8" "is_open ?f" "fileops ?f = file_ops" "inode_ok s (inode ?f)" "unat (pos ?f) \<le> length ?F"
    "stdout_ok s" "off_screen s (inode ?f)"
    using r by (simp_all add: file_ready_def)
  have L: "length ?F < 2 ^ 31" using f(5) by (simp add: inode_ok_def file_bytes_def)
  have "xs = map show_char (data_chunk s (inode ?f) (unat (pos ?f)) n)"
    using f(6) n by (simp add: xs file_rest_def data_chunk_eq [OF f(5)] take_map)
  from sys_read_file [OF _ f(2) refl f(3,4,5,6) n this] f(1)
  have rd: "ece391_read (kernel_calls T dev ex ga) fd buf (int n) s =
      Some (int (length xs), \<lambda>k. if unat k < length xs then xs ! unat k else buf k, t)"
    by (simp add: kernel_calls_def t_def)
  have lx: "length xs = min n (length ?F - unat (pos ?f))" by (simp add: xs file_rest_def)
  have g: "get_current_pcb t = get_current_pcb s" by (simp add: t_def get_current_pcb_def)
  have ft: "cur_file t fd = ?f\<lparr>pos := pos ?f + of_nat (length xs)\<rparr>" "cur_file t 1 = cur_file s 1"
    using f(1) unfolding cur_file_def g by (simp_all add: t_def cur_file_def)
  have p: "unat (pos ?f + of_nat (length xs)) = unat (pos ?f) + length xs"
    using lx L f(6) by (simp add: unat_word_ariths(1) unat_of_nat)
  have img: "file_bytes t k = file_bytes s k \<and> inode_ok t k = inode_ok s k" for k
    by (rule image_fields) (simp_all add: t_def)
  have "file_bytes (t\<lparr>mem := m\<rparr>) k = file_bytes (s\<lparr>mem := m\<rparr>) k \<and> inode_ok (t\<lparr>mem := m\<rparr>) k = inode_ok (s\<lparr>mem := m\<rparr>) k" for k m
    by (rule image_fields) (simp_all add: t_def)
  then have "off_screen t (inode ?f)" using f(8) img unfolding off_screen_def by (simp add: t_def)
  moreover have "stdout_ok t" using f(7) ft(2) by (simp add: stdout_ok_def screen_inv_def) (simp add: t_def)
  ultimately have "file_ready fd t"
    using f img p lx by (simp add: file_ready_def ft(1) is_open_def)
  moreover have "file_rest fd t = drop n (file_rest fd s)"
  proof -
    have "drop (length xs) (drop (unat (pos ?f)) ?F) = drop n (drop (unat (pos ?f)) ?F)"
      by (simp add: lx min_def)
    then show ?thesis using img p by (simp add: file_rest_def ft(1) drop_map add.commute)
  qed
  moreover have "tty_of t = tty_of s" by (simp add: t_def tty_of_def)
  moreover have "unat (of_nat i :: u32) = i" if "i < length xs" for i
    using that lx L by (intro unat_of_nat_small) (simp add: min_def split: if_splits)
  moreover have "\<exists>g. t = upd_file (get_current_pcb s) (nat fd) g s" unfolding t_def by blast
  ultimately show ?thesis using rd by auto
qed

interpretation kernel_file: text_file "kernel_calls T dev ex ga" "file_ready fd" tty_of fd "file_rest fd"
  for T dev ex ga fd
proof unfold_locales
  fix s :: "'a kernel_scheme" and xs and buf :: bytes
  assume r: "file_ready fd s" and x: "length xs < 2 ^ 31" "0 \<notin> set xs" "\<forall>i<length xs. buf (of_nat i) = xs ! i"
  then have s: "stdout_ok s" by (simp add: file_ready_def)
  have "file_ready fd (fold putc xs s)"
    by (rule file_ready_con [OF con.ok_fold r stdout_fold [OF s]])
  then show "\<exists>t. ece391_write (kernel_calls T dev ex ga) 1 buf (int (length xs)) s = Some (int (length xs), t)
      \<and> file_ready fd t \<and> tty_of t = fold tty_putc xs (tty_of s)"
    using kernel_write [OF s x] tty_of_fold [of s xs] s by (intro exI [of _ "fold putc xs s"]) (simp add: stdout_ok_def)
next
  fix s t :: "'a kernel_scheme" and buf k r
  assume r: "file_ready fd s" and w: "ece391_write (kernel_calls T dev ex ga) 1 buf k s = Some (r, t)"
  have s: "stdout_ok s" using r by (simp add: file_ready_def)
  then have t: "t = fold putc (written buf k) s"
    using w by (simp add: kernel_calls_def sys_write_def stdout_ok_def MAX_FILES_def stdout_ops_def terminal_write_eq)
  show "file_rest fd t = file_rest fd s"
    unfolding t by (rule file_ready_con [OF con.ok_fold r stdout_fold [OF s]])
qed (use kernel_read in blast)

lemma show_char_nonzero: "show_char c \<noteq> 0"
  by (auto simp: show_char_def)

lemma file_ready_open:
  assumes d: "read_dentry_by_name s name = Some d" "file_type d = FILE_TYPE_FILE"
    and slot: "find_slot 6 2 (cur_files s) = Some i" and s: "stdout_ok s"
    and n: "inode_ok s (inode_num d)" "off_screen s (inode_num d)"
  shows "\<exists>t. sys_open dev (Some name) s = (int i, t) \<and> file_ready (int i) t \<and> tty_of t = tty_of s
    \<and> file_rest (int i) t = map show_char (file_bytes s (inode_num d))"
proof -
  have ops: "type_ops (file_type d) = Some file_ops" using d(2) by (simp add: type_ops_def const_defs)
  obtain es b oc m where o: "sys_open dev (Some name) s =
    (int i, (upd_file (get_current_pcb s) i
       (\<lambda>f. \<lparr>inode = inode_num d, flags = flags f OR FILE_OPEN, pos = 0, fileops = file_ops\<rparr>) s)
       \<lparr>io := es, intr := b, int_occur := oc, slave_mask := m\<rparr>)" (is "_ = (_, ?t)")
    using sys_open_ok [OF d(1) slot ops, of dev] by blast
  have i: "2 \<le> i" "i < 8" using slot by (simp_all add: find_slot_Some)
  have g: "get_current_pcb ?t = get_current_pcb s" by (simp add: get_current_pcb_def)
  have f: "cur_file ?t (int i) = \<lparr>inode = inode_num d, flags = flags (cur_file s (int i)) OR FILE_OPEN, pos = 0,
      fileops = file_ops\<rparr>" "cur_file ?t 1 = cur_file s 1"
    unfolding cur_file_def g using i by (simp_all add: cur_file_def)
  have img: "file_bytes ?t k = file_bytes s k \<and> inode_ok ?t k = inode_ok s k"
    "file_bytes (?t\<lparr>mem := m'\<rparr>) k = file_bytes (s\<lparr>mem := m'\<rparr>) k \<and> inode_ok (?t\<lparr>mem := m'\<rparr>) k = inode_ok (s\<lparr>mem := m'\<rparr>) k"
    for k m' by (rule image_fields; simp)+
  have "off_screen ?t (inode_num d)" using n(2) img unfolding off_screen_def by simp
  moreover have "stdout_ok ?t" using s unfolding stdout_ok_def f(2) by (simp add: screen_inv_def)
  ultimately have "file_ready (int i) ?t"
    using i n(1) img by (simp add: file_ready_def f(1) is_open_def open_flag FILE_OPEN_nonzero)
  moreover have "file_rest (int i) ?t = map show_char (file_bytes s (inode_num d))"
    using img by (simp add: file_rest_def f(1))
  moreover have "tty_of ?t = tty_of s" by (simp add: tty_of_def)
  ultimately show ?thesis using o by blast
qed

text \<open>
  Claim C19. \<open>cat\<close>, run on the kernel's own system calls with the name of a regular file as its
  argument, prints exactly the contents of that file, as \<open>file_read\<close> shows them, at the cursor of the
  terminal, and returns 0: it opens the file, reads it in pieces of 1024 bytes until there are no more,
  and writes each.
\<close>

theorem cat_prints_file:
  fixes s :: "'a kernel_scheme"
  assumes "ga buf 1024 s = Some (0, name, s)"
    and "read_dentry_by_name s name = Some d" and "file_type d = FILE_TYPE_FILE"
    and "find_slot 6 2 (cur_files s) = Some i" and "stdout_ok s"
    and "inode_ok s (inode_num d)" and "off_screen s (inode_num d)"
  shows "\<exists>t. cat_main (kernel_calls T dev ex ga) buf s = Some (0, t)
    \<and> tty_of t = fold tty_putc (map show_char (file_bytes s (inode_num d))) (tty_of s)"
proof -
  obtain u where u: "sys_open dev (Some name) s = (int i, u)" "file_ready (int i) u" "tty_of u = tty_of s"
    "file_rest (int i) u = map show_char (file_bytes s (inode_num d))"
    using file_ready_open [OF assms(2-7)] by blast
  have "0 \<notin> set (file_rest (int i) u)" using show_char_nonzero by (auto simp: u(4))
  from kernel_file.cat_loop_ok [OF u(2) this]
  obtain t where "cat_loop (kernel_calls T dev ex ga) (int i) name u = Some (0, t)"
    "tty_of t = fold tty_putc (file_rest (int i) u) (tty_of u)" by blast
  then show ?thesis
    using assms(1) u by (intro exI [of _ t]) (simp add: cat_main_def, simp add: kernel_calls_def)
qed

lemma proc_kernel_lookup: "read_dentry_by_name proc_kernel (c_str ''a'') = Some (load_dentry tiny_image 0x500040)"
  using blank_kernel_lookup by (simp add: proc_kernel_def)

lemma proc_kernel_cur: "get_current_pcb proc_kernel = get_pcb 0"
  by (simp add: proc_kernel_def get_current_pcb_def get_pcb_def const_defs)

lemma proc_kernel_files: "cur_files proc_kernel = new_files (\<lambda>_. blank_file)"
  unfolding cur_files_def proc_kernel_cur by (simp add: proc_kernel_def blank_pcb_def)

lemma proc_kernel_image:
  assumes "\<forall>a. a \<notin> text_cells \<longrightarrow> m a = mem proc_kernel a"
  shows "file_bytes (proc_kernel\<lparr>mem := m\<rparr>) 0 = [104, 105, 1] \<and> inode_ok (proc_kernel\<lparr>mem := m\<rparr>) 0"
proof -
  have m: "m a = tiny_image a" if "0xB9000 \<le> a" for a
    using assms text_cells_below [OF that]
    by (simp add: proc_kernel_def blank_kernel_def rofs.defs tiny_fs_def init_rofs_def Let_def paging.defs)
  show ?thesis
    by (simp add: m num_inodes_def inode_length_def inode_at_def inode_ok_def
        file_bytes_def file_byte_def data_block_num_def load32_def proc_kernel_def blank_kernel_def rofs.defs
        tiny_fs_def init_rofs_def Let_def paging.defs blank_paging_def
        tiny_image_def BLOCK_SIZE_def upt_conv_Cons)
qed

theorem cat_prints_file_witness:
  "\<exists>t. cat_main (kernel_calls some_tables (\<lambda>_ _. 0) (\<lambda>_ s. None) (\<lambda>b n s. Some (0, c_str ''a'', s))) (\<lambda>_. 0) proc_kernel = Some (0, t)
    \<and> tty_of t = fold tty_putc [104, 105, 32] (tty_of proc_kernel)"
proof -
  let ?d = "load_dentry tiny_image 0x500040"
  have d: "file_type ?d = FILE_TYPE_FILE" "inode_num ?d = 0"
    by (simp_all add: load_dentry_def load32_def tiny_image_def const_defs)
  have slot: "find_slot 6 2 (cur_files proc_kernel) = Some 2"
    by (simp add: proc_kernel_files find_slot_Some new_files_eq is_open_def blank_file_def)
  have img: "file_bytes proc_kernel 0 = [104, 105, 1]" "inode_ok proc_kernel 0"
    using proc_kernel_image [of "mem proc_kernel"] by simp_all
  have o: "off_screen proc_kernel 0"
    unfolding off_screen_def img using proc_kernel_image img by blast
  show ?thesis
    using cat_prints_file [where ga = "\<lambda>b n s. Some (0, c_str ''a'', s)" and s = proc_kernel and i = 2
        and name = "c_str ''a''" and d = ?d, OF _ proc_kernel_lookup d(1) slot proc_kernel_stdout] img o
    by (simp add: d(2) show_char_def)
qed

section \<open>ls\<close>

text \<open>
  Reading a directory to its end: \<open>entries\<close> are the names the descriptor still has to deliver. None of
  them is empty, since an empty name would be taken for the end.
\<close>

locale text_dir = text_out C ok out for C :: "'s calls" and ok and out +
  fixes fd :: int and entries :: "'s \<Rightarrow> u8 list list"
  assumes read_entry: "ok s \<Longrightarrow> entries s = x # xs \<Longrightarrow>
      \<exists>b t. ece391_read C fd buf 32 s = Some (int (length x), b, t) \<and> ok t \<and> out t = out s \<and>
        entries t = xs \<and> (\<forall>i<length x. b (of_nat i) = x ! i)"
    and read_end: "ok s \<Longrightarrow> entries s = [] \<Longrightarrow> ece391_read C fd buf 32 s = Some (0, buf, s)"
    and entry_ok: "ok s \<Longrightarrow> x \<in> set (entries s) \<Longrightarrow> x \<noteq> [] \<and> 0 \<notin> set x \<and> length x \<le> 32"
    and write_entries: "ok s \<Longrightarrow> ece391_write C 1 buf k s = Some (r, t) \<Longrightarrow> entries t = entries s"
begin

lemma ls_loop_ok:
  "ok s \<Longrightarrow> \<exists>t. ls_loop C fd buf s = Some (0, t) \<and> ok t \<and> entries t = [] \<and>
     out t = fold tty_putc (concat (map (\<lambda>x. x @ [10]) (entries s))) (out s)"
proof (induction "entries s" arbitrary: buf s)
  case Nil
  then show ?case using read_end [of s buf] by (intro exI [of _ s]) (simp add: ls_loop.simps [of C fd buf s])
next
  case (Cons x xs)
  have es: "entries s = x # xs" using Cons.hyps(2) by simp
  have x: "x \<noteq> []" "0 \<notin> set x" "length x \<le> 32" using entry_ok [OF Cons.prems, of x] es by simp_all
  obtain b u where r: "ece391_read C fd buf 32 s = Some (int (length x), b, u)" "ok u" "out u = out s"
    "entries u = xs" "\<forall>i<length x. b (of_nat i) = x ! i"
    using read_entry [OF Cons.prems es, of buf] by blast
  let ?b = "b(of_nat (length x) := 10)"
  have "(of_nat i :: u32) \<noteq> of_nat (length x)" if "i < length x" for i
    using that x(3) by (auto simp: word_unat_eq_iff unat_of_nat_small)
  then have b: "\<forall>i<length (x @ [10]). ?b (of_nat i) = (x @ [10]) ! i"
    using r(5) by (auto simp: nth_append less_Suc_eq)
  have "length (x @ [10]) < 2 ^ 31" "0 \<notin> set (x @ [10])" using x by simp_all
  note w = write_ok [OF r(2) this b]
  have l: "int (length (x @ [10])) = int (length x) + 1" for x :: "u8 list" by simp
  obtain v where w: "ece391_write C 1 ?b (int (length x) + 1) u = Some (int (length x) + 1, v)" "ok v"
    "out v = fold tty_putc (x @ [10]) (out u)"
    using w unfolding l by blast
  have v: "entries v = xs" using write_entries [OF r(2) w(1)] r(4) by simp
  obtain t where t: "ls_loop C fd ?b v = Some (0, t)" "ok t" "entries t = []"
    "out t = fold tty_putc (concat (map (\<lambda>x. x @ [10]) (entries v))) (out v)"
    using Cons.hyps(1) [OF v [symmetric] w(2), of ?b] by blast
  have "ls_loop C fd buf s = ls_loop C fd ?b v"
    using r(1) w(1) x(1) by (simp add: ls_loop.simps [of C fd buf s])
  moreover have "out t = fold tty_putc (concat (map (\<lambda>x. x @ [10]) (entries s))) (out s)"
    using t(4) w(3) r(3) v es by simp
  ultimately show ?case using t by simp
qed

end

text \<open>A directory that lies outside the screen's memory, with names and types the calls can deliver.\<close>

definition dir_ok :: "'a kernel_scheme \<Rightarrow> bool" where
  "dir_ok s \<longleftrightarrow> (\<forall>d\<in>set (fs_dir s). file_type d < 256 \<and> dentry_name d \<noteq> [])
     \<and> (\<forall>m. (\<forall>a. a \<notin> text_cells \<longrightarrow> m a = mem s a) \<longrightarrow> fs_dir (s\<lparr>mem := m\<rparr>) = fs_dir s)"

definition dir_ready :: "int \<Rightarrow> 'a kernel_scheme \<Rightarrow> bool" where
  "dir_ready fd s \<longleftrightarrow> stdout_ok s \<and> dir_ok s \<and> 2 \<le> fd \<and> fd < 8 \<and> is_open (cur_file s fd)
     \<and> fileops (cur_file s fd) = dir_ops"

definition dir_rest :: "int \<Rightarrow> 'a kernel_scheme \<Rightarrow> u8 list list" where
  "dir_rest fd s = drop (unat (pos (cur_file s fd))) (map dentry_name (fs_dir s))"

lemma dir_fields: "mem t = mem s \<Longrightarrow> boot_block t = boot_block s \<Longrightarrow> fs_dir t = fs_dir s"
  by (simp add: fs_dir_def num_dir_entries_def dentry_at_def)

lemma dir_ok_cong:
  assumes "mem t = mem s" and "boot_block t = boot_block s" shows "dir_ok t = dir_ok s"
proof -
  have "fs_dir (t\<lparr>mem := m\<rparr>) = fs_dir (s\<lparr>mem := m\<rparr>)" for m by (rule dir_fields) (simp_all add: assms)
  then show ?thesis using dir_fields [OF assms] by (simp add: dir_ok_def assms(1))
qed

lemma dir_ready_con:
  assumes c: "con_step s t" and r: "dir_ready fd s" and i: "stdout_ok t"
  shows "dir_ready fd t" "dir_rest fd t = dir_rest fd s"
proof -
  have s: "screen_inv s" and o: "dir_ok s" using r by (simp_all add: dir_ready_def stdout_ok_def)
  obtain m i x y where t: "t = s\<lparr>mem := m, io := i, screen_x := x, screen_y := y\<rparr>"
    using c by (auto simp: con_step_def)
  have f: "fs_dir (t\<lparr>mem := m'\<rparr>) = fs_dir (s\<lparr>mem := m'\<rparr>)" for m' by (rule dir_fields) (simp_all add: t)
  have m: "mem t a = mem s a" if "a \<notin> text_cells" for a using con_step_mem [OF c s that] .
  have 1: "fs_dir t = fs_dir s" using f [of "mem t"] o m unfolding dir_ok_def by simp
  then have "dir_ok t" using o m f unfolding dir_ok_def by simp
  then show "dir_ready fd t" "dir_rest fd t = dir_rest fd s"
    using r \<open>stdout_ok t\<close> con_step_files [OF c] 1 by (simp_all add: dir_ready_def dir_rest_def)
qed

lemma entry_in_buffer:
  assumes "d = load_dentry m a" and "i < length (dentry_name d)"
  shows "strncpy buf (view m a) 32 (of_nat i) = dentry_name d ! i"
proof -
  have l: "length (dentry_name d) \<le> 32" by (rule length_dentry_name) (simp add: assms(1) load_dentry_def)
  have n: "view m a (of_nat j) = dentry_name d ! j \<and> dentry_name d ! j \<noteq> 0" if "j < length (dentry_name d)" for j
  proof -
    have "dentry_name d ! j = file_name d ! j"
      using that unfolding dentry_name_def by (rule takeWhile_nth)
    moreover have "file_name d ! j = view m a (of_nat j)"
      using that l by (simp add: assms(1) load_dentry_def del: upt_Suc upt_rec_numeral)
    moreover have "dentry_name d ! j \<noteq> 0"
      using that set_takeWhileD [of "dentry_name d ! j" "\<lambda>c. c \<noteq> 0" "file_name d"]
      by (simp add: dentry_name_def)
    ultimately show ?thesis by simp
  qed
  have i: "unat (of_nat i :: u32) = i" using assms(2) l by (simp add: unat_of_nat_small)
  have "view m a j \<noteq> 0" if "j \<le> of_nat i" for j
    using n [of "unat j"] that i assms(2) by (simp add: word_le_nat_alt)
  then show ?thesis
    using n [OF assms(2)] i l assms(2) by (auto simp: strncpy_eq word_less_nat_alt)
qed

lemma kernel_read_dir:
  assumes r: "dir_ready fd s" and e: "dir_rest fd s = x # xs"
  shows "\<exists>b t. ece391_read (kernel_calls T dev ex ga) fd buf 32 s = Some (int (length x), b, t) \<and>
    dir_ready fd t \<and> tty_of t = tty_of s \<and> dir_rest fd t = xs \<and> (\<forall>i<length x. b (of_nat i) = x ! i)"
proof -
  let ?p = "pos (cur_file s fd)"
  let ?d = "fs_dir s ! unat ?p"
  let ?b = "strncpy buf (view (mem s) (dentry_at s ?p)) 32"
  define t where "t = upd_file (get_current_pcb s) (nat fd) (\<lambda>f. f\<lparr>pos := pos f + 1\<rparr>) s"
  have p: "unat ?p < length (fs_dir s)"
  proof (rule ccontr)
    assume "\<not> unat ?p < length (fs_dir s)"
    then have "dir_rest fd s = []" by (simp add: dir_rest_def)
    then show False using e by simp
  qed
  then have p': "?p < num_dir_entries s" by (simp add: fs_dir_def word_less_nat_alt)
  have d: "?d = load_dentry (mem s) (dentry_at s ?p)" using p by (simp add: fs_dir_def)
  have "dir_rest fd s = dentry_name ?d # drop (Suc (unat ?p)) (map dentry_name (fs_dir s))"
    using p by (simp add: dir_rest_def Cons_nth_drop_Suc [symmetric])
  then have x: "x = dentry_name ?d" "xs = drop (Suc (unat ?p)) (map dentry_name (fs_dir s))" using e by simp_all
  have ty: "file_type ?d < 256" using r p by (simp add: dir_ready_def dir_ok_def)
  have f: "2 \<le> fd" "fd < 8" "is_open (cur_file s fd)" "fileops (cur_file s fd) = dir_ops" "stdout_ok s" "dir_ok s"
    using r by (simp_all add: dir_ready_def)
  have rd: "ece391_read (kernel_calls T dev ex ga) fd buf 32 s = Some (int (length x), ?b, t)"
    using dir_read_eq [OF p' refl ty, of buf 32] f x
    by (simp add: kernel_calls_def sys_read_def MAX_FILES_def dir_ops_def t_def)
  have g: "get_current_pcb t = get_current_pcb s" by (simp add: t_def get_current_pcb_def)
  have ft: "cur_file t fd = (cur_file s fd)\<lparr>pos := ?p + 1\<rparr>" "cur_file t 1 = cur_file s 1"
    using f(1) unfolding cur_file_def g by (simp_all add: t_def cur_file_def)
  have dir: "fs_dir t = fs_dir s" by (rule dir_fields) (simp_all add: t_def)
  have "dir_ok t" using f(6) dir_ok_cong [of t s] by (simp add: t_def)
  moreover have "stdout_ok t" using f(5) ft(2) by (simp add: stdout_ok_def screen_inv_def) (simp add: t_def)
  ultimately have "dir_ready fd t" using f by (simp add: dir_ready_def ft(1) is_open_def)
  moreover have N: "unat (num_dir_entries s) < 2 ^ LENGTH(32)" by (rule unsigned_less)
  have "unat (?p + 1) = Suc (unat ?p)"
    using p' N by (simp add: word_less_nat_alt unat_word_ariths(1))
  then have "dir_rest fd t = xs" using x dir by (simp add: dir_rest_def ft(1))
  moreover have "tty_of t = tty_of s" by (simp add: t_def tty_of_def)
  ultimately show ?thesis using rd entry_in_buffer [OF d] x(1) by blast
qed

interpretation kernel_dir: text_dir "kernel_calls T dev ex ga" "dir_ready fd" tty_of fd "dir_rest fd"
  for T dev ex ga fd
proof unfold_locales
  fix s :: "'a kernel_scheme" and xs and buf :: bytes
  assume r: "dir_ready fd s" and x: "length xs < 2 ^ 31" "0 \<notin> set xs" "\<forall>i<length xs. buf (of_nat i) = xs ! i"
  then have s: "stdout_ok s" by (simp add: dir_ready_def)
  have "dir_ready fd (fold putc xs s)" by (rule dir_ready_con [OF con.ok_fold r stdout_fold [OF s]])
  then show "\<exists>t. ece391_write (kernel_calls T dev ex ga) 1 buf (int (length xs)) s = Some (int (length xs), t)
      \<and> dir_ready fd t \<and> tty_of t = fold tty_putc xs (tty_of s)"
    using kernel_write [OF s x] tty_of_fold [of s xs] s by (intro exI [of _ "fold putc xs s"]) (simp add: stdout_ok_def)
next
  fix s t :: "'a kernel_scheme" and buf k r
  assume r: "dir_ready fd s" and w: "ece391_write (kernel_calls T dev ex ga) 1 buf k s = Some (r, t)"
  have s: "stdout_ok s" using r by (simp add: dir_ready_def)
  then have t: "t = fold putc (written buf k) s"
    using w by (simp add: kernel_calls_def sys_write_def stdout_ok_def MAX_FILES_def stdout_ops_def terminal_write_eq)
  show "dir_rest fd t = dir_rest fd s"
    unfolding t by (rule dir_ready_con [OF con.ok_fold r stdout_fold [OF s]])
next
  fix s :: "'a kernel_scheme" and x
  assume "dir_ready fd s" and "x \<in> set (dir_rest fd s)"
  then obtain d where d: "d \<in> set (fs_dir s)" "x = dentry_name d" "dentry_name d \<noteq> []"
    by (auto simp: dir_rest_def dir_ready_def dir_ok_def dest!: in_set_dropD)
  then have "length (file_name d) = 32" by (auto simp: fs_dir_def load_dentry_def simp del: upt_rec_numeral)
  then show "x \<noteq> [] \<and> 0 \<notin> set x \<and> length x \<le> 32"
    using d length_dentry_name by (auto simp: dentry_name_def dest: set_takeWhileD)
next
  fix s :: "'a kernel_scheme" and buf
  assume r: "dir_ready fd s" and e: "dir_rest fd s = []"
  have "num_dir_entries s \<le> pos (cur_file s fd)"
    using e by (simp add: dir_rest_def fs_dir_def word_le_nat_alt)
  then show "ece391_read (kernel_calls T dev ex ga) fd buf 32 s = Some (0, buf, s)"
    using r dir_read_end [of s fd buf 32]
    by (simp add: kernel_calls_def sys_read_def MAX_FILES_def dir_ops_def dir_ready_def)
qed (use kernel_read_dir in blast)

lemma dir_ready_open:
  assumes d: "read_dentry_by_name s name = Some d" "file_type d = FILE_TYPE_DIR"
    and slot: "find_slot 6 2 (cur_files s) = Some i" and s: "stdout_ok s" "dir_ok s"
  shows "\<exists>t. sys_open dev (Some name) s = (int i, t) \<and> dir_ready (int i) t \<and> tty_of t = tty_of s
    \<and> dir_rest (int i) t = map dentry_name (fs_dir s)"
proof -
  have ops: "type_ops (file_type d) = Some dir_ops" using d(2) by (simp add: type_ops_def const_defs)
  obtain es b oc m where o: "sys_open dev (Some name) s =
    (int i, (upd_file (get_current_pcb s) i
       (\<lambda>f. \<lparr>inode = inode_num d, flags = flags f OR FILE_OPEN, pos = 0, fileops = dir_ops\<rparr>) s)
       \<lparr>io := es, intr := b, int_occur := oc, slave_mask := m\<rparr>)" (is "_ = (_, ?t)")
    using sys_open_ok [OF d(1) slot ops, of dev] by blast
  have i: "2 \<le> i" "i < 8" using slot by (simp_all add: find_slot_Some)
  have g: "get_current_pcb ?t = get_current_pcb s" by (simp add: get_current_pcb_def)
  have f: "cur_file ?t (int i) = \<lparr>inode = inode_num d, flags = flags (cur_file s (int i)) OR FILE_OPEN, pos = 0,
      fileops = dir_ops\<rparr>" "cur_file ?t 1 = cur_file s 1"
    unfolding cur_file_def g using i by (simp_all add: cur_file_def)
  have dir: "fs_dir ?t = fs_dir s" by (rule dir_fields) simp_all
  have "dir_ok ?t" using s(2) dir_ok_cong [of ?t s] by simp
  moreover have "stdout_ok ?t" using s(1) unfolding stdout_ok_def f(2) by (simp add: screen_inv_def)
  ultimately have "dir_ready (int i) ?t"
    using i by (simp add: dir_ready_def f(1) is_open_def open_flag FILE_OPEN_nonzero)
  moreover have "dir_rest (int i) ?t = map dentry_name (fs_dir s)" using dir by (simp add: dir_rest_def f(1))
  moreover have "tty_of ?t = tty_of s" by (simp add: tty_of_def)
  ultimately show ?thesis using o by blast
qed

text \<open>
  Claim C20. \<open>ls\<close>, run on the kernel's own system calls, prints the names of all directory entries in the
  order of the directory, each on a line of its own, and returns 0: a name that fills its 32 bytes is
  printed without a NUL, a shorter one up to its NUL.
\<close>

theorem ls_lists_directory:
  fixes s :: "'a kernel_scheme"
  assumes "read_dentry_by_name s (c_str ''.'') = Some d" and "file_type d = FILE_TYPE_DIR"
    and "find_slot 6 2 (cur_files s) = Some i" and "stdout_ok s" and "dir_ok s"
  shows "\<exists>t. ls_main (kernel_calls T dev ex ga) buf s = Some (0, t)
    \<and> tty_of t = fold tty_putc (concat (map (\<lambda>d. dentry_name d @ [10]) (fs_dir s))) (tty_of s)"
proof -
  obtain u where u: "sys_open dev (Some (c_str ''.'')) s = (int i, u)" "dir_ready (int i) u" "tty_of u = tty_of s"
    "dir_rest (int i) u = map dentry_name (fs_dir s)"
    using dir_ready_open [OF assms] by blast
  from kernel_dir.ls_loop_ok [OF u(2)]
  obtain t where "ls_loop (kernel_calls T dev ex ga) (int i) buf u = Some (0, t)"
    "tty_of t = fold tty_putc (concat (map (\<lambda>x. x @ [10]) (dir_rest (int i) u))) (tty_of u)" by blast
  then show ?thesis
    using u by (intro exI [of _ t]) (simp add: ls_main_def comp_def, simp add: kernel_calls_def)
qed

text \<open>An image with the directory itself and a file \<open>a\<close>.\<close>

definition ls_image :: bytes where
  "ls_image a =
     (if a = 0x500000 then 2 else if a = 0x500040 then 46 else if a = 0x500060 then 1
      else if a = 0x500080 then 97 else if a = 0x5000A0 then 2 else 0)"

definition ls_kernel :: kernel where
  "ls_kernel = proc_kernel\<lparr>mem := ls_image\<rparr>"

lemma ls_kernel_dir:
  assumes "\<forall>a. a \<notin> text_cells \<longrightarrow> m a = mem ls_kernel a"
  shows "fs_dir (ls_kernel\<lparr>mem := m\<rparr>) = [load_dentry ls_image 0x500040, load_dentry ls_image 0x500080]"
proof -
  have m: "m a = ls_image a" if "0xB9000 \<le> a" for a
    using assms text_cells_below [OF that] by (simp add: ls_kernel_def)
  show ?thesis
    by (simp add: m ls_image_def fs_dir_def num_dir_entries_def load32_def dentry_at_def load_dentry_def upt_conv_Cons
        ls_kernel_def proc_kernel_def blank_kernel_def rofs.defs tiny_fs_def init_rofs_def Let_def paging.defs blank_paging_def)
qed

lemma ls_kernel_lookup:
  "read_dentry_by_name ls_kernel (c_str ''.'') = Some (load_dentry ls_image 0x500040)
   \<and> file_type (load_dentry ls_image 0x500040) = FILE_TYPE_DIR"
proof -
  have "names (c_str ''.'') (load_dentry ls_image 0x500040)"
    by (simp add: names_load strncmp_def FILE_NAME_LENGTH_def strncmp_loop.simps [of _ _ _ 0]
        strncmp_loop.simps [of _ _ _ 1] c_str_def ls_image_def)
  then show ?thesis
    using ls_kernel_dir [of "mem ls_kernel"]
    by (simp add: read_dentry_by_name_find) (simp add: load_dentry_def load32_def ls_image_def const_defs)
qed

lemma ls_kernel_files: "cur_files ls_kernel = cur_files proc_kernel"
proof -
  have "get_current_pcb ls_kernel = get_current_pcb proc_kernel" by (simp add: ls_kernel_def get_current_pcb_def)
  then show ?thesis unfolding cur_files_def by (simp add: ls_kernel_def)
qed

lemma ls_kernel_screen: "screen_inv ls_kernel"
  by (simp add: screen_inv_def ls_kernel_def proc_kernel_def blank_kernel_def rofs.defs tiny_fs_def init_rofs_def
      Let_def paging.defs blank_paging_def NUM_COLS_def NUM_ROWS_def)

theorem ls_lists_directory_witness:
  "\<exists>t. ls_main (kernel_calls some_tables (\<lambda>_ _. 0) (\<lambda>_ s. None) (\<lambda>b n s. None)) (\<lambda>_. 0) ls_kernel = Some (0, t)
    \<and> tty_of t = fold tty_putc [46, 10, 97, 10] (tty_of ls_kernel)"
proof -
  let ?d = "load_dentry ls_image 0x500040" and ?e = "load_dentry ls_image 0x500080"
  have dir: "fs_dir ls_kernel = [?d, ?e]" using ls_kernel_dir [of "mem ls_kernel"] by simp
  have d: "file_type ?d = FILE_TYPE_DIR" "file_type ?e = 2" "dentry_name ?d = [46]" "dentry_name ?e = [97]"
    by (simp_all add: load_dentry_def load32_def ls_image_def const_defs dentry_name_def upt_conv_Cons)
  have slot: "find_slot 6 2 (cur_files ls_kernel) = Some 2"
    by (simp add: ls_kernel_files proc_kernel_files find_slot_Some new_files_eq is_open_def blank_file_def)
  have out: "stdout_ok ls_kernel"
    using proc_kernel_ok ls_kernel_screen by (simp add: stdout_ok_def files_ok_def cur_file_files ls_kernel_files)
  have "dir_ok ls_kernel"
    unfolding dir_ok_def dir using ls_kernel_dir d by (simp add: FILE_TYPE_DIR_def)
  from ls_lists_directory [OF _ d(1) slot out this, of some_tables "\<lambda>_ _. 0" "\<lambda>_ s. None" "\<lambda>b n s. None" "\<lambda>_. 0"] ls_kernel_lookup
  show ?thesis by (simp add: dir d)
qed

end
