(* ===== verification/SysErr.thy ===== *)
theory SysErr
  imports Programs
begin

text \<open>
  The program \<^verbatim>\<open>src/syscalls/ece391syserr.c\<close>, which calls the system with bad arguments and says of each
  of eight tests whether the kernel behaved, and the system call entry of
  \<^verbatim>\<open>student-distrib/interrupt_handlers.S\<close> that it tries with bad numbers. The kernel passes all of them.
\<close>

section \<open>The system call entry\<close>

text \<open>The number is compared signed; the table has the calls 1 to 10.\<close>

definition handle_syscall :: "(nat \<Rightarrow> 's \<Rightarrow> (int \<times> 's) option) \<Rightarrow> u32 \<Rightarrow> 's \<Rightarrow> (int \<times> 's) option" where
  "handle_syscall syscalls eax s =
     (if sint eax < 1 then Some (- 1, s) else if sint eax > 10 then Some (- 1, s) else syscalls (unat eax) s)"

section \<open>The tests\<close>

definition NEG_FD :: int where "NEG_FD = - 1073741823"
definition BIG_FD :: int where "BIG_FD = 1073741823"
definition BIG_NUM :: int where "BIG_NUM = 1073741823"
definition NEG_NUM :: int where "NEG_NUM = - 1073741823"

declare NEG_FD_def [const_defs] BIG_FD_def [const_defs] BIG_NUM_def [const_defs] NEG_NUM_def [const_defs]

text \<open>The statement that all tests consist of: a result other than -1 is reported, and the test has failed.\<close>

definition expect_error :: "'s calls \<Rightarrow> string \<Rightarrow> int \<Rightarrow> int \<Rightarrow> 's \<Rightarrow> (int \<times> 's) option" where
  "expect_error C msg r failed s =
     (if - 1 \<noteq> r then do { s \<leftarrow> ece391_fdputs C 1 (c_str msg) s; Some (2, s) } else Some (failed, s))"

definition verdict :: "'s calls \<Rightarrow> string \<Rightarrow> string \<Rightarrow> int \<Rightarrow> 's \<Rightarrow> (int \<times> 's) option" where
  "verdict C bad good failed s = do {
     s \<leftarrow> ece391_fdputs C 1 (c_str (if failed \<noteq> 0 then bad else good)) s;
     Some (failed, s)
   }"

definition err_neg_fd :: "'s calls \<Rightarrow> bytes \<Rightarrow> 's \<Rightarrow> (int \<times> 's) option" where
  "err_neg_fd C buf s = do {
     (r, buf, s) \<leftarrow> ece391_read C NEG_FD buf 31 s;
     (failed, s) \<leftarrow> expect_error C ''read fail\<newline>'' r 0 s;
     (r, s) \<leftarrow> ece391_write C NEG_FD buf 31 s;
     (failed, s) \<leftarrow> expect_error C ''write fail\<newline>'' r failed s;
     (r, s) \<leftarrow> ece391_close C NEG_FD s;
     (failed, s) \<leftarrow> expect_error C ''close fail\<newline>'' r failed s;
     verdict C ''err_neg_fd: FAIL\<newline>'' ''err_neg_fd: PASS\<newline>'' failed s
   }"

definition err_big_fd :: "'s calls \<Rightarrow> bytes \<Rightarrow> 's \<Rightarrow> (int \<times> 's) option" where
  "err_big_fd C buf s = do {
     (r, buf, s) \<leftarrow> ece391_read C BIG_FD buf 31 s;
     (failed, s) \<leftarrow> expect_error C ''read fail\<newline>'' r 0 s;
     (r, s) \<leftarrow> ece391_write C BIG_FD buf 31 s;
     (failed, s) \<leftarrow> expect_error C ''write fail\<newline>'' r failed s;
     (r, s) \<leftarrow> ece391_close C BIG_FD s;
     (failed, s) \<leftarrow> expect_error C ''close fail\<newline>'' r failed s;
     verdict C ''err_big_fd: FAIL\<newline>'' ''err_big_fd: PASS\<newline>'' failed s
   }"

function open_lots :: "'s calls \<Rightarrow> int \<Rightarrow> int \<Rightarrow> 's \<Rightarrow> (int \<times> 's) option" where
  "open_lots C i cnt s =
     (if i < 7 then do {
        (r, s) \<leftarrow> ece391_open C (c_str ''.'') s;
        open_lots C (i + 1) (if - 1 = r then cnt + 1 else cnt) s
      } else Some (cnt, s))"
  by pat_completeness auto
termination
  by (relation "measure (\<lambda>(C, i, cnt, s). nat (7 - i))") auto

function close_lots :: "'s calls \<Rightarrow> int \<Rightarrow> 's \<Rightarrow> 's option" where
  "close_lots C i s =
     (if i < 8 then do {
        (r, s) \<leftarrow> ece391_close C i s;
        close_lots C (i + 1) s
      } else Some s)"
  by pat_completeness auto
termination
  by (relation "measure (\<lambda>(C, i, s). nat (8 - i))") auto

definition err_open_lots :: "'s calls \<Rightarrow> 's \<Rightarrow> (int \<times> 's) option" where
  "err_open_lots C s = do {
     (cnt, s) \<leftarrow> open_lots C 0 0 s;
     s \<leftarrow> close_lots C 2 s;
     if cnt = 1 then do {
       s \<leftarrow> ece391_fdputs C 1 (c_str ''err_open_lots: PASS\<newline>'') s;
       Some (0, s)
     } else do {
       s \<leftarrow> ece391_fdputs C 1 (c_str ''err_open_lots: FAIL\<newline>'') s;
       Some (2, s)
     }
   }"

definition err_open :: "'s calls \<Rightarrow> 's \<Rightarrow> (int \<times> 's) option" where
  "err_open C s = do {
     (r, s) \<leftarrow> ece391_open C (c_str ''helloo'') s;
     (failed, s) \<leftarrow> expect_error C (CHR 0x27 # ''helloo'' @ CHR 0x27 # '' fail\<newline>'') r 0 s;
     (r, s) \<leftarrow> ece391_open C (c_str ''shel'') s;
     (failed, s) \<leftarrow> expect_error C (CHR 0x27 # ''shel'' @ CHR 0x27 # '' fail\<newline>'') r failed s;
     (r, s) \<leftarrow> ece391_open C (c_str '''') s;
     (failed, s) \<leftarrow> expect_error C ''empty string fail\<newline>'' r failed s;
     verdict C ''err_open: FAIL\<newline>'' ''err_open: PASS\<newline>'' failed s
   }"

function close_each :: "'s calls \<Rightarrow> int \<Rightarrow> int \<Rightarrow> 's \<Rightarrow> (int \<times> 's) option" where
  "close_each C i failed s =
     (if i < 8 then do {
        (r, s) \<leftarrow> ece391_close C i s;
        (failed, s) \<leftarrow> expect_error C ''close unopened or invalid fd fail\<newline>'' r failed s;
        close_each C (i + 1) failed s
      } else Some (failed, s))"
  by pat_completeness auto
termination
  by (relation "measure (\<lambda>(C, i, failed, s). nat (8 - i))") auto

function read_each :: "'s calls \<Rightarrow> int \<Rightarrow> int \<Rightarrow> bytes \<Rightarrow> 's \<Rightarrow> (int \<times> bytes \<times> 's) option" where
  "read_each C i failed buf s =
     (if i < 8 then do {
        (r, buf, s) \<leftarrow> ece391_read C i buf 31 s;
        (failed, s) \<leftarrow> expect_error C ''read from unopened fd fail\<newline>'' r failed s;
        read_each C (i + 1) failed buf s
      } else Some (failed, buf, s))"
  by pat_completeness auto
termination
  by (relation "measure (\<lambda>(C, i, failed, buf, s). nat (8 - i))") auto

function write_each :: "'s calls \<Rightarrow> int \<Rightarrow> int \<Rightarrow> bytes \<Rightarrow> 's \<Rightarrow> (int \<times> 's) option" where
  "write_each C i failed buf s =
     (if i < 8 then do {
        (r, s) \<leftarrow> ece391_write C i buf 31 s;
        (failed, s) \<leftarrow> expect_error C ''write to unopened fd fail\<newline>'' r failed s;
        write_each C (i + 1) failed buf s
      } else Some (failed, s))"
  by pat_completeness auto
termination
  by (relation "measure (\<lambda>(C, i, failed, buf, s). nat (8 - i))") auto

declare open_lots.simps [simp del, loop_unfold] close_lots.simps [simp del, loop_unfold]
  close_each.simps [simp del, loop_unfold] read_each.simps [simp del, loop_unfold]
  write_each.simps [simp del, loop_unfold]

definition err_unopened :: "'s calls \<Rightarrow> bytes \<Rightarrow> 's \<Rightarrow> (int \<times> 's) option" where
  "err_unopened C buf s = do {
     (failed, s) \<leftarrow> close_each C 0 0 s;
     (failed, buf, s) \<leftarrow> read_each C 2 failed buf s;
     (failed, s) \<leftarrow> write_each C 2 failed buf s;
     verdict C ''err_unopened: FAIL\<newline>'' ''err_unopened: PASS\<newline>'' failed s
   }"

definition err_vidmap :: "'s calls \<Rightarrow> 's \<Rightarrow> (int \<times> 's) option" where
  "err_vidmap C s = do {
     (r, s) \<leftarrow> ece391_vidmap C 0x0 s;
     (failed, s) \<leftarrow> expect_error C ''Null pointer fail\<newline>'' r 0 s;
     (r, s) \<leftarrow> ece391_vidmap C 0x400000 s;
     (failed, s) \<leftarrow> expect_error C ''Kernel pointer fail fail\<newline>'' r failed s;
     verdict C ''err_vidmap: FAIL\<newline>'' ''err_vidmap: PASS\<newline>'' failed s
   }"

definition err_stdin_out :: "'s calls \<Rightarrow> bytes \<Rightarrow> 's \<Rightarrow> (int \<times> 's) option" where
  "err_stdin_out C buf s = do {
     (r, s) \<leftarrow> ece391_write C 0 buf 31 s;
     (failed, s) \<leftarrow> expect_error C ''write to stdin fail\<newline>'' r 0 s;
     (r, buf, s) \<leftarrow> ece391_read C 1 buf 31 s;
     (failed, s) \<leftarrow> expect_error C ''read from stdout fail\<newline>'' r failed s;
     verdict C ''err_stdin_out: FAIL\<newline>'' ''err_stdin_out: PASS\<newline>'' failed s
   }"

text \<open>\<open>call_sys\<close> is the interrupt itself, with whatever is in the other registers.\<close>

definition err_syscall_num ::
  "'s calls \<Rightarrow> (int \<Rightarrow> 's \<Rightarrow> (int \<times> 's) option) \<Rightarrow> 's \<Rightarrow> (int \<times> 's) option" where
  "err_syscall_num C call_sys s = do {
     (r, s) \<leftarrow> call_sys BIG_NUM s;
     (failed, s) \<leftarrow> expect_error C ''syscall 0 fail\<newline>'' r 0 s;
     (r, s) \<leftarrow> call_sys NEG_NUM s;
     (failed, s) \<leftarrow> expect_error C ''big num syscall fail\<newline>'' r failed s;
     (r, s) \<leftarrow> call_sys 0 s;
     (failed, s) \<leftarrow> expect_error C ''neg num syscall fail\<newline>'' r failed s;
     verdict C ''err_syscall_num: FAIL\<newline>'' ''err_syscall_num: PASS\<newline>'' failed s
   }"

text \<open>\<open>stk k\<close> is what the stack holds where test \<open>k\<close> has its buffer.\<close>

definition syserr_main ::
  "'s calls \<Rightarrow> (int \<Rightarrow> 's \<Rightarrow> (int \<times> 's) option) \<Rightarrow> (nat \<Rightarrow> bytes) \<Rightarrow> bytes \<Rightarrow> 's \<Rightarrow> (int \<times> 's) option" where
  "syserr_main C call_sys stk buf s = do {
     s \<leftarrow> ece391_fdputs C 1 (c_str ''Choose from tests 1-8. 0 to run all: '') s;
     (cnt, buf, s) \<leftarrow> ece391_read C 0 buf 127 s;
     if - 1 = cnt then do {
       s \<leftarrow> ece391_fdputs C 1 (c_str (''Can't read test #\<newline>'')) s;
       Some (2, s)
     } else
       let select = uint (buf 0) - 48
       in if select = 0 then do {
            (r1, s) \<leftarrow> err_neg_fd C (stk 1) s;
            (r2, s) \<leftarrow> err_big_fd C (stk 2) s;
            (r3, s) \<leftarrow> err_open_lots C s;
            (r4, s) \<leftarrow> err_open C s;
            (r5, s) \<leftarrow> err_unopened C (stk 5) s;
            (r6, s) \<leftarrow> err_vidmap C s;
            (r7, s) \<leftarrow> err_stdin_out C (stk 7) s;
            (r8, s) \<leftarrow> err_syscall_num C call_sys s;
            let failed = 0 + r1 + r2 + r3 + r4 + r5 + r6 + r7 + r8;
            verdict C ''\<newline>Overall Tests: FAIL\<newline>'' ''\<newline>Overall Tests: PASS\<newline>'' failed s
          }
          else if select = 1 then err_neg_fd C (stk 1) s
          else if select = 2 then err_big_fd C (stk 2) s
          else if select = 3 then err_open_lots C s
          else if select = 4 then err_open C s
          else if select = 5 then err_unopened C (stk 5) s
          else if select = 6 then err_vidmap C s
          else if select = 7 then err_stdin_out C (stk 7) s
          else if select = 8 then err_syscall_num C call_sys s
          else do {
            s \<leftarrow> ece391_fdputs C 1 (c_str ''Invalid test number. Choose from tests 1-8 or 0'') s;
            Some (0, s)
          }
   }"

section \<open>A system that refuses bad calls passes\<close>

text \<open>
  What the tests rely on. \<open>ready P\<close> is a process that has the descriptors \<open>P\<close> open besides 0 and 1:
  wrong descriptors, names, pointers and numbers are refused with -1 and change nothing, the directory
  can be opened until six descriptors are in use and can be closed again.
\<close>

locale strict_calls = text_out C "ready {}" out for C and ready :: "nat set \<Rightarrow> 's \<Rightarrow> bool" and out +
  fixes sys :: "int \<Rightarrow> 's \<Rightarrow> (int \<times> 's) option"
  assumes read_bad: "ready {} s \<Longrightarrow> fd < 0 \<or> 0 < fd \<Longrightarrow> ece391_read C fd buf n s = Some (- 1, buf, s)"
    and write_bad: "ready {} s \<Longrightarrow> fd \<noteq> 1 \<Longrightarrow> ece391_write C fd buf n s = Some (- 1, s)"
    and close_bad: "ready {} s \<Longrightarrow> ece391_close C fd s = Some (- 1, s)"
    and open_bad: "ready {} s \<Longrightarrow> name \<in> {''helloo'', ''shel'', ''''} \<Longrightarrow> ece391_open C (c_str name) s = Some (- 1, s)"
    and vidmap_bad: "ready {} s \<Longrightarrow> p = 0 \<or> p = 0x400000 \<Longrightarrow> ece391_vidmap C p s = Some (- 1, s)"
    and sys_bad: "ready {} s \<Longrightarrow> n < 1 \<or> 10 < n \<Longrightarrow> - (2 ^ 31) \<le> n \<Longrightarrow> n < 2 ^ 31 \<Longrightarrow> sys n s = Some (- 1, s)"
    and open_next: "ready {2..<i} s \<Longrightarrow> 2 \<le> i \<Longrightarrow> i < 8 \<Longrightarrow>
      \<exists>t. ece391_open C (c_str ''.'') s = Some (int i, t) \<and> ready {2..<Suc i} t \<and> out t = out s"
    and open_full: "ready {2..<8} s \<Longrightarrow> ece391_open C (c_str ''.'') s = Some (- 1, s)"
    and close_next: "ready {i..<8} s \<Longrightarrow> 2 \<le> i \<Longrightarrow> i < 8 \<Longrightarrow>
      \<exists>t. ece391_close C (int i) s = Some (0, t) \<and> ready {Suc i..<8} t \<and> out t = out s"
begin

lemma verdict_pass:
  assumes "ready {} s" and "length good < 2 ^ 31" and "list_all (\<lambda>c. (of_char c :: u8) \<noteq> 0) good"
  shows "\<exists>t. verdict C bad good 0 s = Some (0, t) \<and> ready {} t \<and> out t = fold tty_putc (map of_char good) (out s)"
  using says [OF assms] by (auto simp: verdict_def)

lemma open_lots_from:
  "ready {2..<i + 2} s \<Longrightarrow> i \<le> 6 \<Longrightarrow>
   \<exists>t. open_lots C (int i) 0 s = Some (1, t) \<and> ready {2..<8} t \<and> out t = out s"
proof (induction "6 - i" arbitrary: i s)
  case 0
  then have i: "i = 6" by simp
  then have "ece391_open C (c_str ''.'') s = Some (- 1, s)" using open_full [of s] 0 by simp
  then have "open_lots C 6 0 s = Some (1, s)" by (simp add: open_lots.simps [of C 6] open_lots.simps [of C 7])
  then show ?case using i 0 by simp
next
  case (Suc d)
  have "\<exists>t. ece391_open C (c_str ''.'') s = Some (int (i + 2), t) \<and> ready {2..<Suc (i + 2)} t \<and> out t = out s"
    by (rule open_next) (use Suc in simp_all)
  then obtain u where u: "ece391_open C (c_str ''.'') s = Some (int (i + 2), u)" "ready {2..<Suc i + 2} u" "out u = out s"
    by auto
  have "open_lots C (int i) 0 s = open_lots C (int (Suc i)) 0 u"
    using u(1) Suc.hyps(2) by (auto simp add: open_lots.simps [of C "int i"] add.commute)
  then show ?case using Suc.hyps(1) [of "Suc i" u] Suc.hyps(2) u by simp
qed

lemma close_lots_from:
  "ready {i..<8} s \<Longrightarrow> 2 \<le> i \<Longrightarrow> i \<le> 8 \<Longrightarrow>
   \<exists>t. close_lots C (int i) s = Some t \<and> ready {} t \<and> out t = out s"
proof (induction "8 - i" arbitrary: i s)
  case 0
  then have i: "i = 8" by simp
  then show ?case using 0 by (simp add: close_lots.simps [of C 8])
next
  case (Suc d)
  have "\<exists>t. ece391_close C (int i) s = Some (0, t) \<and> ready {Suc i..<8} t \<and> out t = out s"
    by (rule close_next) (use Suc in simp_all)
  then obtain u where u: "ece391_close C (int i) s = Some (0, u)" "ready {Suc i..<8} u" "out u = out s" by blast
  have "close_lots C (int i) s = close_lots C (int (Suc i)) u"
    using u(1) Suc.hyps(2) by (auto simp add: close_lots.simps [of C "int i"] add.commute)
  then show ?case using Suc.hyps(1) [of "Suc i" u] Suc.hyps(2) Suc.prems u by simp
qed

lemma each_refused:
  assumes "ready {} s"
  shows "close_each C i failed s = Some (failed, s)"
    and "0 < i \<Longrightarrow> read_each C i failed buf s = Some (failed, buf, s)"
    and "1 < i \<Longrightarrow> write_each C i failed buf s = Some (failed, s)"
proof -
  show "close_each C i failed s = Some (failed, s)"
  proof (induction "nat (8 - i)" arbitrary: i)
    case 0
    then show ?case by (simp add: close_each.simps [of C i])
  next
    case (Suc d)
    then show ?case
      using Suc.hyps(1) [of "i + 1"] assms by (simp add: close_each.simps [of C i] close_bad expect_error_def)
  qed
  show "0 < i \<Longrightarrow> read_each C i failed buf s = Some (failed, buf, s)"
  proof (induction "nat (8 - i)" arbitrary: i)
    case 0
    then show ?case by (simp add: read_each.simps [of C i])
  next
    case (Suc d)
    then show ?case
      using Suc.hyps(1) [of "i + 1"] assms by (simp add: read_each.simps [of C i] read_bad expect_error_def)
  qed
  show "1 < i \<Longrightarrow> write_each C i failed buf s = Some (failed, s)"
  proof (induction "nat (8 - i)" arbitrary: i)
    case 0
    then show ?case by (simp add: write_each.simps [of C i])
  next
    case (Suc d)
    then show ?case
      using Suc.hyps(1) [of "i + 1"] assms by (simp add: write_each.simps [of C i] write_bad expect_error_def)
  qed
qed

lemma tests_pass:
  assumes "ready {} s"
  shows "\<exists>t. err_neg_fd C buf s = Some (0, t) \<and> ready {} t \<and> out t = fold tty_putc (map of_char ''err_neg_fd: PASS\<newline>'') (out s)"
    and "\<exists>t. err_big_fd C buf s = Some (0, t) \<and> ready {} t \<and> out t = fold tty_putc (map of_char ''err_big_fd: PASS\<newline>'') (out s)"
    and "\<exists>t. err_open C s = Some (0, t) \<and> ready {} t \<and> out t = fold tty_putc (map of_char ''err_open: PASS\<newline>'') (out s)"
    and "\<exists>t. err_unopened C buf s = Some (0, t) \<and> ready {} t \<and> out t = fold tty_putc (map of_char ''err_unopened: PASS\<newline>'') (out s)"
    and "\<exists>t. err_vidmap C s = Some (0, t) \<and> ready {} t \<and> out t = fold tty_putc (map of_char ''err_vidmap: PASS\<newline>'') (out s)"
    and "\<exists>t. err_stdin_out C buf s = Some (0, t) \<and> ready {} t \<and> out t = fold tty_putc (map of_char ''err_stdin_out: PASS\<newline>'') (out s)"
    and "\<exists>t. err_syscall_num C sys s = Some (0, t) \<and> ready {} t \<and> out t = fold tty_putc (map of_char ''err_syscall_num: PASS\<newline>'') (out s)"
proof -
  note refused = read_bad [OF assms] write_bad [OF assms] close_bad [OF assms] open_bad [OF assms] vidmap_bad [OF assms]
    sys_bad [OF assms] each_refused [OF assms] expect_error_def const_defs
  note pass = verdict_pass [OF assms]
  show "\<exists>t. err_neg_fd C buf s = Some (0, t) \<and> ready {} t \<and> out t = fold tty_putc (map of_char ''err_neg_fd: PASS\<newline>'') (out s)"
    using pass [of "''err_neg_fd: PASS\<newline>''"] by (simp add: err_neg_fd_def refused del: list.map fold_simps)
  show "\<exists>t. err_big_fd C buf s = Some (0, t) \<and> ready {} t \<and> out t = fold tty_putc (map of_char ''err_big_fd: PASS\<newline>'') (out s)"
    using pass [of "''err_big_fd: PASS\<newline>''"] by (simp add: err_big_fd_def refused del: list.map fold_simps)
  show "\<exists>t. err_open C s = Some (0, t) \<and> ready {} t \<and> out t = fold tty_putc (map of_char ''err_open: PASS\<newline>'') (out s)"
    using pass [of "''err_open: PASS\<newline>''"] by (simp add: err_open_def refused del: list.map fold_simps)
  show "\<exists>t. err_unopened C buf s = Some (0, t) \<and> ready {} t \<and> out t = fold tty_putc (map of_char ''err_unopened: PASS\<newline>'') (out s)"
    using pass [of "''err_unopened: PASS\<newline>''"] by (simp add: err_unopened_def refused del: list.map fold_simps)
  show "\<exists>t. err_vidmap C s = Some (0, t) \<and> ready {} t \<and> out t = fold tty_putc (map of_char ''err_vidmap: PASS\<newline>'') (out s)"
    using pass [of "''err_vidmap: PASS\<newline>''"] by (simp add: err_vidmap_def refused del: list.map fold_simps)
  show "\<exists>t. err_stdin_out C buf s = Some (0, t) \<and> ready {} t \<and> out t = fold tty_putc (map of_char ''err_stdin_out: PASS\<newline>'') (out s)"
    using pass [of "''err_stdin_out: PASS\<newline>''"] by (simp add: err_stdin_out_def refused del: list.map fold_simps)
  show "\<exists>t. err_syscall_num C sys s = Some (0, t) \<and> ready {} t \<and> out t = fold tty_putc (map of_char ''err_syscall_num: PASS\<newline>'') (out s)"
    using pass [of "''err_syscall_num: PASS\<newline>''"] by (simp add: err_syscall_num_def refused del: list.map fold_simps)
qed

lemma open_lots_passes:
  assumes "ready {} s"
  shows "\<exists>t. err_open_lots C s = Some (0, t) \<and> ready {} t \<and>
    out t = fold tty_putc (map of_char ''err_open_lots: PASS\<newline>'') (out s)"
proof -
  obtain u where u: "open_lots C 0 0 s = Some (1, u)" "ready {2..<8} u" "out u = out s"
    using open_lots_from [of 0 s] assms by auto
  then obtain v where v: "close_lots C 2 u = Some v" "ready {} v" "out v = out u"
    using close_lots_from [of 2 u] by auto
  show ?thesis
    using says [OF v(2), of "''err_open_lots: PASS\<newline>''"] u v by (auto simp: err_open_lots_def simp del: list.map fold_simps)
qed

end

text \<open>What the program prints when every test passes.\<close>

definition syserr_results :: string where
  "syserr_results = ''err_neg_fd: PASS\<newline>'' @ ''err_big_fd: PASS\<newline>'' @ ''err_open_lots: PASS\<newline>''
     @ ''err_open: PASS\<newline>'' @ ''err_unopened: PASS\<newline>'' @ ''err_vidmap: PASS\<newline>''
     @ ''err_stdin_out: PASS\<newline>'' @ ''err_syscall_num: PASS\<newline>'' @ ''\<newline>Overall Tests: PASS\<newline>''"

context strict_calls
begin

lemma syserr_all:
  assumes "ece391_fdputs C 1 (c_str ''Choose from tests 1-8. 0 to run all: '') s = Some p"
    and "ece391_read C 0 buf 127 p = Some (n, bf, u0)" and "0 < n" and "bf 0 = 48" and "ready {} u0"
  shows "\<exists>t. syserr_main C sys stk buf s = Some (0, t) \<and> ready {} t
    \<and> out t = fold tty_putc (map of_char syserr_results) (out u0)"
proof -
  obtain u1 where u1: "err_neg_fd C (stk 1) u0 = Some (0, u1)" "ready {} u1"
    "out u1 = fold tty_putc (map of_char ''err_neg_fd: PASS\<newline>'') (out u0)"
    using tests_pass(1) [OF assms(5)] by blast
  obtain u2 where u2: "err_big_fd C (stk 2) u1 = Some (0, u2)" "ready {} u2"
    "out u2 = fold tty_putc (map of_char ''err_big_fd: PASS\<newline>'') (out u1)"
    using tests_pass(2) [OF u1(2)] by blast
  obtain u3 where u3: "err_open_lots C u2 = Some (0, u3)" "ready {} u3"
    "out u3 = fold tty_putc (map of_char ''err_open_lots: PASS\<newline>'') (out u2)"
    using open_lots_passes [OF u2(2)] by blast
  obtain u4 where u4: "err_open C u3 = Some (0, u4)" "ready {} u4"
    "out u4 = fold tty_putc (map of_char ''err_open: PASS\<newline>'') (out u3)"
    using tests_pass(3) [OF u3(2)] by blast
  obtain u5 where u5: "err_unopened C (stk 5) u4 = Some (0, u5)" "ready {} u5"
    "out u5 = fold tty_putc (map of_char ''err_unopened: PASS\<newline>'') (out u4)"
    using tests_pass(4) [OF u4(2)] by blast
  obtain u6 where u6: "err_vidmap C u5 = Some (0, u6)" "ready {} u6"
    "out u6 = fold tty_putc (map of_char ''err_vidmap: PASS\<newline>'') (out u5)"
    using tests_pass(5) [OF u5(2)] by blast
  obtain u7 where u7: "err_stdin_out C (stk 7) u6 = Some (0, u7)" "ready {} u7"
    "out u7 = fold tty_putc (map of_char ''err_stdin_out: PASS\<newline>'') (out u6)"
    using tests_pass(6) [OF u6(2)] by blast
  obtain u8 where u8: "err_syscall_num C sys u7 = Some (0, u8)" "ready {} u8"
    "out u8 = fold tty_putc (map of_char ''err_syscall_num: PASS\<newline>'') (out u7)"
    using tests_pass(7) [OF u7(2)] by blast
  obtain t where t: "verdict C ''\<newline>Overall Tests: FAIL\<newline>'' ''\<newline>Overall Tests: PASS\<newline>'' 0 u8 = Some (0, t)" "ready {} t"
    "out t = fold tty_putc (map of_char ''\<newline>Overall Tests: PASS\<newline>'') (out u8)"
    using verdict_pass [OF u8(2), of "''\<newline>Overall Tests: PASS\<newline>''"] by fastforce
  have "syserr_main C sys stk buf s = Some (0, t)"
    using assms(3,4) u1(1) unfolding One_nat_def
    by (simp add: syserr_main_def assms(1,2) u2(1) u3(1) u4(1) u5(1) u6(1) u7(1) u8(1) t(1))
  moreover have "out t = fold tty_putc (map of_char syserr_results) (out u0)"
    by (simp only: syserr_results_def map_append fold_append comp_apply t(3) u8(3) u7(3) u6(3) u5(3) u4(3) u3(3) u2(3)
        u1(3))
  ultimately show ?thesis using t(2) by blast
qed

end

section \<open>The kernel refuses them\<close>

text \<open>
  What a process needs of the directory, and a process with the terminal on 0 and 1 whose other open
  descriptors are those of \<open>P\<close>, all on the directory.
\<close>

definition lookups_ok :: "'a kernel_scheme \<Rightarrow> bool" where
  "lookups_ok s \<longleftrightarrow> (\<exists>d. read_dentry_by_name s (c_str ''.'') = Some d \<and> file_type d = FILE_TYPE_DIR)
     \<and> (\<forall>name\<in>{''helloo'', ''shel'', ''''}. read_dentry_by_name s (c_str name) = None)
     \<and> (\<forall>m. (\<forall>a. a \<notin> text_cells \<longrightarrow> m a = mem s a) \<longrightarrow> fs_dir (s\<lparr>mem := m\<rparr>) = fs_dir s)"

definition std_files :: "nat set \<Rightarrow> (nat \<Rightarrow> file_t) \<Rightarrow> bool" where
  "std_files P fs \<longleftrightarrow> is_open (fs 0) \<and> fileops (fs 0) = stdin_ops \<and> is_open (fs 1) \<and> fileops (fs 1) = stdout_ops
     \<and> (\<forall>i\<in>{2..<8}. is_open (fs i) \<longleftrightarrow> i \<in> P) \<and> (\<forall>i\<in>P. fileops (fs i) = dir_ops)"

definition fresh :: "nat set \<Rightarrow> 'a kernel_scheme \<Rightarrow> bool" where
  "fresh P s \<longleftrightarrow> screen_inv s \<and> lookups_ok s \<and> std_files P (cur_files s)"

lemma fresh_stdout: "fresh P s \<Longrightarrow> stdout_ok s"
  by (simp add: fresh_def stdout_ok_def std_files_def cur_file_files)

lemma lookups_ok_cong:
  assumes "mem t = mem s" and "boot_block t = boot_block s" shows "lookups_ok t = lookups_ok s"
proof -
  have "fs_dir (t\<lparr>mem := m\<rparr>) = fs_dir (s\<lparr>mem := m\<rparr>)" for m by (rule dir_fields) (simp_all add: assms)
  then show ?thesis
    using dir_fields [OF assms] by (simp add: lookups_ok_def read_dentry_by_name_find assms(1))
qed

lemma fresh_con:
  assumes c: "con_step s t" and r: "fresh P s" and i: "screen_inv t"
  shows "fresh P t"
proof -
  have s: "screen_inv s" and o: "lookups_ok s" using r by (simp_all add: fresh_def)
  obtain m i x y where t: "t = s\<lparr>mem := m, io := i, screen_x := x, screen_y := y\<rparr>"
    using c by (auto simp: con_step_def)
  have f: "fs_dir (t\<lparr>mem := m'\<rparr>) = fs_dir (s\<lparr>mem := m'\<rparr>)" for m' by (rule dir_fields) (simp_all add: t)
  have m: "mem t a = mem s a" if "a \<notin> text_cells" for a using con_step_mem [OF c s that] .
  have 1: "fs_dir t = fs_dir s" using f [of "mem t"] o m unfolding lookups_ok_def by simp
  then have "lookups_ok t" using o m f unfolding lookups_ok_def by (simp add: read_dentry_by_name_find)
  moreover have "cur_files t = cur_files s" using con_step_files [OF c] by (simp add: cur_files_def)
  ultimately show "fresh P t" using r i by (simp add: fresh_def)
qed

lemma fresh_open:
  assumes r: "fresh {2..<i} s" and i: "2 \<le> i" "i < 8"
  shows "\<exists>t. sys_open dev (Some (c_str ''.'')) s = (int i, t) \<and> fresh {2..<Suc i} t \<and> tty_of t = tty_of s"
proof -
  obtain d where d: "read_dentry_by_name s (c_str ''.'') = Some d" "file_type d = FILE_TYPE_DIR"
    using r by (auto simp: fresh_def lookups_ok_def)
  then have ops: "type_ops (file_type d) = Some dir_ops" by (simp add: type_ops_def const_defs)
  have fs: "std_files {2..<i} (cur_files s)" using r by (simp add: fresh_def)
  then have slot: "find_slot 6 2 (cur_files s) = Some i" using i by (simp add: find_slot_Some std_files_def)
  obtain es b oc m where o: "sys_open dev (Some (c_str ''.'')) s =
    (int i, (upd_file (get_current_pcb s) i
       (\<lambda>f. \<lparr>inode = inode_num d, flags = flags f OR FILE_OPEN, pos = 0, fileops = dir_ops\<rparr>) s)
       \<lparr>io := es, intr := b, int_occur := oc, slave_mask := m\<rparr>)" (is "_ = (_, ?t)")
    using sys_open_ok [OF d(1) slot ops, of dev] by blast
  have g: "get_current_pcb ?t = get_current_pcb s" by (simp add: get_current_pcb_def)
  have f: "cur_files ?t = (cur_files s)(i := \<lparr>inode = inode_num d, flags = flags (cur_files s i) OR FILE_OPEN,
      pos = 0, fileops = dir_ops\<rparr>)"
    unfolding cur_files_def g by (simp add: cur_files_def)
  have "std_files {2..<Suc i} (cur_files ?t)"
    using fs i unfolding f by (auto simp: std_files_def is_open_def open_flag FILE_OPEN_nonzero)
  moreover have "lookups_ok ?t" using r lookups_ok_cong [of ?t s] by (simp add: fresh_def)
  moreover have "screen_inv ?t" using r by (simp add: fresh_def screen_inv_def)
  moreover have "tty_of ?t = tty_of s" by (simp add: tty_of_def)
  ultimately show ?thesis using o by (auto simp: fresh_def)
qed

lemma fresh_full:
  assumes r: "fresh {2..<8} s"
  shows "sys_open dev (Some (c_str ''.'')) s = (- 1, s)"
proof -
  obtain d where "read_dentry_by_name s (c_str ''.'') = Some d"
    using r by (auto simp: fresh_def lookups_ok_def)
  moreover have "find_slot 6 2 (cur_files s) \<noteq> Some i" for i
    using r by (auto simp: find_slot_Some fresh_def std_files_def)
  then have "find_slot 6 2 (cur_files s) = None" by (cases "find_slot 6 2 (cur_files s)") auto
  ultimately show ?thesis by (simp add: sys_open_def cur_files_def Let_def)
qed

lemma fresh_close:
  assumes r: "fresh {i..<8} s" and i: "2 \<le> i" "i < 8"
  shows "\<exists>t. sys_close dev (int i) s = (0, t) \<and> fresh {Suc i..<8} t \<and> tty_of t = tty_of s"
proof -
  let ?t = "upd_file (get_current_pcb s) i (\<lambda>f. f\<lparr>flags := flags f AND NOT FILE_OPEN\<rparr>) s"
  have fs: "std_files {i..<8} (cur_files s)" using r by (simp add: fresh_def)
  then have "is_open (cur_files s i)" "fileops (cur_files s i) = dir_ops" using i by (auto simp: std_files_def)
  then have c: "sys_close dev (int i) s = (0, ?t)"
    using i by (simp add: sys_close_def cur_file_files MAX_FILES_def dir_ops_def dir_close_def)
  have g: "get_current_pcb ?t = get_current_pcb s" by (simp add: get_current_pcb_def)
  have f: "cur_files ?t = (cur_files s)(i := (cur_files s i)\<lparr>flags := flags (cur_files s i) AND NOT FILE_OPEN\<rparr>)"
    unfolding cur_files_def g by (simp add: cur_files_def)
  have "std_files {Suc i..<8} (cur_files ?t)"
    using fs i unfolding f by (auto simp: std_files_def is_open_def open_flag)
  moreover have "lookups_ok ?t" using r lookups_ok_cong [of ?t s] by (simp add: fresh_def)
  moreover have "screen_inv ?t" using r by (simp add: fresh_def screen_inv_def)
  moreover have "tty_of ?t = tty_of s" by (simp add: tty_of_def)
  ultimately show ?thesis using c by (auto simp: fresh_def)
qed

lemma fresh_refuses:
  assumes "fresh {} s"
  shows "fd < 0 \<or> 0 < fd \<Longrightarrow> sys_read fd (Some buf) n s = Some (Inr (- 1, Some buf, s))"
    and "fd \<noteq> 1 \<Longrightarrow> sys_write dev fd (Some buf) n s = (- 1, s)"
    and "sys_close dev fd s = (- 1, s)"
proof -
  have fs: "std_files {} (cur_files s)" using assms by (simp add: fresh_def)
  have n: "2 \<le> fd \<Longrightarrow> fd < 8 \<Longrightarrow> nat fd \<in> {2..<8}" by auto
  have f: "2 \<le> fd \<Longrightarrow> fd < 8 \<Longrightarrow> \<not> is_open (cur_files s (nat fd))"
    "fileops (cur_files s 0) = stdin_ops" "fileops (cur_files s 1) = stdout_ops"
    using fs n unfolding std_files_def by blast+
  have c: "fd < 0 \<or> 8 \<le> fd \<or> fd = 0 \<or> fd = 1 \<or> 2 \<le> fd \<and> fd < 8" by linarith
  show "fd < 0 \<or> 0 < fd \<Longrightarrow> sys_read fd (Some buf) n s = Some (Inr (- 1, Some buf, s))"
    using c f by (auto simp: sys_read_def cur_file_files MAX_FILES_def stdout_ops_def fail_def)
  show "fd \<noteq> 1 \<Longrightarrow> sys_write dev fd (Some buf) n s = (- 1, s)"
    using c f by (auto simp: sys_write_def cur_file_files MAX_FILES_def stdin_ops_def fail_def)
  show "sys_close dev fd s = (- 1, s)"
    using c f by (auto simp: sys_close_def cur_file_files MAX_FILES_def stdin_ops_def stdout_ops_def fail_def)
qed

lemma sint_small: "- (2 ^ 31) \<le> n \<Longrightarrow> n < 2 ^ 31 \<Longrightarrow> sint (word_of_int n :: u32) = n"
  by (simp add: signed_of_int signed_take_bit_int_eq_self)

text \<open>The eighth test's call, through the system call entry of the kernel.\<close>

definition call_sys :: "(nat \<Rightarrow> 's \<Rightarrow> (int \<times> 's) option) \<Rightarrow> int \<Rightarrow> 's \<Rightarrow> (int \<times> 's) option" where
  "call_sys syscalls n = handle_syscall syscalls (word_of_int n)"

interpretation kernel_strict: strict_calls "kernel_calls T dev ex ga" fresh tty_of "call_sys tbl"
  for T dev ex ga tbl
proof unfold_locales
  fix s :: "'a kernel_scheme" and xs and buf :: bytes
  assume r: "fresh {} s" and x: "length xs < 2 ^ 31" "0 \<notin> set xs" "\<forall>i<length xs. buf (of_nat i) = xs ! i"
  have s: "stdout_ok s" "screen_inv s" using r fresh_stdout by (simp_all add: fresh_def)
  have "screen_inv (fold putc xs s)" using tty_of_fold [OF s(2)] by simp
  then have "fresh {} (fold putc xs s)" by (rule fresh_con [OF con.ok_fold r])
  then show "\<exists>t. ece391_write (kernel_calls T dev ex ga) 1 buf (int (length xs)) s = Some (int (length xs), t)
      \<and> fresh {} t \<and> tty_of t = fold tty_putc xs (tty_of s)"
    using kernel_write [OF s(1) x] tty_of_fold [of s xs] s by (intro exI [of _ "fold putc xs s"]) simp
next
  fix s :: "'a kernel_scheme" and fd n and buf :: bytes
  assume r: "fresh {} s"
  show "ece391_read (kernel_calls T dev ex ga) fd buf n s = Some (- 1, buf, s)" if "fd < 0 \<or> 0 < fd"
    using fresh_refuses(1) [OF r that] by (simp add: kernel_calls_def)
  show "ece391_write (kernel_calls T dev ex ga) fd buf n s = Some (- 1, s)" if "fd \<noteq> 1"
    using fresh_refuses(2) [OF r that] by (simp add: kernel_calls_def)
  show "ece391_close (kernel_calls T dev ex ga) fd s = Some (- 1, s)"
    using fresh_refuses(3) [OF r] by (simp add: kernel_calls_def)
next
  fix s :: "'a kernel_scheme" and name
  assume "fresh {} s" and "name \<in> {''helloo'', ''shel'', ''''}"
  then have "read_dentry_by_name s (c_str name) = None" by (simp only: fresh_def lookups_ok_def)
  then show "ece391_open (kernel_calls T dev ex ga) (c_str name) s = Some (- 1, s)"
    by (simp add: kernel_calls_def sys_open_def)
next
  fix s :: "'a kernel_scheme" and p :: u32
  assume "p = 0 \<or> p = 0x400000"
  then show "ece391_vidmap (kernel_calls T dev ex ga) p s = Some (- 1, s)"
    by (auto simp: kernel_calls_def vidmap_def VIRTUAL_START_def)
next
  fix s :: "'a kernel_scheme" and n :: int
  assume "n < 1 \<or> 10 < n" and "- (2 ^ 31) \<le> n" "n < 2 ^ 31"
  then show "call_sys tbl n s = Some (- 1, s)"
    using sint_small [of n] by (auto simp: call_sys_def handle_syscall_def)
next
  fix s :: "'a kernel_scheme" and i :: nat
  show "\<exists>t. ece391_open (kernel_calls T dev ex ga) (c_str ''.'') s = Some (int i, t) \<and> fresh {2..<Suc i} t \<and> tty_of t = tty_of s"
    if "fresh {2..<i} s" "2 \<le> i" "i < 8"
    using fresh_open [OF that, of dev] by (auto simp: kernel_calls_def)
  show "\<exists>t. ece391_close (kernel_calls T dev ex ga) (int i) s = Some (0, t) \<and> fresh {Suc i..<8} t \<and> tty_of t = tty_of s"
    if "fresh {i..<8} s" "2 \<le> i" "i < 8"
    using fresh_close [OF that, of dev] by (auto simp: kernel_calls_def)
next
  fix s :: "'a kernel_scheme"
  assume "fresh {2..<8} s"
  then show "ece391_open (kernel_calls T dev ex ga) (c_str ''.'') s = Some (- 1, s)"
    using fresh_full [of s dev] by (simp add: kernel_calls_def)
qed

section \<open>Running all tests\<close>

text \<open>Reading the line that waits in the key buffer changes neither the screen nor the files.\<close>

lemma fresh_read:
  assumes r: "fresh {} s" and e: "enter_pressed s \<noteq> 0" "key_buffer s = Some b"
    and l: "key_line (term_key_buffer (terminal s b)) = c # cs"
  shows "\<exists>n buf' t. ece391_read (kernel_calls T dev ex ga) 0 buf 127 s = Some (n, buf', t) \<and> 0 < n \<and> buf' 0 = c
    \<and> fresh {} t \<and> tty_of t = tty_of s"
proof -
  let ?n = "min 127 (length (c # cs))"
  let ?buf = "\<lambda>k. if unat k < ?n then (c # cs) ! unat k else buf k"
  let ?t = "upd_terminal b (\<lambda>x. x\<lparr>term_key_buffer := (\<lambda>k. if unat k < 128 then 0 else term_key_buffer x k)\<rparr>)
        (s\<lparr>enter_pressed := 0, key_buffer_pos := 0, right_bound := 7\<rparr>)"
  have "terminal_read buf 127 s = Some (Inr (int ?n, ?buf, ?t))"
    by (rule terminal_read_eq) (use e l in simp_all)
  moreover have fs: "std_files {} (cur_files s)" using r by (simp add: fresh_def)
  ultimately have rd: "ece391_read (kernel_calls T dev ex ga) 0 buf 127 s = Some (int ?n, ?buf, ?t)"
    by (simp add: kernel_calls_def sys_read_def cur_file_files std_files_def stdin_ops_def MAX_FILES_def)
  have g: "get_current_pcb ?t = get_current_pcb s" by (simp add: get_current_pcb_def)
  have "cur_files ?t = cur_files s" unfolding cur_files_def g by simp
  moreover have "lookups_ok ?t" using r lookups_ok_cong [of ?t s] by (simp add: fresh_def)
  moreover have "screen_inv ?t" using r by (simp add: fresh_def screen_inv_def)
  ultimately have "fresh {} ?t" using fs by (simp add: fresh_def)
  moreover have "tty_of ?t = tty_of s" by (simp add: tty_of_def)
  ultimately show ?thesis using rd by (intro exI [of _ "int ?n"] exI [of _ ?buf] exI [of _ ?t]) simp
qed

text \<open>
  Claim C18. The kernel passes the error tests: in a process with a fresh file table, with the line \<open>0\<close>
  waiting at the keyboard and a directory that has \<open>.\<close> but none of the three wrong names, \<open>syserr\<close>
  reports PASS for all eight tests, prints nothing else, and returns 0.
\<close>

theorem syserr_passes:
  fixes s :: "'a kernel_scheme"
  assumes "fresh {} s" and "enter_pressed s \<noteq> 0" and "key_buffer s = Some b"
    and "key_line (term_key_buffer (terminal s b)) = 48 # cs"
  shows "\<exists>t. syserr_main (kernel_calls T dev ex ga) (call_sys tbl) stk buf s = Some (0, t)
    \<and> tty_of t = fold tty_putc (map of_char (''Choose from tests 1-8. 0 to run all: '' @ syserr_results)) (tty_of s)"
proof -
  let ?C = "kernel_calls T dev ex ga" and ?sys = "call_sys tbl"
  let ?prompt = "''Choose from tests 1-8. 0 to run all: ''"
  define p where "p = fold putc (map of_char ?prompt) s"
  have s: "stdout_ok s" "screen_inv s" using assms(1) fresh_stdout by (simp_all add: fresh_def)
  have p0: "ece391_fdputs ?C 1 (c_str ?prompt) s = Some p" unfolding p_def
    by (rule kernel_says [OF s(1)]) simp_all
  have p: "screen_inv p" "tty_of p = fold tty_putc (map of_char ?prompt) (tty_of s)"
    unfolding p_def using tty_of_fold [OF s(2)] by blast+
  have c: "con_step s p" unfolding p_def by (rule con.ok_fold)
  then have pk: "enter_pressed p = enter_pressed s" "key_buffer p = key_buffer s" "terminal p = terminal s"
    by (auto simp: con_step_def)
  obtain n bf u0 where u0: "ece391_read ?C 0 buf 127 p = Some (n, bf, u0)" "0 < n" "bf 0 = 48" "fresh {} u0"
    "tty_of u0 = tty_of p"
    using fresh_read [OF fresh_con [OF c assms(1) p(1)], of b 48 cs] assms pk by metis
  obtain t where "syserr_main ?C ?sys stk buf s = Some (0, t)"
    "tty_of t = fold tty_putc (map of_char syserr_results) (tty_of u0)"
    using kernel_strict.syserr_all [OF p0 u0(1-4)] by blast
  then show ?thesis unfolding map_append fold_append comp_apply p(2) [symmetric] u0(5) [symmetric] by blast
qed

text \<open>The small directory, with the line \<open>0\<close> typed.\<close>

definition err_kernel :: kernel where
  "err_kernel = upd_terminal 0 (\<lambda>x. x\<lparr>term_key_buffer := (\<lambda>_. 0)(0 := 48)\<rparr>) (ls_kernel\<lparr>enter_pressed := 1\<rparr>)"

lemma key_line_single: "key_line ((\<lambda>_. 0)(0 := 48)) = [48]"
proof -
  have "[0..<128] = 0 # 1 # [2..<128]" by (simp add: upt_conv_Cons)
  then show ?thesis by (simp add: key_line_def del: upt_rec_numeral upt_Suc)
qed

lemma err_kernel_fresh: "fresh {} err_kernel"
proof -
  have dir: "fs_dir ls_kernel = [load_dentry ls_image 0x500040, load_dentry ls_image 0x500080]"
    using ls_kernel_dir [of "mem ls_kernel"] by simp
  have no: "\<not> names (c_str name) (load_dentry ls_image a)"
    if "name \<in> {''helloo'', ''shel'', ''''}" "a = 0x500040 \<or> a = 0x500080" for name a
    using that by (auto simp: names_load strncmp_def FILE_NAME_LENGTH_def strncmp_loop.simps [of _ _ _ 0] c_str_def ls_image_def)
  have "lookups_ok ls_kernel"
    unfolding lookups_ok_def using ls_kernel_lookup ls_kernel_dir dir no
    by (auto simp: read_dentry_by_name_find)
  then have "lookups_ok err_kernel" using lookups_ok_cong [of err_kernel ls_kernel] by (simp add: err_kernel_def)
  moreover have "get_current_pcb err_kernel = get_current_pcb ls_kernel" by (simp add: err_kernel_def get_current_pcb_def)
  then have "cur_files err_kernel = cur_files ls_kernel" unfolding cur_files_def by (simp add: err_kernel_def)
  then have "std_files {} (cur_files err_kernel)"
    by (auto simp: ls_kernel_files proc_kernel_files std_files_def new_files_eq is_open_def blank_file_def FILE_OPEN_def)
  moreover have "screen_inv err_kernel" using ls_kernel_screen by (simp add: err_kernel_def screen_inv_def)
  ultimately show ?thesis by (simp add: fresh_def)
qed

theorem syserr_passes_witness:
  "map_option fst (syserr_main (kernel_calls some_tables (\<lambda>_ _. 0) (\<lambda>_ s. None) (\<lambda>b n s. None)) (call_sys (\<lambda>_ s. None))
     (\<lambda>_ _. 0) (\<lambda>_. 0) err_kernel) = Some 0"
proof -
  have k: "enter_pressed err_kernel \<noteq> 0" "key_buffer err_kernel = Some 0"
    "key_line (term_key_buffer (terminal err_kernel 0)) = [48]"
    using key_line_single
    by (simp_all add: err_kernel_def) (simp_all add: ls_kernel_def proc_kernel_def)
  show ?thesis
    using syserr_passes [OF err_kernel_fresh k, of some_tables "\<lambda>_ _. 0" "\<lambda>_ s. None" "\<lambda>b n s. None" "\<lambda>_ s. None" "\<lambda>_ _. 0" "\<lambda>_. 0"]
    by (auto simp del: fold_simps list.map)
qed

end
