(* ===== verification/Entry.thy ===== *)
theory Entry
  imports Boot
begin

text \<open>
  \<open>entry\<close> of \<^verbatim>\<open>student-distrib/kernel.c\<close>, which the boot loader's entry code calls with the loader's
  magic number and the address of its information: the report of that information, the file system
  in the first module, and the descriptors of the local descriptor table and the task state segment
  (\<^verbatim>\<open>x86_desc.h\<close>). It is shown when the kernel is started, and in which state.
\<close>

section \<open>The boot loader's information\<close>

text \<open>The structures of \<^verbatim>\<open>multiboot.h\<close>, as they lie in memory.\<close>

record multiboot_info =
  mb_flags :: u32
  mem_lower :: u32
  mem_upper :: u32
  boot_device :: u32
  cmdline :: u32
  mods_count :: u32
  mods_addr :: u32
  elf_num :: u32
  elf_size :: u32
  elf_addr :: u32
  elf_shndx :: u32
  mmap_length :: u32
  mmap_addr :: u32

definition multiboot_info_at :: "bytes \<Rightarrow> u32 \<Rightarrow> multiboot_info" where
  "multiboot_info_at m a =
     \<lparr>mb_flags = load32 m a, mem_lower = load32 m (a + 4), mem_upper = load32 m (a + 8),
      boot_device = load32 m (a + 12), cmdline = load32 m (a + 16), mods_count = load32 m (a + 20),
      mods_addr = load32 m (a + 24), elf_num = load32 m (a + 28), elf_size = load32 m (a + 32),
      elf_addr = load32 m (a + 36), elf_shndx = load32 m (a + 40), mmap_length = load32 m (a + 44),
      mmap_addr = load32 m (a + 48)\<rparr>"

record module_t =
  mod_start :: u32
  mod_end :: u32
  mod_string :: u32
  mod_reserved :: u32

definition module_at :: "bytes \<Rightarrow> u32 \<Rightarrow> module_t" where
  "module_at m a = \<lparr>mod_start = load32 m a, mod_end = load32 m (a + 4), mod_string = load32 m (a + 8),
     mod_reserved = load32 m (a + 12)\<rparr>"

record memory_map_t =
  map_size :: u32
  base_addr_low :: u32
  base_addr_high :: u32
  length_low :: u32
  length_high :: u32
  map_type :: u32

definition memory_map_at :: "bytes \<Rightarrow> u32 \<Rightarrow> memory_map_t" where
  "memory_map_at m a = \<lparr>map_size = load32 m a, base_addr_low = load32 m (a + 4), base_addr_high = load32 m (a + 8),
     length_low = load32 m (a + 12), length_high = load32 m (a + 16), map_type = load32 m (a + 20)\<rparr>"

definition MULTIBOOT_BOOTLOADER_MAGIC :: u32 where [const_defs]: "MULTIBOOT_BOOTLOADER_MAGIC = 0x2BADB002"

definition CHECK_FLAG :: "u32 \<Rightarrow> nat \<Rightarrow> u32" where
  "CHECK_FLAG fl b = fl AND push_bit b 1"

section \<open>The report\<close>

text \<open>A call of \<open>printf\<close> for its effect, and the next statement of a function that may stop.\<close>

definition printa :: "string \<Rightarrow> u32 list \<Rightarrow> 'a console_scheme \<Rightarrow> (fault + 'a console_scheme) option" where
  "printa format args s = map_option (map_sum id snd) (printf (map of_char format) args s)"

abbreviation and_then :: "(fault + 'a) option \<Rightarrow> ('a \<Rightarrow> (fault + 'b) option) \<Rightarrow> (fault + 'b) option" where
  "and_then r f \<equiv> Option.bind r (case_sum (\<lambda>e. Some (Inl e)) f)"

definition show_info :: "u32 \<Rightarrow> 'a console_scheme \<Rightarrow> (fault + 'a console_scheme) option" where
  "show_info a s =
     and_then (printa ''flags = 0x%#x\<newline>'' [mb_flags (multiboot_info_at (mem s) a)] s) (\<lambda>s.
     and_then (let mbi = multiboot_info_at (mem s) a
       in if CHECK_FLAG (mb_flags mbi) 0 \<noteq> 0
          then printa ''mem_lower = %uKB, mem_upper = %uKB\<newline>'' [mem_lower mbi, mem_upper mbi] s else Some (Inr s)) (\<lambda>s.
     and_then (let mbi = multiboot_info_at (mem s) a
       in if CHECK_FLAG (mb_flags mbi) 1 \<noteq> 0
          then printa ''boot_device = 0x%#x\<newline>'' [boot_device mbi] s else Some (Inr s)) (\<lambda>s.
     let mbi = multiboot_info_at (mem s) a
     in if CHECK_FLAG (mb_flags mbi) 2 \<noteq> 0 then printa ''cmdline = %s\<newline>'' [cmdline mbi] s else Some (Inr s))))"

text \<open>The bytes are printed as \<open>char\<close>s, that is sign-extended.\<close>

function first_bytes :: "u32 \<Rightarrow> nat \<Rightarrow> 'a console_scheme \<Rightarrow> (fault + 'a console_scheme) option" where
  "first_bytes md i s =
     (if i < 16 then
        and_then (printa ''0x%x '' [scast (mem s (mod_start (module_at (mem s) md) + of_nat i))] s)
          (first_bytes md (i + 1))
      else Some (Inr s))"
  by pat_completeness auto
termination
  by (relation "measure (\<lambda>(md, i, s). 16 - i)") auto

declare first_bytes.simps [simp del, loop_unfold]

partial_function (option) modules_loop ::
  "u32 \<Rightarrow> u32 \<Rightarrow> u32 \<Rightarrow> 'a console_scheme \<Rightarrow> (fault + 'a console_scheme) option" where
  "modules_loop a mod_count md s =
     (if mod_count < mods_count (multiboot_info_at (mem s) a) then
        and_then (printa ''Module %d loaded at address: 0x%#x\<newline>'' [mod_count, mod_start (module_at (mem s) md)] s) (\<lambda>s.
        and_then (printa ''Module %d ends at address: 0x%#x\<newline>'' [mod_count, mod_end (module_at (mem s) md)] s) (\<lambda>s.
        and_then (first_bytes md 0 (printk ''First few bytes of module:\<newline>'' s)) (\<lambda>s.
        modules_loop a (mod_count + 1) (md + 16) (printk ''\<newline>'' s))))
      else Some (Inr s))"

definition show_modules :: "u32 \<Rightarrow> 'a rofs_scheme \<Rightarrow> (fault + 'a rofs_scheme) option" where
  "show_modules a s =
     (let mbi = multiboot_info_at (mem s) a
      in if CHECK_FLAG (mb_flags mbi) 3 \<noteq> 0 then
           let md = mods_addr mbi;
               s = printk ''Initing Read Only File System... '' s;
               s = init_rofs (mod_start (module_at (mem s) md)) s;
               s = printk ''Done!\<newline>'' s
           in modules_loop a 0 md s
         else Some (Inr s))"

definition show_elf :: "u32 \<Rightarrow> 'a console_scheme \<Rightarrow> (fault + 'a console_scheme) option" where
  "show_elf a s =
     (let mbi = multiboot_info_at (mem s) a
      in if CHECK_FLAG (mb_flags mbi) 5 \<noteq> 0
         then printa ''elf_sec: num = %u, size = 0x%#x, addr = 0x%#x, shndx = 0x%#x\<newline>''
           [elf_num mbi, elf_size mbi, elf_addr mbi, elf_shndx mbi] s
         else Some (Inr s))"

partial_function (option) mmap_loop ::
  "u32 \<Rightarrow> u32 \<Rightarrow> 'a console_scheme \<Rightarrow> (fault + 'a console_scheme) option" where
  "mmap_loop a mmap s =
     (let mbi = multiboot_info_at (mem s) a
      in if mmap < mmap_addr mbi + mmap_length mbi then
           let mm = memory_map_at (mem s) mmap
           in and_then (printa '' size = 0x%x,     base_addr = 0x%#x%#x\<newline>     type = 0x%x,  length    = 0x%#x%#x\<newline>''
                [map_size mm, base_addr_high mm, base_addr_low mm, map_type mm, length_high mm, length_low mm] s)
                (\<lambda>s. mmap_loop a (mmap + map_size (memory_map_at (mem s) mmap) + 4) s)
         else Some (Inr s))"

definition show_mmap :: "u32 \<Rightarrow> 'a console_scheme \<Rightarrow> (fault + 'a console_scheme) option" where
  "show_mmap a s =
     (let mbi = multiboot_info_at (mem s) a
      in if CHECK_FLAG (mb_flags mbi) 6 \<noteq> 0
         then and_then (printa ''mmap_addr = 0x%#x, mmap_length = 0x%x\<newline>'' [mmap_addr mbi, mmap_length mbi] s)
           (\<lambda>s. mmap_loop a (mmap_addr (multiboot_info_at (mem s) a)) s)
         else Some (Inr s))"

section \<open>Segments\<close>

record seg_desc =
  seg_lim_15_00 :: u16
  base_15_00 :: u16
  base_23_16 :: u8
  seg_type :: "4 word"
  sys :: "1 word"
  seg_dpl :: "2 word"
  seg_present :: "1 word"
  seg_lim_19_16 :: "4 word"
  avail :: "1 word"
  seg_reserved :: "1 word"
  opsize :: "1 word"
  granularity :: "1 word"
  base_31_24 :: u8

text \<open>The two entries of the global table that \<open>entry\<close> makes, and the registers that select them.\<close>

record segments = kernel +
  ldt_desc_ptr :: seg_desc
  tss_desc_ptr :: seg_desc
  ldt_segment_selector :: u16
  ldtr :: u16
  tr :: u16

definition TSS_SIZE :: u32 where [const_defs]: "TSS_SIZE = 104"
definition KERNEL_TSS :: u16 where [const_defs]: "KERNEL_TSS = 0x30"
definition KERNEL_LDT :: u16 where [const_defs]: "KERNEL_LDT = 0x38"

text \<open>The sizes that \<^verbatim>\<open>x86_desc.S\<close> computes: 104 bytes and four entries, less one.\<close>

definition tss_size :: u32 where [const_defs]: "tss_size = 104 - 1"
definition ldt_size :: u32 where [const_defs]: "ldt_size = 4 * 8 - 1"

definition SET_LDT_PARAMS :: "seg_desc \<Rightarrow> u32 \<Rightarrow> u32 \<Rightarrow> seg_desc" where
  "SET_LDT_PARAMS str a lim = str\<lparr>base_31_24 := ucast (drop_bit 24 (a AND 0xFF000000)),
     base_23_16 := ucast (drop_bit 16 (a AND 0x00FF0000)), base_15_00 := ucast (a AND 0x0000FFFF),
     seg_lim_19_16 := ucast (drop_bit 16 (lim AND 0x000F0000)), seg_lim_15_00 := ucast (lim AND 0x0000FFFF)\<rparr>"

definition SET_TSS_PARAMS :: "seg_desc \<Rightarrow> u32 \<Rightarrow> u32 \<Rightarrow> seg_desc" where
  "SET_TSS_PARAMS str a lim = str\<lparr>base_31_24 := ucast (drop_bit 24 (a AND 0xFF000000)),
     base_23_16 := ucast (drop_bit 16 (a AND 0x00FF0000)), base_15_00 := ucast (a AND 0x0000FFFF),
     seg_lim_19_16 := ucast (drop_bit 16 (lim AND 0x000F0000)), seg_lim_15_00 := ucast (lim AND 0x0000FFFF)\<rparr>"

text \<open>
  Base and limit of the local variable hold whatever was on the stack (\<open>d\<close>) until the macros set them.
\<close>

definition set_ldt :: "seg_desc \<Rightarrow> u32 \<Rightarrow> 'a segments_scheme \<Rightarrow> 'a segments_scheme" where
  "set_ldt d ldt s =
     (let d = d\<lparr>granularity := 0, opsize := 1, seg_reserved := 0, avail := 0, seg_present := 1, seg_dpl := 0, sys := 0,
            seg_type := 2\<rparr>;
          d = SET_LDT_PARAMS d ldt ldt_size
      in s\<lparr>ldt_desc_ptr := d, ldtr := KERNEL_LDT\<rparr>)"

text \<open>Loading the task register does not depend on the stack that \<open>start_kernel\<close> enters in the segment.\<close>

definition set_tss :: "seg_desc \<Rightarrow> u32 \<Rightarrow> 'a segments_scheme \<Rightarrow> 'a segments_scheme" where
  "set_tss d tss s =
     (let d = d\<lparr>granularity := 0, opsize := 0, seg_reserved := 0, avail := 0, seg_lim_19_16 := ucast (TSS_SIZE AND 0x000F0000),
            seg_present := 1, seg_dpl := 0, sys := 0, seg_type := 9, seg_lim_15_00 := ucast (TSS_SIZE AND 0x0000FFFF)\<rparr>;
          d = SET_TSS_PARAMS d tss tss_size
      in s\<lparr>tss_desc_ptr := d, ldt_segment_selector := KERNEL_LDT, tr := KERNEL_TSS\<rparr>)"

section \<open>entry\<close>

datatype started = Refused | Started outcome

definition entry :: "tables \<Rightarrow> seg_desc \<Rightarrow> seg_desc \<Rightarrow> u32 \<Rightarrow> u32 \<Rightarrow> u32 \<Rightarrow> u32 \<Rightarrow>
    'a segments_scheme \<Rightarrow> (fault + started \<times> 'a segments_scheme) option" where
  "entry T d e ldt tss magic a s =
     (let s = clear s
      in if magic \<noteq> MULTIBOOT_BOOTLOADER_MAGIC then
           and_then (printa ''Invalid magic number: 0x%#x\<newline>'' [magic] s) (\<lambda>s. Some (Inr (Refused, s)))
         else
           and_then (show_info a s) (\<lambda>s.
           and_then (show_modules a s) (\<lambda>s.
           let mbi = multiboot_info_at (mem s) a
           in if CHECK_FLAG (mb_flags mbi) 4 \<noteq> 0 \<and> CHECK_FLAG (mb_flags mbi) 5 \<noteq> 0
              then Some (Inr (Refused, printk ''Both bits 4 and 5 are set.\<newline>'' s))
              else
                and_then (show_elf a s) (\<lambda>s.
                and_then (show_mmap a s) (\<lambda>s.
                Some (map_sum id (\<lambda>(r, s). (Started r, s)) (start_kernel T (set_tss e tss (set_ldt d ldt s)))))))))"

section \<open>Printing numbers always succeeds\<close>

text \<open>A format whose conversions are numeric, with an argument for each.\<close>

fun numeric_format :: "u8 list \<Rightarrow> nat \<Rightarrow> bool" and numeric_conv :: "u8 list \<Rightarrow> nat \<Rightarrow> bool" where
  "numeric_format [] n = True"
| "numeric_format (c # f) n = (if c = 37 then numeric_conv f n else numeric_format f n)"
| "numeric_conv [] n = False"
| "numeric_conv (c # f) n =
     (if c = 35 then numeric_conv f n else c \<in> {120, 117, 100} \<and> 0 < n \<and> numeric_format f (n - 1))"

lemma conv_numeric:
  assumes "c \<in> {120, 117, 100 :: u8}"
  shows "\<exists>xs. \<forall>s :: 'a console_scheme. printf_conv alt (c # f) (v # ws) s = printf_loop f ws (fold putc xs s)"
proof -
  have "\<exists>t xs. conv_x alt (\<lambda>_. 0) v = Some (Inr t) \<and> is_str t xs"
    using conv_x_text [of "\<lambda>_. 0" v] conv_x_alt_text [of "\<lambda>_. 0" v] by (cases alt) (simp, blast)+
  then have "\<exists>t xs. (if c = 120 then conv_x alt (\<lambda>_. 0) v else if c = 117 then conv_u (\<lambda>_. 0) v
      else conv_d (\<lambda>_. 0) v) = Some (Inr t) \<and> is_str t xs"
    using conv_d_text [of "\<lambda>_. 0" v] conv_u_text [of "\<lambda>_. 0" v] by (cases "c = 120"; cases "c = 117") (simp, blast?)+
  then obtain t xs where "(if c = 120 then conv_x alt (\<lambda>_. 0) v else if c = 117 then conv_u (\<lambda>_. 0) v
      else conv_d (\<lambda>_. 0) v) = Some (Inr t)" "is_str t xs" by blast
  then have "printf_conv alt (c # f) (v # ws) s = printf_loop f ws (fold putc xs s)" for s :: "'a console_scheme"
    using assms by (intro printf_directive [of t]) auto
  then show ?thesis by blast
qed

lemma printf_numeric:
  fixes s :: "'a console_scheme"
  shows "numeric_format f (length ws) \<Longrightarrow> \<exists>xs. printf_loop f ws s = Some (Inr (fold putc xs s))"
    and "numeric_conv f (length ws) \<Longrightarrow> \<exists>xs. printf_conv alt f ws s = Some (Inr (fold putc xs s))"
proof (induction f "length ws" and f "length ws" arbitrary: ws s and ws s alt rule: numeric_format_numeric_conv.induct)
  case (1 ws s)
  show ?case by (intro exI [of _ "[]"]) simp
next
  case (2 c f ws s)
  show ?case
  proof (cases "c = 37")
    case False
    then obtain xs where "printf_loop f ws (putc c s) = Some (Inr (fold putc xs (putc c s)))" using 2 by force
    then show ?thesis using False by (intro exI [of _ "c # xs"]) simp
  qed (use 2 in simp)
next
  case (4 c f ws s alt)
  show ?case
  proof (cases "c = 35")
    case False
    then obtain v vs where c: "c \<in> {120, 117, 100}" "ws = v # vs" "numeric_format f (length vs)"
      using 4(3) by (cases ws) auto
    obtain xs where xs: "printf_conv alt (c # f) (v # vs) s = printf_loop f vs (fold putc xs s)"
      using conv_numeric [OF c(1)] by blast
    have "\<exists>ys. printf_loop f vs (fold putc xs s) = Some (Inr (fold putc ys (fold putc xs s)))"
      by (rule 4(2)) (use False c in auto)
    then obtain ys where "printf_loop f vs (fold putc xs s) = Some (Inr (fold putc ys (fold putc xs s)))" by blast
    then show ?thesis using xs c(2) by (intro exI [of _ "xs @ ys"]) simp
  qed (use 4 in simp)
qed simp

lemma printa_numeric:
  assumes "numeric_format (map of_char f) (length args)"
  shows "\<exists>t. printa f args s = Some (Inr t) \<and> con_step s t"
  using printf_numeric(1) [OF assms, of s] con.ok_fold by (auto simp: printa_def printf_def)

text \<open>Whatever is printed, only the screen changes.\<close>

lemma con_step_puts: "puts_loop t i s = Some r \<Longrightarrow> con_step s (snd r)"
proof (rule puts_loop.raw_induct [where P = "\<lambda>t i s r. con_step s (snd r)"])
  fix f :: "bytes \<Rightarrow> u32 \<Rightarrow> 'a console_scheme \<Rightarrow> (u32 \<times> 'a console_scheme) option" and t i s r
  assume f: "\<And>t i s r. f t i s = Some r \<Longrightarrow> con_step s (snd r)"
    and r: "(if t i \<noteq> 0 then f t (i + 1) (putc (t i) s) else Some (i, s)) = Some r"
  show "con_step s (snd r)"
  proof (cases "t i = 0")
    case False
    then have "con_step (putc (t i) s) (snd r)" using f r by simp
    then show ?thesis by (rule con_step_trans [OF con_step_putc])
  qed (use r con_step_refl in auto)
qed

lemma con_step_puts_conv: "puts_conv r s = Some (Inr t) \<Longrightarrow> con_step s t"
  by (auto simp: puts_conv_def puts_def dest!: con_step_puts split: option.splits sum.splits)

lemma con_step_printf:
  "printf_loop f ws s = Some (Inr t) \<Longrightarrow> con_step s t"
  "printf_conv alt f ws s = Some (Inr t) \<Longrightarrow> con_step s t"
proof (induction f ws s and alt f ws s arbitrary: t and t rule: printf_loop_printf_conv.induct)
  case (2 c buf ws s)
  then show ?case by (auto split: if_splits intro: con_step_trans [OF con_step_putc])
next
  case (4 alt c buf ws s)
  show ?case
  proof (cases "c = 37 \<or> c = 35 \<or> c \<notin> {120, 117, 100, 99, 115}")
    case True
    then show ?thesis using 4 by (auto split: if_splits intro: con_step_trans [OF con_step_putc])
  next
    case False
    then obtain v vs u where u: "ws = v # vs"
      "(if c = 120 then puts_conv (conv_x alt (\<lambda>_. 0) v) s
        else if c = 117 then puts_conv (conv_u (\<lambda>_. 0) v) s
        else if c = 100 then puts_conv (conv_d (\<lambda>_. 0) v) s
        else if c = 99 then Some (Inr (putc (ucast v) s))
        else puts_conv (Some (Inr (view (mem s) v))) s) = Some (Inr u)" "printf_loop buf vs u = Some (Inr t)"
      using 4(5) by (auto split: list.splits option.splits sum.splits if_splits)
    have "con_step s u" using u(2) con_step_putc by (auto split: if_splits dest: con_step_puts_conv)
    moreover have "con_step u t"
      by (rule 4(3)) (use False u in auto)
    ultimately show ?thesis by (rule con_step_trans)
  qed
qed (simp_all add: con_step_refl)

lemma con_step_printa: "printa f args s = Some (Inr t) \<Longrightarrow> con_step s t"
  by (auto simp: printa_def printf_def dest: con_step_printf(1) split: option.splits sum.splits)

section \<open>What entry changes\<close>

text \<open>The report changes the screen and the pointers into the image, nothing else.\<close>

definition booting :: "'a rofs_scheme \<Rightarrow> 'a rofs_scheme \<Rightarrow> bool" where
  "booting s t \<longleftrightarrow> (\<exists>m i x y b n d. t = s\<lparr>mem := m, io := i, screen_x := x, screen_y := y, boot_block := b, inodes := n,
       data_blocks := d\<rparr>)
     \<and> (screen_inv s \<longrightarrow> screen_inv t \<and> (\<forall>a. a \<notin> text_cells \<longrightarrow> mem t a = mem s a))"

lemma booting_con: "con_step s t \<Longrightarrow> booting s t"
proof -
  assume c: "con_step s t"
  then obtain m i x y where t: "t = s\<lparr>mem := m, io := i, screen_x := x, screen_y := y\<rparr>" by (auto simp: con_step_def)
  then have "t = s\<lparr>mem := m, io := i, screen_x := x, screen_y := y, boot_block := boot_block s, inodes := inodes s,
       data_blocks := data_blocks s\<rparr>" by simp
  then show ?thesis using c unfolding booting_def con_step_def by blast
qed

lemma booting_trans: "booting s t \<Longrightarrow> booting t u \<Longrightarrow> booting s u"
proof -
  assume 1: "booting s t" and 2: "booting t u"
  then obtain m i x y b n d m' i' x' y' b' n' d' where
    "t = s\<lparr>mem := m, io := i, screen_x := x, screen_y := y, boot_block := b, inodes := n, data_blocks := d\<rparr>"
    "u = t\<lparr>mem := m', io := i', screen_x := x', screen_y := y', boot_block := b', inodes := n', data_blocks := d'\<rparr>"
    unfolding booting_def by blast
  then have "u = s\<lparr>mem := m', io := i', screen_x := x', screen_y := y', boot_block := b', inodes := n', data_blocks := d'\<rparr>"
    by simp
  then have "\<exists>m i x y b n d. u = s\<lparr>mem := m, io := i, screen_x := x, screen_y := y, boot_block := b, inodes := n,
       data_blocks := d\<rparr>" by blast
  moreover have "screen_inv s \<longrightarrow> screen_inv u \<and> (\<forall>a. a \<notin> text_cells \<longrightarrow> mem u a = mem s a)"
    using 1 2 unfolding booting_def by simp
  ultimately show ?thesis unfolding booting_def by (intro conjI)
qed

lemma booting_rofs: "booting s (init_rofs b s)"
proof -
  have "init_rofs b s = s\<lparr>mem := mem s, io := io s, screen_x := screen_x s, screen_y := screen_y s, boot_block := b,
      inodes := b + BLOCK_SIZE, data_blocks := b + BLOCK_SIZE + num_inodes (s\<lparr>boot_block := b, inodes := b + BLOCK_SIZE\<rparr>) * BLOCK_SIZE\<rparr>"
    by (simp add: init_rofs_def Let_def)
  then have "\<exists>m i x y c n d. init_rofs b s = s\<lparr>mem := m, io := i, screen_x := x, screen_y := y, boot_block := c, inodes := n,
       data_blocks := d\<rparr>" by blast
  moreover have "screen_inv s \<longrightarrow> screen_inv (init_rofs b s) \<and> (\<forall>a. a \<notin> text_cells \<longrightarrow> mem (init_rofs b s) a = mem s a)"
    by (simp add: init_rofs_def Let_def screen_inv_def)
  ultimately show ?thesis unfolding booting_def by (intro conjI)
qed

lemma and_then_Inr: "and_then r f = Some (Inr t) \<longleftrightarrow> (\<exists>u. r = Some (Inr u) \<and> f u = Some (Inr t))"
  by (cases r) (auto split: sum.splits)

lemma printk_step: "37 \<notin> set (map of_char f :: u8 list) \<Longrightarrow> con_step s t \<Longrightarrow> con_step s (printk f t)"
  by (rule con_step_trans [OF _ con_step_printk])

lemma first_bytes_step: "first_bytes md i s = Some (Inr t) \<Longrightarrow> con_step s t"
proof (induction md i s arbitrary: t rule: first_bytes.induct)
  case (1 md i s)
  show ?case
  proof (cases "i < 16")
    case True
    then obtain u where u: "printa ''0x%x '' [scast (mem s (mod_start (module_at (mem s) md) + of_nat i))] s = Some (Inr u)"
      "first_bytes md (i + 1) u = Some (Inr t)"
      using 1(2) by (auto simp: first_bytes.simps [of md i] and_then_Inr)
    then show ?thesis using 1(1) [OF True u(1) refl u(2)] con_step_printa by (blast intro: con_step_trans)
  qed (use 1(2) in \<open>simp add: first_bytes.simps [of md i] con_step_refl\<close>)
qed

lemma first_bytes_ends: "\<exists>t. first_bytes md i s = Some (Inr t) \<and> con_step s t"
proof (induction "16 - i" arbitrary: i s)
  case 0
  then show ?case by (simp add: first_bytes.simps [of md i] con_step_refl)
next
  case (Suc d)
  have "\<exists>u. printa ''0x%x '' [scast (mem s (mod_start (module_at (mem s) md) + of_nat i))] s = Some (Inr u) \<and> con_step s u"
    by (rule printa_numeric) simp
  then obtain u where u: "printa ''0x%x '' [scast (mem s (mod_start (module_at (mem s) md) + of_nat i))] s = Some (Inr u)"
    "con_step s u" by blast
  have d: "d = 16 - (i + 1)" using Suc.hyps(2) by simp
  obtain t where t: "first_bytes md (i + 1) u = Some (Inr t)" "con_step u t" using Suc.hyps(1) [OF d] by blast
  have "first_bytes md i s = Some (Inr t)"
    using u(1) t(1) Suc.hyps(2) by (simp add: first_bytes.simps [of md i])
  then show ?case using con_step_trans [OF u(2) t(2)] by blast
qed

lemma show_info_step: "show_info a s = Some (Inr t) \<Longrightarrow> con_step s t"
  by (auto simp: show_info_def Let_def and_then_Inr split: if_splits dest!: con_step_printa intro: con_step_trans)

lemma show_elf_step: "show_elf a s = Some (Inr t) \<Longrightarrow> con_step s t"
  by (auto simp: show_elf_def Let_def split: if_splits intro: con_step_refl dest!: con_step_printa)

lemma modules_loop_step: "modules_loop a k md s = Some (Inr t) \<Longrightarrow> con_step s t"
proof -
  have "modules_loop a k md s = Some r \<Longrightarrow> \<forall>t. r = Inr t \<longrightarrow> con_step s t" for r
  proof (rule modules_loop.raw_induct [where P = "\<lambda>a k md s r. \<forall>t. r = Inr t \<longrightarrow> con_step s t"])
    fix f :: "u32 \<Rightarrow> u32 \<Rightarrow> u32 \<Rightarrow> 'b console_scheme \<Rightarrow> (fault + 'b console_scheme) option" and a k md s r
    assume f: "\<And>a k md s r. f a k md s = Some r \<Longrightarrow> \<forall>t. r = Inr t \<longrightarrow> con_step s t"
      and r: "(if k < mods_count (multiboot_info_at (mem s) a) then
        and_then (printa ''Module %d loaded at address: 0x%#x\<newline>'' [k, mod_start (module_at (mem s) md)] s) (\<lambda>s.
        and_then (printa ''Module %d ends at address: 0x%#x\<newline>'' [k, mod_end (module_at (mem s) md)] s) (\<lambda>s.
        and_then (first_bytes md 0 (printk ''First few bytes of module:\<newline>'' s)) (\<lambda>s.
        f a (k + 1) (md + 16) (printk ''\<newline>'' s))))
        else Some (Inr s)) = Some r"
    show "\<forall>t. r = Inr t \<longrightarrow> con_step s t"
    proof (intro allI impI)
      fix t assume t: "r = Inr t"
      show "con_step s t"
      proof (cases "k < mods_count (multiboot_info_at (mem s) a)")
        case True
        then obtain u v w where "printa ''Module %d loaded at address: 0x%#x\<newline>'' [k, mod_start (module_at (mem s) md)] s = Some (Inr u)"
          "printa ''Module %d ends at address: 0x%#x\<newline>'' [k, mod_end (module_at (mem u) md)] u = Some (Inr v)"
          "first_bytes md 0 (printk ''First few bytes of module:\<newline>'' v) = Some (Inr w)"
          "f a (k + 1) (md + 16) (printk ''\<newline>'' w) = Some (Inr t)"
          using r t by (auto simp: and_then_Inr)
        then have c: "con_step s u" "con_step u v" "con_step (printk ''First few bytes of module:\<newline>'' v) w"
          "con_step (printk ''\<newline>'' w) t"
          using f con_step_printa first_bytes_step by blast+
        have "con_step s (printk ''First few bytes of module:\<newline>'' v)"
          by (rule printk_step [OF _ con_step_trans [OF c(1,2)]]) simp
        from con_step_trans [OF this c(3)] have "con_step s (printk ''\<newline>'' w)" by (rule printk_step [rotated]) simp
        then show ?thesis by (rule con_step_trans [OF _ c(4)])
      qed (use r t con_step_refl in auto)
    qed
  qed
  then show "modules_loop a k md s = Some (Inr t) \<Longrightarrow> con_step s t" by blast
qed

lemma mmap_loop_step: "mmap_loop a p s = Some (Inr t) \<Longrightarrow> con_step s t"
proof -
  have "mmap_loop a p s = Some r \<Longrightarrow> \<forall>t. r = Inr t \<longrightarrow> con_step s t" for r
  proof (rule mmap_loop.raw_induct [where P = "\<lambda>a p s r. \<forall>t. r = Inr t \<longrightarrow> con_step s t"])
    fix f :: "u32 \<Rightarrow> u32 \<Rightarrow> 'b console_scheme \<Rightarrow> (fault + 'b console_scheme) option" and a p s r
    assume f: "\<And>a p s r. f a p s = Some r \<Longrightarrow> \<forall>t. r = Inr t \<longrightarrow> con_step s t"
      and r: "(let mbi = multiboot_info_at (mem s) a
      in if p < mmap_addr mbi + mmap_length mbi then
           let mm = memory_map_at (mem s) p
           in and_then (printa '' size = 0x%x,     base_addr = 0x%#x%#x\<newline>     type = 0x%x,  length    = 0x%#x%#x\<newline>''
                [map_size mm, base_addr_high mm, base_addr_low mm, map_type mm, length_high mm, length_low mm] s)
                (\<lambda>s. f a (p + map_size (memory_map_at (mem s) p) + 4) s)
         else Some (Inr s)) = Some r"
    show "\<forall>t. r = Inr t \<longrightarrow> con_step s t"
    proof (intro allI impI)
      fix t assume "r = Inr t"
      then show "con_step s t"
        using r by (auto simp: Let_def and_then_Inr con_step_refl split: if_splits dest!: con_step_printa f intro: con_step_trans)
    qed
  qed
  then show "mmap_loop a p s = Some (Inr t) \<Longrightarrow> con_step s t" by blast
qed

lemma show_mmap_step: "show_mmap a s = Some (Inr t) \<Longrightarrow> con_step s t"
  by (auto simp: show_mmap_def Let_def and_then_Inr con_step_refl split: if_splits
      dest!: con_step_printa mmap_loop_step intro: con_step_trans)

lemma show_modules_step:
  assumes "show_modules a s = Some (Inr t)" shows "booting s t"
proof (cases "CHECK_FLAG (mb_flags (multiboot_info_at (mem s) a)) 3 = 0")
  case True
  then show ?thesis using assms by (simp add: show_modules_def Let_def booting_con con_step_refl)
next
  case False
  let ?md = "mods_addr (multiboot_info_at (mem s) a)"
  define u where "u = printk ''Initing Read Only File System... '' s"
  define v where "v = init_rofs (mod_start (module_at (mem u) ?md)) u"
  have "con_step s u" unfolding u_def by (rule con_step_printk) simp
  then have v: "booting s v" unfolding v_def by (rule booting_trans [OF booting_con booting_rofs])
  have p: "con_step v (printk ''Done!\<newline>'' v)" by (rule con_step_printk) simp
  have "modules_loop a 0 ?md (printk ''Done!\<newline>'' v) = Some (Inr t)"
    using assms False by (simp add: show_modules_def Let_def u_def v_def)
  then show ?thesis using modules_loop_step v booting_con [OF p] by (blast intro: booting_trans booting_con)
qed

section \<open>When entry returns\<close>

text \<open>Structures that the report does not overwrite.\<close>

definition off_cells :: "nat \<Rightarrow> u32 \<Rightarrow> bool" where
  "off_cells n a \<longleftrightarrow> (\<forall>i<n. a + of_nat i \<notin> text_cells)"

lemma off_cells_add: "off_cells n a \<Longrightarrow> k + l \<le> n \<Longrightarrow> off_cells l (a + of_nat k)"
  unfolding off_cells_def by (metis (no_types, lifting) add.assoc nat_add_left_cancel_less of_nat_add order_less_le_trans)

lemma load32_same:
  assumes b: "booting s t" "screen_inv s" and o: "off_cells 4 a"
  shows "load32 (mem t) a = load32 (mem s) a"
proof -
  have "mem t (a + of_nat i) = mem s (a + of_nat i)" if "i < 4" for i
    using b o that by (simp add: booting_def off_cells_def)
  from this [of 0] this [of 1] this [of 2] this [of 3] show ?thesis by (simp add: load32_def)
qed

lemma load32_same_at:
  assumes "booting s t" "screen_inv s" "off_cells n a" "k + 4 \<le> n"
  shows "load32 (mem t) (a + of_nat k) = load32 (mem s) (a + of_nat k)"
  using load32_same [OF assms(1,2) off_cells_add [OF assms(3,4)]] .

lemma structs_same:
  assumes b: "booting s t" "screen_inv s"
  shows "off_cells 52 a \<Longrightarrow> multiboot_info_at (mem t) a = multiboot_info_at (mem s) a"
    and "off_cells 16 a \<Longrightarrow> module_at (mem t) a = module_at (mem s) a"
    and "off_cells 24 a \<Longrightarrow> memory_map_at (mem t) a = memory_map_at (mem s) a"
proof -
  note l = load32_same_at [OF b]
  show "multiboot_info_at (mem t) a = multiboot_info_at (mem s) a" if o: "off_cells 52 a"
    using l [OF o, of 0] l [OF o, of 4] l [OF o, of 8] l [OF o, of 12] l [OF o, of 16] l [OF o, of 20] l [OF o, of 24]
      l [OF o, of 28] l [OF o, of 32] l [OF o, of 36] l [OF o, of 40] l [OF o, of 44] l [OF o, of 48]
    by (simp add: multiboot_info_at_def)
  show "module_at (mem t) a = module_at (mem s) a" if o: "off_cells 16 a"
    using l [OF o, of 0] l [OF o, of 4] l [OF o, of 8] l [OF o, of 12] by (simp add: module_at_def)
  show "memory_map_at (mem t) a = memory_map_at (mem s) a" if o: "off_cells 24 a"
    using l [OF o, of 0] l [OF o, of 4] l [OF o, of 8] l [OF o, of 12] l [OF o, of 16] l [OF o, of 20]
    by (simp add: memory_map_at_def)
qed

text \<open>The memory map ends: stepping from entry to entry gets past its limit.\<close>

inductive mmap_ends :: "bytes \<Rightarrow> u32 \<Rightarrow> u32 \<Rightarrow> bool" for m :: bytes and lim :: u32 where
  End: "\<not> p < lim \<Longrightarrow> mmap_ends m lim p"
| Next: "p < lim \<Longrightarrow> off_cells 24 p \<Longrightarrow> mmap_ends m lim (p + map_size (memory_map_at m p) + 4) \<Longrightarrow> mmap_ends m lim p"

lemma mmap_loop_ends:
  assumes e: "mmap_ends m lim p" and a: "off_cells 52 a" and s: "screen_inv s" "m = mem s"
    and lim: "lim = mmap_addr (multiboot_info_at m a) + mmap_length (multiboot_info_at m a)"
  shows "booting s t \<Longrightarrow> screen_inv t \<Longrightarrow> \<exists>u. mmap_loop a p t = Some (Inr u)"
  using e
proof (induction arbitrary: t)
  case (End p)
  have "multiboot_info_at (mem t) a = multiboot_info_at m a" using structs_same(1) [OF End(2) s(1) a] s(2) by simp
  then show ?case using End(1) lim by (simp add: mmap_loop.simps [of a p] Let_def)
next
  case (Next p)
  have i: "multiboot_info_at (mem t) a = multiboot_info_at m a" using structs_same(1) [OF Next(5) s(1) a] s(2) by simp
  let ?mm = "memory_map_at (mem t) p"
  have "\<exists>u. printa '' size = 0x%x,     base_addr = 0x%#x%#x\<newline>     type = 0x%x,  length    = 0x%#x%#x\<newline>''
      [map_size ?mm, base_addr_high ?mm, base_addr_low ?mm, map_type ?mm, length_high ?mm, length_low ?mm] t = Some (Inr u) \<and> con_step t u"
    by (rule printa_numeric) simp
  then obtain u where u: "printa '' size = 0x%x,     base_addr = 0x%#x%#x\<newline>     type = 0x%x,  length    = 0x%#x%#x\<newline>''
      [map_size ?mm, base_addr_high ?mm, base_addr_low ?mm, map_type ?mm, length_high ?mm, length_low ?mm] t = Some (Inr u)"
    "con_step t u" by blast
  have bu: "booting s u" by (rule booting_trans [OF Next(5) booting_con [OF u(2)]])
  moreover have "screen_inv u" using bu s(1) by (simp add: booting_def)
  ultimately obtain v where v: "mmap_loop a (p + map_size (memory_map_at m p) + 4) u = Some (Inr v)"
    using Next(4) by blast
  have "memory_map_at (mem u) p = memory_map_at m p" using structs_same(3) [OF bu s(1) Next(2)] s(2) by simp
  then have "mmap_loop a p t = Some (Inr v)"
    using Next(1) lim i u(1) v by (simp add: mmap_loop.simps [of a p] Let_def)
  then show ?case by blast
qed

lemma modules_loop_ends:
  assumes a: "off_cells 52 a" and s: "screen_inv s" and n: "n = mods_count (multiboot_info_at (mem s) a)"
  shows "k \<le> n \<Longrightarrow> booting s t \<Longrightarrow> \<exists>u. modules_loop a k md t = Some (Inr u)"
proof (induction "unat n - unat k" arbitrary: k md t)
  case 0
  then have "k = n" by (simp add: word_le_nat_alt word_unat_eq_iff)
  moreover have "multiboot_info_at (mem t) a = multiboot_info_at (mem s) a" by (rule structs_same(1) [OF 0(3) s a])
  ultimately show ?case using n by (subst modules_loop.simps) simp
next
  case (Suc d)
  have k: "k < n" using Suc.hyps(2) by (simp add: word_less_nat_alt)
  have u1: "unat (k + 1) = Suc (unat k)"
    using k unsigned_less [of n, where ?'a = nat] by (simp add: word_less_nat_alt unat_word_ariths(1))
  have i: "multiboot_info_at (mem t) a = multiboot_info_at (mem s) a" by (rule structs_same(1) [OF Suc.prems(2) s a])
  have "\<exists>u. printa ''Module %d loaded at address: 0x%#x\<newline>'' [k, mod_start (module_at (mem t) md)] t = Some (Inr u) \<and> con_step t u"
    by (rule printa_numeric) simp
  then obtain u where u: "printa ''Module %d loaded at address: 0x%#x\<newline>'' [k, mod_start (module_at (mem t) md)] t = Some (Inr u)"
    "con_step t u" by blast
  have "\<exists>v. printa ''Module %d ends at address: 0x%#x\<newline>'' [k, mod_end (module_at (mem u) md)] u = Some (Inr v) \<and> con_step u v"
    by (rule printa_numeric) simp
  then obtain v where v: "printa ''Module %d ends at address: 0x%#x\<newline>'' [k, mod_end (module_at (mem u) md)] u = Some (Inr v)"
    "con_step u v" by blast
  obtain w where w: "first_bytes md 0 (printk ''First few bytes of module:\<newline>'' v) = Some (Inr w)"
    "con_step (printk ''First few bytes of module:\<newline>'' v) w"
    using first_bytes_ends [of md 0] by blast
  have "con_step t (printk ''First few bytes of module:\<newline>'' v)"
    by (rule printk_step [OF _ con_step_trans [OF u(2) v(2)]]) simp
  from con_step_trans [OF this w(2)] have "con_step t (printk ''\<newline>'' w)" by (rule printk_step [rotated]) simp
  then have b: "booting s (printk ''\<newline>'' w)" by (rule booting_trans [OF Suc.prems(2) booting_con])
  have "d = unat n - unat (k + 1)" "k + 1 \<le> n" using Suc.hyps(2) k u1 by (simp_all add: word_le_nat_alt word_less_nat_alt)
  from Suc.hyps(1) [OF this b] obtain x where "modules_loop a (k + 1) (md + 16) (printk ''\<newline>'' w) = Some (Inr x)" by blast
  then have "modules_loop a k md t = Some (Inr x)"
    using k n i u(1) v(1) w(1) by (simp add: modules_loop.simps [of a k])
  then show ?case by blast
qed

lemma printf_loop_append: "37 \<notin> set f \<Longrightarrow> printf_loop (f @ g) ws s = printf_loop g ws (fold putc f s)"
  by (induction f arbitrary: s) auto

lemma printf_string_line:
  "is_str (view (mem u) p) xs \<Longrightarrow> printf_loop [37, 115, 10] [p] u = Some (Inr (putc 10 (fold putc xs u)))"
  by (simp add: puts_conv_is_str)

lemma printa_string:
  assumes b: "booting s t" "screen_inv s" and p: "is_str (view (mem s) p) xs" "off_cells (Suc (length xs)) p"
  shows "\<exists>u. printa ''cmdline = %s\<newline>'' [p] t = Some (Inr u) \<and> con_step t u"
proof -
  let ?u = "fold putc (map of_char ''cmdline = '') t"
  have c: "con_step t ?u" by (rule con.ok_fold)
  have bu: "booting s ?u" by (rule booting_trans [OF b(1) booting_con [OF c]])
  have m: "view (mem ?u) p (of_nat i) = view (mem s) p (of_nat i)" if "i < Suc (length xs)" for i
    using bu b(2) p(2) that by (simp add: booting_def off_cells_def view_def)
  have "is_str (view (mem ?u) p) xs"
    using p(1) m by (simp add: is_str_def)
  from printf_string_line [OF this]
  have "printf_loop (map of_char ''cmdline = '' @ [37, 115, 10]) [p] t = Some (Inr (putc 10 (fold putc xs ?u)))"
    by (rule trans [OF printf_loop_append, rotated]) simp
  moreover have "map of_char ''cmdline = %s\<newline>'' = map of_char ''cmdline = '' @ [37, 115, 10 :: u8]" by simp
  ultimately have e: "printa ''cmdline = %s\<newline>'' [p] t = Some (Inr (putc 10 (fold putc xs ?u)))"
    by (simp only: printa_def printf_def option.case sum.case option.map map_sum.simps snd_conv id_apply)
  then show ?thesis using con_step_printa [OF e] by blast
qed

text \<open>What the report needs of the information at \<open>a\<close>.\<close>

definition boot_info_ok :: "bytes \<Rightarrow> u32 \<Rightarrow> bool" where
  "boot_info_ok m a \<longleftrightarrow> off_cells 52 a \<and>
     (let mbi = multiboot_info_at m a
      in (CHECK_FLAG (mb_flags mbi) 2 \<noteq> 0 \<longrightarrow> (\<exists>xs. is_str (view m (cmdline mbi)) xs \<and> off_cells (Suc (length xs)) (cmdline mbi)))
       \<and> (CHECK_FLAG (mb_flags mbi) 6 \<noteq> 0 \<longrightarrow> mmap_ends m (mmap_addr mbi + mmap_length mbi) (mmap_addr mbi)))"

lemma show_info_ends:
  assumes ok: "boot_info_ok (mem s) a" and b: "booting s t" "screen_inv s"
  shows "\<exists>u. show_info a t = Some (Inr u)"
proof -
  have a: "off_cells 52 a" using ok by (simp add: boot_info_ok_def)
  let ?i = "multiboot_info_at (mem s) a"
  have i: "multiboot_info_at (mem u) a = ?i" if "booting s u" for u by (rule structs_same(1) [OF that b(2) a])
  have "\<exists>u. printa ''flags = 0x%#x\<newline>'' [mb_flags ?i] t = Some (Inr u) \<and> con_step t u"
    by (rule printa_numeric) simp
  then obtain u where u: "printa ''flags = 0x%#x\<newline>'' [mb_flags ?i] t = Some (Inr u)" "con_step t u" by blast
  have bu: "booting s u" by (rule booting_trans [OF b(1) booting_con [OF u(2)]])
  have "\<exists>v. printa ''mem_lower = %uKB, mem_upper = %uKB\<newline>'' [mem_lower ?i, mem_upper ?i] u = Some (Inr v) \<and> con_step u v"
    by (rule printa_numeric) simp
  then obtain v where v: "(if CHECK_FLAG (mb_flags ?i) 0 \<noteq> 0
      then printa ''mem_lower = %uKB, mem_upper = %uKB\<newline>'' [mem_lower ?i, mem_upper ?i] u else Some (Inr u)) = Some (Inr v)"
    "con_step u v" using con_step_refl by (cases "CHECK_FLAG (mb_flags ?i) 0 = 0") auto
  have bv: "booting s v" by (rule booting_trans [OF bu booting_con [OF v(2)]])
  have "\<exists>w. printa ''boot_device = 0x%#x\<newline>'' [boot_device ?i] v = Some (Inr w) \<and> con_step v w"
    by (rule printa_numeric) simp
  then obtain w where w: "(if CHECK_FLAG (mb_flags ?i) 1 \<noteq> 0
      then printa ''boot_device = 0x%#x\<newline>'' [boot_device ?i] v else Some (Inr v)) = Some (Inr w)"
    "con_step v w" using con_step_refl by (cases "CHECK_FLAG (mb_flags ?i) 1 = 0") auto
  have bw: "booting s w" by (rule booting_trans [OF bv booting_con [OF w(2)]])
  have "\<exists>x. (if CHECK_FLAG (mb_flags ?i) 2 \<noteq> 0 then printa ''cmdline = %s\<newline>'' [cmdline ?i] w else Some (Inr w)) = Some (Inr x)"
    using ok printa_string [OF bw b(2)] by (auto simp: boot_info_ok_def Let_def)
  then show ?thesis
    by (simp only: show_info_def Let_def i [OF b(1)] i [OF bu] i [OF bv] i [OF bw] u(1) v(1) w(1) bind.bind_lunit sum.case)
qed

lemma show_modules_ends:
  assumes a: "off_cells 52 a" and b: "booting s t" "screen_inv s"
    and f: "CHECK_FLAG (mb_flags (multiboot_info_at (mem s) a)) 3 \<noteq> 0"
    and md: "md = mods_addr (multiboot_info_at (mem s) a)" "off_cells 16 md"
    and base: "base = mod_start (module_at (mem s) md)"
  shows "\<exists>u. show_modules a t = Some (Inr u) \<and> boot_block u = base \<and> inodes u = base + BLOCK_SIZE
    \<and> (off_cells 8 base \<longrightarrow> data_blocks u = base + BLOCK_SIZE + load32 (mem s) (base + 4) * BLOCK_SIZE)"
proof -
  define u where "u = printk ''Initing Read Only File System... '' t"
  have "con_step t u" unfolding u_def by (rule con_step_printk) simp
  then have bu: "booting s u" by (rule booting_trans [OF b(1) booting_con])
  have m: "module_at (mem u) md = module_at (mem s) md" by (rule structs_same(2) [OF bu b(2) md(2)])
  have i: "multiboot_info_at (mem t) a = multiboot_info_at (mem s) a" by (rule structs_same(1) [OF b a])
  define v where "v = printk ''Done!\<newline>'' (init_rofs base u)"
  have cv: "con_step (init_rofs base u) v" unfolding v_def by (rule con_step_printk) simp
  have bv: "booting s v" by (rule booting_trans [OF booting_trans [OF bu booting_rofs] booting_con [OF cv]])
  obtain w where w: "modules_loop a 0 md v = Some (Inr w)"
    using modules_loop_ends [OF a b(2) refl _ bv, of 0 md] by auto
  have "con_step (init_rofs base u) w" by (rule con_step_trans [OF cv modules_loop_step [OF w]])
  then have "boot_block w = base" "inodes w = base + BLOCK_SIZE"
    "data_blocks w = base + BLOCK_SIZE + load32 (mem u) (base + 4) * BLOCK_SIZE"
    by (auto simp: con_step_def init_rofs_def Let_def num_inodes_def)
  moreover have "off_cells 8 base \<longrightarrow> load32 (mem u) (base + 4) = load32 (mem s) (base + 4)"
    using load32_same_at [OF bu b(2), of 8 base 4] by (intro impI) simp
  moreover have "show_modules a t = Some (Inr w)"
    using w f by (simp add: show_modules_def Let_def i md(1) [symmetric] u_def [symmetric] m base [symmetric] v_def [symmetric])
  ultimately show ?thesis by (intro exI [of _ w]) simp
qed

section \<open>The descriptors\<close>

text \<open>How the processor reads base and limit of a descriptor.\<close>

definition segment_base :: "seg_desc \<Rightarrow> u32" where
  "segment_base d = push_bit 24 (ucast (base_31_24 d)) OR push_bit 16 (ucast (base_23_16 d)) OR ucast (base_15_00 d)"

definition segment_limit :: "seg_desc \<Rightarrow> u32" where
  "segment_limit d = push_bit 16 (ucast (seg_lim_19_16 d)) OR ucast (seg_lim_15_00 d)"

lemma mask_bits:
  "bit (0xFF000000 :: u32) m \<longleftrightarrow> 24 \<le> m \<and> m < 32"
  "bit (0x00FF0000 :: u32) m \<longleftrightarrow> 16 \<le> m \<and> m < 24"
  "bit (0x0000FFFF :: u32) m \<longleftrightarrow> m < 16"
  "bit (0x000F0000 :: u32) m \<longleftrightarrow> 16 \<le> m \<and> m < 20"
proof -
  have e: "(0xFF000000 :: u32) = push_bit 24 (mask 8)" "(0x00FF0000 :: u32) = push_bit 16 (mask 8)"
    "(0x0000FFFF :: u32) = mask 16" "(0x000F0000 :: u32) = push_bit 16 (mask 4)"
    by (simp_all add: mask_eq_exp_minus_1 push_bit_eq_mult)
  show "bit (0xFF000000 :: u32) m \<longleftrightarrow> 24 \<le> m \<and> m < 32"
    unfolding e(1) by (auto simp: bit_push_bit_iff bit_mask_iff)
  show "bit (0x00FF0000 :: u32) m \<longleftrightarrow> 16 \<le> m \<and> m < 24"
    unfolding e(2) by (auto simp: bit_push_bit_iff bit_mask_iff)
  show "bit (0x0000FFFF :: u32) m \<longleftrightarrow> m < 16"
    unfolding e(3) by (auto simp: bit_mask_iff)
  show "bit (0x000F0000 :: u32) m \<longleftrightarrow> 16 \<le> m \<and> m < 20"
    unfolding e(4) by (auto simp: bit_push_bit_iff bit_mask_iff)
qed

lemma segment_parts:
  fixes a lim :: u32 and b3 b2 :: u8 and b1 l1 :: u16 and l2 :: "4 word"
  assumes b3: "b3 = ucast (drop_bit 24 (a AND 0xFF000000))" and b2: "b2 = ucast (drop_bit 16 (a AND 0x00FF0000))"
    and b1: "b1 = ucast (a AND 0x0000FFFF)"
    and l2: "l2 = ucast (drop_bit 16 (lim AND 0x000F0000))" and l1: "l1 = ucast (lim AND 0x0000FFFF)"
  shows "push_bit 24 (ucast b3) OR push_bit 16 (ucast b2) OR ucast b1 = a"
    and "unat lim < 2 ^ 20 \<Longrightarrow> push_bit 16 (ucast l2) OR ucast l1 = lim"
proof -
  have B3: "bit b3 m \<longleftrightarrow> m < 8 \<and> bit a (24 + m)" for m
    unfolding b3 by (simp only: bit_ucast_iff bit_drop_bit_eq comp_apply bit_and_iff mask_bits) auto
  have B2: "bit b2 m \<longleftrightarrow> m < 8 \<and> bit a (16 + m)" for m
    unfolding b2 by (simp only: bit_ucast_iff bit_drop_bit_eq comp_apply bit_and_iff mask_bits) auto
  have B1: "bit b1 m \<longleftrightarrow> m < 16 \<and> bit a m" for m
    unfolding b1 by (simp only: bit_ucast_iff bit_and_iff mask_bits) auto
  have L2: "bit l2 m \<longleftrightarrow> m < 4 \<and> bit lim (16 + m)" for m
    unfolding l2 by (simp only: bit_ucast_iff bit_drop_bit_eq comp_apply bit_and_iff mask_bits) auto
  have L1: "bit l1 m \<longleftrightarrow> m < 16 \<and> bit lim m" for m
    unfolding l1 by (simp only: bit_ucast_iff bit_and_iff mask_bits) auto
  show "push_bit 24 (ucast b3) OR push_bit 16 (ucast b2) OR ucast b1 = a"
  proof (rule bit_word_eqI)
    fix n assume "n < LENGTH(32)"
    then show "bit (push_bit 24 (ucast b3) OR push_bit 16 (ucast b2) OR ucast b1 :: u32) n = bit a n"
      by (cases "n < 16"; cases "n < 24") (auto simp: bit_or_iff bit_push_bit_iff bit_ucast_iff B1 B2 B3)
  qed
  show "push_bit 16 (ucast l2) OR ucast l1 = lim" if l: "unat lim < 2 ^ 20"
  proof (rule bit_word_eqI)
    fix n assume n: "n < LENGTH(32)"
    have "\<not> bit lim n" if "20 \<le> n"
    proof -
      have "unat lim < 2 ^ n" using l power_increasing [OF that, of "2 :: nat"] by simp
      then have "\<not> bit (unat lim) n" by (simp add: bit_iff_odd)
      then show ?thesis using n by (simp add: bit_unsigned_iff)
    qed
    then show "bit (push_bit 16 (ucast l2) OR ucast l1 :: u32) n = bit lim n"
      using n by (cases "n < 20") (auto simp: bit_or_iff bit_push_bit_iff bit_ucast_iff L1 L2)
  qed
qed

lemma descriptors:
  "segment_base (ldt_desc_ptr (set_ldt d ldt s)) = ldt \<and> segment_limit (ldt_desc_ptr (set_ldt d ldt s)) = ldt_size"
  "segment_base (tss_desc_ptr (set_tss d tss s)) = tss \<and> segment_limit (tss_desc_ptr (set_tss d tss s)) = tss_size"
proof -
  have l: "unat ldt_size < 2 ^ 20" "unat tss_size < 2 ^ 20" by (simp_all add: const_defs)
  show "segment_base (ldt_desc_ptr (set_ldt d ldt s)) = ldt \<and> segment_limit (ldt_desc_ptr (set_ldt d ldt s)) = ldt_size"
    using segment_parts(1) [OF refl refl refl refl refl, of ldt] segment_parts(2) [OF refl refl refl refl refl l(1)]
    by (simp add: set_ldt_def SET_LDT_PARAMS_def segment_base_def segment_limit_def Let_def)
  show "segment_base (tss_desc_ptr (set_tss d tss s)) = tss \<and> segment_limit (tss_desc_ptr (set_tss d tss s)) = tss_size"
    using segment_parts(1) [OF refl refl refl refl refl, of tss] segment_parts(2) [OF refl refl refl refl refl l(2)]
    by (simp add: set_tss_def SET_TSS_PARAMS_def segment_base_def segment_limit_def Let_def)
qed

section \<open>entry\<close>

lemma show_elf_ends: "\<exists>u. show_elf a s = Some (Inr u)"
proof -
  let ?i = "multiboot_info_at (mem s) a"
  have "\<exists>u. printa ''elf_sec: num = %u, size = 0x%#x, addr = 0x%#x, shndx = 0x%#x\<newline>''
      [elf_num ?i, elf_size ?i, elf_addr ?i, elf_shndx ?i] s = Some (Inr u) \<and> con_step s u"
    by (rule printa_numeric) simp
  then show ?thesis by (auto simp: show_elf_def Let_def)
qed

lemma show_mmap_ends:
  assumes ok: "boot_info_ok (mem s) a" and b: "booting s t" "screen_inv s"
  shows "\<exists>u. show_mmap a t = Some (Inr u)"
proof -
  have a: "off_cells 52 a" using ok by (simp add: boot_info_ok_def)
  let ?i = "multiboot_info_at (mem s) a"
  have i: "multiboot_info_at (mem u) a = ?i" if "booting s u" for u by (rule structs_same(1) [OF that b(2) a])
  have "\<exists>u. printa ''mmap_addr = 0x%#x, mmap_length = 0x%x\<newline>'' [mmap_addr ?i, mmap_length ?i] t = Some (Inr u) \<and> con_step t u"
    by (rule printa_numeric) simp
  then obtain u where u: "printa ''mmap_addr = 0x%#x, mmap_length = 0x%x\<newline>'' [mmap_addr ?i, mmap_length ?i] t = Some (Inr u)"
    "con_step t u" by blast
  have bu: "booting s u" by (rule booting_trans [OF b(1) booting_con [OF u(2)]])
  then have su: "screen_inv u" using b(2) by (simp add: booting_def)
  show ?thesis
  proof (cases "CHECK_FLAG (mb_flags ?i) 6 = 0")
    case True
    then show ?thesis by (simp add: show_mmap_def Let_def i [OF b(1)])
  next
    case False
    then have "mmap_ends (mem s) (mmap_addr ?i + mmap_length ?i) (mmap_addr ?i)" using ok by (simp add: boot_info_ok_def Let_def)
    from mmap_loop_ends [OF this a b(2) refl refl bu su]
    obtain v where "mmap_loop a (mmap_addr ?i) u = Some (Inr v)" by blast
    then show ?thesis using u(1) False by (simp add: show_mmap_def Let_def i [OF b(1)] i [OF bu])
  qed
qed

text \<open>The report up to the modules, and after it.\<close>

lemma entry_report:
  fixes s :: "'a segments_scheme"
  assumes s: "screen_inv s" "boot_info_ok (mem s) a" and mbi: "mbi = multiboot_info_at (mem s) a"
    and f: "CHECK_FLAG (mb_flags mbi) 3 \<noteq> 0" "off_cells 16 (mods_addr mbi)"
    and base: "base = mod_start (module_at (mem s) (mods_addr mbi))"
  shows "\<exists>t u. show_info a (clear s) = Some (Inr t) \<and> show_modules a t = Some (Inr u) \<and> booting s u
    \<and> multiboot_info_at (mem u) a = mbi \<and> boot_block u = base \<and> inodes u = base + BLOCK_SIZE
    \<and> (off_cells 8 base \<longrightarrow> data_blocks u = base + BLOCK_SIZE + load32 (mem s) (base + 4) * BLOCK_SIZE)"
proof -
  have a: "off_cells 52 a" using s(2) by (simp add: boot_info_ok_def)
  have b0: "booting s (clear s)" by (rule booting_con [OF con_step_clear])
  obtain t where t: "show_info a (clear s) = Some (Inr t)" using show_info_ends [OF s(2) b0 s(1)] by blast
  have b1: "booting s t" by (rule booting_trans [OF b0 booting_con [OF show_info_step [OF t]]])
  obtain u where u: "show_modules a t = Some (Inr u)" "boot_block u = base" "inodes u = base + BLOCK_SIZE"
    "off_cells 8 base \<longrightarrow> data_blocks u = base + BLOCK_SIZE + load32 (mem s) (base + 4) * BLOCK_SIZE"
    using show_modules_ends [OF a b1 s(1) f(1) [unfolded mbi] refl _ refl] f(2) unfolding mbi base by blast
  have b2: "booting s u" by (rule booting_trans [OF b1 show_modules_step [OF u(1)]])
  have "multiboot_info_at (mem u) a = mbi" unfolding mbi by (rule structs_same(1) [OF b2 s(1) a])
  then show ?thesis using t u b2 by blast
qed

lemma entry_rest:
  assumes s: "screen_inv s" "boot_info_ok (mem s) a" and b: "booting s u"
  shows "\<exists>v w. show_elf a u = Some (Inr v) \<and> show_mmap a v = Some (Inr w) \<and> con_step u w \<and> booting s w"
proof -
  obtain v where v: "show_elf a u = Some (Inr v)" using show_elf_ends by blast
  have b3: "booting s v" by (rule booting_trans [OF b booting_con [OF show_elf_step [OF v]]])
  obtain w where w: "show_mmap a v = Some (Inr w)" using show_mmap_ends [OF s(2) b3 s(1)] by blast
  have c: "con_step u w" by (rule con_step_trans [OF show_elf_step [OF v] show_mmap_step [OF w]])
  then show ?thesis using v w booting_trans [OF b booting_con [OF c]] by blast
qed

lemma entry_enters:
  fixes s :: "'a segments_scheme"
  assumes s: "screen_inv s" "boot_info_ok (mem s) a" and mbi: "mbi = multiboot_info_at (mem s) a"
    and f: "CHECK_FLAG (mb_flags mbi) 3 \<noteq> 0" "off_cells 16 (mods_addr mbi)"
    and base: "base = mod_start (module_at (mem s) (mods_addr mbi))"
    and fl: "\<not> (CHECK_FLAG (mb_flags mbi) 4 \<noteq> 0 \<and> CHECK_FLAG (mb_flags mbi) 5 \<noteq> 0)"
  shows "\<exists>v. entry T d e ldt tss MULTIBOOT_BOOTLOADER_MAGIC a s =
      Some (map_sum id (\<lambda>(r, s). (Started r, s)) (start_kernel T (set_tss e tss (set_ldt d ldt v))))
    \<and> booting s v \<and> boot_block v = base \<and> inodes v = base + BLOCK_SIZE
    \<and> (off_cells 8 base \<longrightarrow> data_blocks v = base + BLOCK_SIZE + load32 (mem s) (base + 4) * BLOCK_SIZE)"
proof -
  obtain t u where t: "show_info a (clear s) = Some (Inr t)" "show_modules a t = Some (Inr u)" "booting s u"
    "multiboot_info_at (mem u) a = mbi" "boot_block u = base" "inodes u = base + BLOCK_SIZE"
    "off_cells 8 base \<longrightarrow> data_blocks u = base + BLOCK_SIZE + load32 (mem s) (base + 4) * BLOCK_SIZE"
    using entry_report [OF s mbi f base] by blast
  obtain v w where w: "show_elf a u = Some (Inr v)" "show_mmap a v = Some (Inr w)" "con_step u w" "booting s w"
    using entry_rest [OF s t(3)] by blast
  have "boot_block w = boot_block u" "inodes w = inodes u" "data_blocks w = data_blocks u"
    using w(3) by (auto simp: con_step_def)
  moreover have "entry T d e ldt tss MULTIBOOT_BOOTLOADER_MAGIC a s =
      Some (map_sum id (\<lambda>(r, s). (Started r, s)) (start_kernel T (set_tss e tss (set_ldt d ldt w))))"
    by (simp add: entry_def Let_def t(1,2,4) w(1,2) fl)
  ultimately show ?thesis using t(5-7) w(4) by (intro exI [of _ w]) simp
qed

lemma entry_refuses:
  fixes s :: "'a segments_scheme"
  assumes s: "screen_inv s" "boot_info_ok (mem s) a" and mbi: "mbi = multiboot_info_at (mem s) a"
    and f: "CHECK_FLAG (mb_flags mbi) 3 \<noteq> 0" "off_cells 16 (mods_addr mbi)"
    and r: "magic \<noteq> MULTIBOOT_BOOTLOADER_MAGIC \<or> CHECK_FLAG (mb_flags mbi) 4 \<noteq> 0 \<and> CHECK_FLAG (mb_flags mbi) 5 \<noteq> 0"
  shows "\<exists>t. entry T d e ldt tss magic a s = Some (Inr (Refused, t)) \<and> booting s t"
proof (cases "magic = MULTIBOOT_BOOTLOADER_MAGIC")
  case False
  have "\<exists>t. printa ''Invalid magic number: 0x%#x\<newline>'' [magic] (clear s) = Some (Inr t) \<and> con_step (clear s) t"
    by (rule printa_numeric) simp
  then obtain t where t: "printa ''Invalid magic number: 0x%#x\<newline>'' [magic] (clear s) = Some (Inr t)" "con_step (clear s) t"
    by blast
  have "booting s t" by (rule booting_con [OF con_step_trans [OF con_step_clear t(2)]])
  then show ?thesis using t(1) False by (simp add: entry_def Let_def)
next
  case True
  obtain t u where t: "show_info a (clear s) = Some (Inr t)" "show_modules a t = Some (Inr u)" "booting s u"
    "multiboot_info_at (mem u) a = mbi"
    using entry_report [OF s mbi f refl] by blast
  have "con_step u (printk ''Both bits 4 and 5 are set.\<newline>'' u)" by (rule con_step_printk) simp
  then have "booting s (printk ''Both bits 4 and 5 are set.\<newline>'' u)" by (rule booting_trans [OF t(3) booting_con])
  then show ?thesis using t r True by (simp add: entry_def Let_def)
qed

text \<open>Every start of the kernel is one from a state that differs from the first as \<open>booting\<close> allows.\<close>

lemma entry_started:
  assumes "entry T d e ldt tss magic a s = Some (Inr (Started r, t))"
  shows "\<exists>v. booting s v \<and> start_kernel T (set_tss e tss (set_ldt d ldt v)) = Inr (r, t)"
proof -
  have m: "magic = MULTIBOOT_BOOTLOADER_MAGIC"
    by (rule ccontr) (use assms in \<open>simp add: entry_def Let_def and_then_Inr\<close>)
  obtain u v w x where e: "show_info a (clear s) = Some (Inr u)" "show_modules a u = Some (Inr v)"
    "show_elf a v = Some (Inr w)" "show_mmap a w = Some (Inr x)"
    "map_sum id (\<lambda>(r, s). (Started r, s)) (start_kernel T (set_tss e tss (set_ldt d ldt x))) = Inr (Started r, t)"
    using assms m by (auto simp: entry_def Let_def and_then_Inr split: if_splits)
  have "booting s u" by (rule booting_con [OF con_step_trans [OF con_step_clear show_info_step [OF e(1)]]])
  moreover have "booting u v" by (rule show_modules_step [OF e(2)])
  moreover have "booting v x" by (rule booting_con [OF con_step_trans [OF show_elf_step [OF e(3)] show_mmap_step [OF e(4)]]])
  ultimately have "booting s x" using booting_trans by blast
  moreover have "start_kernel T (set_tss e tss (set_ldt d ldt x)) = Inr (r, t)"
    using e(5) by (cases "start_kernel T (set_tss e tss (set_ldt d ldt x))") auto
  ultimately show ?thesis by blast
qed


text \<open>Boot information with one module, at the place of the small image.\<close>

definition boot_image :: bytes where
  "boot_image a =
     (if a = 0x600000 then 8 else if a = 0x600014 then 1 else if a = 0x600019 then 1 else if a = 0x60001A then 0x60
      else if a = 0x600102 then 0x50 else prog_image a)"

definition no_desc :: seg_desc where
  "no_desc = \<lparr>seg_lim_15_00 = 0, base_15_00 = 0, base_23_16 = 0, seg_type = 0, sys = 0, seg_dpl = 0, seg_present = 0,
     seg_lim_19_16 = 0, avail = 0, seg_reserved = 0, opsize = 0, granularity = 0, base_31_24 = 0\<rparr>"

definition boot_kernel :: segments where
  "boot_kernel = kernel.extend (blank_kernel\<lparr>mem := boot_image\<rparr>)
     \<lparr>ldt_desc_ptr = no_desc, tss_desc_ptr = no_desc, ldt_segment_selector = 0, ldtr = 0, tr = 0\<rparr>"

lemma off_cells_above: "0xB9000 \<le> a \<Longrightarrow> unat a + n < 2 ^ 32 \<Longrightarrow> off_cells n a"
proof -
  assume a: "0xB9000 \<le> a" "unat a + n < 2 ^ 32"
  have "0xB9000 \<le> a + of_nat i" if "i < n" for i
    using a that by (simp add: word_le_nat_alt unat_word_ariths(1) unat_of_nat_small)
  then show ?thesis using text_cells_below by (simp add: off_cells_def)
qed

lemma boot_kernel_mem: "mem boot_kernel = boot_image" "screen_inv boot_kernel"
  by (simp_all add: boot_kernel_def kernel.defs screen_inv_def blank_kernel_def rofs.defs tiny_fs_def init_rofs_def Let_def
      paging.defs blank_paging_def NUM_COLS_def NUM_ROWS_def)

lemma boot_kernel_info:
  "mb_flags (multiboot_info_at boot_image 0x600000) = 8" "mods_addr (multiboot_info_at boot_image 0x600000) = 0x600100"
  "mod_start (module_at boot_image 0x600100) = 0x500000" "boot_info_ok (mem boot_kernel) 0x600000"
  "off_cells 16 0x600100" "CHECK_FLAG 8 3 \<noteq> 0" "CHECK_FLAG 8 4 = 0"
proof -
  let ?i = "multiboot_info_at boot_image 0x600000"
  show i: "mb_flags ?i = 8" "mods_addr ?i = 0x600100" "mod_start (module_at boot_image 0x600100) = 0x500000"
    by (simp_all add: multiboot_info_at_def module_at_def load32_def boot_image_def prog_image_def tiny_image_def)
  show fl: "CHECK_FLAG 8 3 \<noteq> 0" "CHECK_FLAG 8 4 = 0"
    by (simp_all add: CHECK_FLAG_def)
  show "off_cells 16 0x600100" by (simp add: off_cells_above)
  show "boot_info_ok (mem boot_kernel) 0x600000"
    using fl i off_cells_above [of "0x600000" 52] by (simp add: boot_info_ok_def boot_kernel_mem Let_def CHECK_FLAG_def)
qed


end
