(* ===== verification/Listing.thy ===== *)
theory Listing
  imports Entry
begin

text \<open>
  \<open>list_all_files\<close> of \<^verbatim>\<open>student-distrib/rofs.c\<close>, a print of the directory for the developers of the
  kernel, and what it prints.
\<close>

section \<open>The listing\<close>

text \<open>\<open>buf\<close> is the place of the array of 33 bytes on the stack; the count is read again for every entry.\<close>

partial_function (option) list_files_loop :: "u32 \<Rightarrow> u32 \<Rightarrow> 'a rofs_scheme \<Rightarrow> (fault + 'a rofs_scheme) option" where
  "list_files_loop buf i s =
     (if i < num_dir_entries s then
        let s = s\<lparr>mem := place buf (strncpy (view (mem s) buf) (view (mem s) (dentry_at s i)) FILE_NAME_LENGTH)\<rparr>;
            s = s\<lparr>mem := (mem s)(buf + 32 := 0)\<rparr>;
            d = load_dentry (mem s) (dentry_at s i)
        in and_then (printa ''file_name: %s, file_type: %d, file_size: %d\<newline>''
             [buf, file_type d, inode_length s (inode_at s (inode_num d))] s) (list_files_loop buf (i + 1))
      else Some (Inr s))"

definition list_all_files :: "u32 \<Rightarrow> 'a rofs_scheme \<Rightarrow> (fault + 'a rofs_scheme) option" where
  "list_all_files buf s = list_files_loop buf 0 (printk ''Listing all files in filesys_img:\<newline>'' s)"

section \<open>What it prints\<close>

definition entry_text :: "'a rofs_scheme \<Rightarrow> dentry \<Rightarrow> u8 list" where
  "entry_text s d = map of_char ''file_name: '' @ dentry_name d @ map of_char '', file_type: '' @ signed_text (sint (file_type d))
     @ map of_char '', file_size: '' @ signed_text (sint (inode_length s (inode_at s (inode_num d)))) @ [10]"

lemma printf_d: "printf_loop (37 # 100 # f) (v # vs) s = printf_loop f vs (fold putc (signed_text (sint v)) s)"
proof -
  obtain t where t: "conv_d (\<lambda>_. 0) v = Some (Inr t)" "is_str t (signed_text (sint v))" using conv_d_text by blast
  show ?thesis using printf_directive [OF t(2), of 100 False v s f vs] t(1) by simp
qed

lemma printf_s: "is_str (view (mem s) v) xs \<Longrightarrow> printf_loop (37 # 115 # f) (v # vs) s = printf_loop f vs (fold putc xs s)"
  using printf_directive [of "view (mem s) v" xs 115 False v s f vs] by simp

text \<open>The statement in the loop, when the buffer holds the name and is not on the screen.\<close>

lemma print_entry:
  fixes s :: "'a console_scheme"
  assumes name: "is_str (view (mem s) buf) xs" and off: "\<forall>k\<le>length xs. buf + of_nat k \<notin> text_cells" and s: "screen_inv s"
  shows "printa ''file_name: %s, file_type: %d, file_size: %d\<newline>'' [buf, t, n] s = Some (Inr (fold putc
    (map of_char ''file_name: '' @ xs @ map of_char '', file_type: '' @ signed_text (sint t)
      @ map of_char '', file_size: '' @ signed_text (sint n) @ [10]) s))"
proof -
  let ?p = "map of_char ''file_name: '' :: u8 list" and ?q = "map of_char '', file_type: '' :: u8 list"
    and ?r = "map of_char '', file_size: '' :: u8 list"
  have plain: "37 \<notin> set ?p" "37 \<notin> set ?q" "37 \<notin> set ?r" by simp_all
  have f: "map of_char ''file_name: %s, file_type: %d, file_size: %d\<newline>'' = ?p @ 37 # 115 # ?q @ 37 # 100 # ?r @ 37 # 100 # [10]"
    by simp
  have m: "mem (fold putc ?p s) a = mem s a" if "a \<notin> text_cells" for a
    by (rule con_step_mem [OF con.ok_fold s that])
  have "is_str (view (mem (fold putc ?p s)) buf) xs"
    using name off m unfolding is_str_def by (simp del: fold_simps list.map(2))
  note s1 = printf_s [OF this]
  have "printf_loop (?p @ 37 # 115 # ?q @ 37 # 100 # ?r @ 37 # 100 # [10]) [buf, t, n] s =
      Some (Inr (fold putc [10] (fold putc (signed_text (sint n)) (fold putc ?r (fold putc (signed_text (sint t))
        (fold putc ?q (fold putc xs (fold putc ?p s))))))))"
    unfolding printf_loop_append [OF plain(1)] s1 printf_loop_append [OF plain(2)] printf_d printf_loop_append [OF plain(3)]
    by (rule printf_loop_plain) simp
  then show ?thesis unfolding printa_def printf_def f
    by (simp only: option.case sum.case option.map map_sum.simps snd_conv fold_append comp_apply)
qed

text \<open>The name in the buffer.\<close>

lemma strncpy_name:
  "is_str ((strncpy dst src 32)(32 := 0)) (takeWhile (\<lambda>c. c \<noteq> 0) (map (\<lambda>i. src (of_nat i)) [0..<32]))"
proof -
  define names where "names = map (\<lambda>i. src (of_nat i)) [0..<32]"
  define xs where "xs = takeWhile (\<lambda>c. c \<noteq> 0) names"
  have names: "length names = 32" "\<And>i. i < 32 \<Longrightarrow> names ! i = src (of_nat i)" by (simp_all add: names_def del: upt_rec_numeral)
  have L: "length xs \<le> 32" using length_takeWhile_le [of "\<lambda>c. c \<noteq> 0" names] by (simp add: xs_def names)
  have x: "xs ! i = src (of_nat i)" "src (of_nat i) \<noteq> 0" if "i < length xs" for i
  proof -
    show 1: "xs ! i = src (of_nat i)" using that L names(2) [of i] by (simp add: xs_def takeWhile_nth)
    have "xs ! i \<in> set xs" using that by simp
    then show "src (of_nat i) \<noteq> 0" using set_takeWhileD [of "xs ! i" "\<lambda>c. c \<noteq> 0" names] 1 by (simp add: xs_def)
  qed
  have u: "unat (of_nat i :: u32) = i" if "i \<le> 32" for i using that by (simp add: unat_of_nat_small)
  have copied: "strncpy dst src 32 (of_nat i) = xs ! i" if i: "i < length xs" for i
  proof -
    have "src j \<noteq> 0" if "j \<le> of_nat i" for j
    proof -
      have "unat j \<le> i" using that u [of i] i L by (simp add: word_le_nat_alt)
      then show ?thesis using x(2) [of "unat j"] i by simp
    qed
    moreover have "(of_nat i :: u32) < 32" using i L u [of i] by (simp add: word_less_nat_alt)
    ultimately show ?thesis using x(1) [OF i] by (auto simp: strncpy_eq)
  qed
  have "((strncpy dst src 32)(32 := 0)) (of_nat (length xs)) = 0"
  proof (cases "length xs = 32")
    case False
    then have l: "length xs < 32" using L by simp
    then have "\<not> names ! length xs \<noteq> 0" using nth_length_takeWhile [of "\<lambda>c. c \<noteq> 0" names] by (simp add: xs_def names)
    then have "src (of_nat (length xs)) = 0" using names(2) l by simp
    then show ?thesis using l u [of "length xs"] by (auto simp: strncpy_eq word_less_nat_alt)
  qed simp
  moreover have "(of_nat i :: u32) \<noteq> 32" if "i < length xs" for i
  proof
    assume "(of_nat i :: u32) = 32"
    then have "unat (of_nat i :: u32) = 32" by simp
    then show False using u [of i] that L by simp
  qed
  moreover have nz: "0 \<notin> set xs" unfolding xs_def by (auto dest: set_takeWhileD)
  ultimately show ?thesis
    unfolding is_str_def names_def [symmetric] xs_def [symmetric]
    using L copied nz by simp
qed

section \<open>The whole directory\<close>

definition on_buf :: "u32 \<Rightarrow> u32 set" where
  "on_buf buf = (\<lambda>k. buf + of_nat k) ` {..32}"

text \<open>The image lies neither on the screen nor in the buffer, and the buffer not on the screen.\<close>

definition listable :: "u32 \<Rightarrow> 'a rofs_scheme \<Rightarrow> bool" where
  "listable buf s \<longleftrightarrow> on_buf buf \<inter> text_cells = {}
     \<and> (\<forall>m. (\<forall>a. a \<notin> text_cells \<union> on_buf buf \<longrightarrow> m a = mem s a) \<longrightarrow> fs_dir (s\<lparr>mem := m\<rparr>) = fs_dir s
          \<and> (\<forall>d\<in>set (fs_dir s). inode_length (s\<lparr>mem := m\<rparr>) (inode_at s (inode_num d)) = inode_length s (inode_at s (inode_num d))))"

definition looks :: "u32 \<Rightarrow> 'a rofs_scheme \<Rightarrow> 'a rofs_scheme \<Rightarrow> bool" where
  "looks buf s t \<longleftrightarrow> screen_inv t \<and> (\<exists>m i x y. t = s\<lparr>mem := m, io := i, screen_x := x, screen_y := y\<rparr>
     \<and> (\<forall>a. a \<notin> text_cells \<union> on_buf buf \<longrightarrow> m a = mem s a))"

lemma looks_refl: "screen_inv s \<Longrightarrow> looks buf s s"
proof -
  assume "screen_inv s"
  moreover have "s = s\<lparr>mem := mem s, io := io s, screen_x := screen_x s, screen_y := screen_y s\<rparr>" by simp
  ultimately show ?thesis unfolding looks_def by blast
qed

lemma looks_con: "looks buf s t \<Longrightarrow> con_step t u \<Longrightarrow> looks buf s u"
  unfolding looks_def con_step_def by force

lemma looks_buf:
  assumes l: "looks buf s t" and m: "\<forall>a. a \<notin> on_buf buf \<longrightarrow> m a = mem t a"
  shows "looks buf s (t\<lparr>mem := m\<rparr>)"
proof -
  obtain m' i x y where t: "t = s\<lparr>mem := m', io := i, screen_x := x, screen_y := y\<rparr>"
    "\<forall>a. a \<notin> text_cells \<union> on_buf buf \<longrightarrow> m' a = mem s a" "screen_inv t" using l by (auto simp: looks_def)
  have "t\<lparr>mem := m\<rparr> = s\<lparr>mem := m, io := i, screen_x := x, screen_y := y\<rparr>" by (simp add: t(1))
  moreover have "\<forall>a. a \<notin> text_cells \<union> on_buf buf \<longrightarrow> m a = mem s a" using m t(1,2) by simp
  moreover have "screen_inv (t\<lparr>mem := m\<rparr>)" using t(3) by (simp add: screen_inv_def)
  ultimately show ?thesis unfolding looks_def by blast
qed

lemma looks_dir:
  assumes "listable buf s" and "looks buf s t"
  shows "fs_dir t = fs_dir s" "d \<in> set (fs_dir s) \<Longrightarrow> inode_length t (inode_at t (inode_num d)) = inode_length s (inode_at s (inode_num d))"
proof -
  obtain m i x y where t: "t = s\<lparr>mem := m, io := i, screen_x := x, screen_y := y\<rparr>"
    "\<forall>a. a \<notin> text_cells \<union> on_buf buf \<longrightarrow> m a = mem s a" using assms(2) by (auto simp: looks_def)
  have "fs_dir t = fs_dir (s\<lparr>mem := m\<rparr>)" by (simp add: t(1) fs_dir_def dentry_at_def num_dir_entries_def)
  then show "fs_dir t = fs_dir s" using assms(1) t(2) by (simp add: listable_def)
  assume "d \<in> set (fs_dir s)"
  then have "inode_length (s\<lparr>mem := m\<rparr>) (inode_at s (inode_num d)) = inode_length s (inode_at s (inode_num d))"
    using assms(1) t(2) by (simp add: listable_def)
  then show "inode_length t (inode_at t (inode_num d)) = inode_length s (inode_at s (inode_num d))"
    by (simp add: t(1) inode_length_def inode_at_def)
qed

lemma fs_dir_nth: "unat i < length (fs_dir t) \<Longrightarrow> load_dentry (mem t) (dentry_at t i) = fs_dir t ! unat i"
  "length (fs_dir t) = unat (num_dir_entries t)"
  by (simp_all add: fs_dir_def)

lemma tty_of_same: "\<forall>a\<in>text_cells. mem t a = mem s a \<Longrightarrow> screen_x t = screen_x s \<Longrightarrow> screen_y t = screen_y s \<Longrightarrow> tty_of t = tty_of s"
  by (auto simp: tty_of_def text_cells_def)

lemma list_entry:
  fixes s t :: "'a rofs_scheme"
  assumes ok: "listable buf s" and l: "looks buf s t" and i: "unat i < length (fs_dir s)"
  shows "\<exists>u. list_files_loop buf i t = list_files_loop buf (i + 1) u \<and> looks buf s u
    \<and> tty_of u = fold tty_putc (entry_text s (fs_dir s ! unat i)) (tty_of t)"
proof -
  let ?d = "fs_dir s ! unat i"
  define v where "v = (strncpy (view (mem t) buf) (view (mem t) (dentry_at t i)) 32)(32 := 0)"
  define w where "w = t\<lparr>mem := place buf v\<rparr>"
  have keep: "place buf v a = mem t a" if "a \<notin> on_buf buf" for a
  proof -
    have "a = buf + of_nat (unat (a - buf))" by simp
    then have "\<not> unat (a - buf) \<le> 32" using that unfolding on_buf_def by blast
    then have "\<not> a - buf < 32" "a - buf \<noteq> 32" by (auto simp: word_less_nat_alt)
    then show ?thesis by (simp add: v_def strncpy_eq)
  qed
  have lw: "looks buf s w" unfolding w_def by (rule looks_buf [OF l]) (use keep in blast)
  note dir = looks_dir [OF ok l] looks_dir [OF ok lw]
  have d: "load_dentry (mem t) (dentry_at t i) = ?d" "load_dentry (mem w) (dentry_at w i) = ?d"
    using fs_dir_nth(1) [of i t] fs_dir_nth(1) [of i w] i dir(1,3) by simp_all
  have n: "inode_length w (inode_at w (inode_num ?d)) = inode_length s (inode_at s (inode_num ?d))"
    using dir(4) [of ?d] i by simp
  have "unat i < unat (num_dir_entries t)" using fs_dir_nth(2) [of t] i dir(1) by simp
  then have lt: "i < num_dir_entries t" by (simp add: word_less_nat_alt)
  have "file_name ?d = map (\<lambda>k. view (mem t) (dentry_at t i) (of_nat k)) [0..<32]"
    unfolding d(1) [symmetric] by (simp add: load_dentry_def del: upt_rec_numeral)
  then have name: "is_str (view (mem w) buf) (dentry_name ?d)"
    using strncpy_name [of "view (mem t) buf" "view (mem t) (dentry_at t i)"] by (simp add: w_def v_def dentry_name_def del: upt_rec_numeral)
  have "length (file_name ?d) = 32" unfolding d(1) [symmetric] by (simp add: load_dentry_def)
  then have "length (dentry_name ?d) \<le> 32" by (rule length_dentry_name)
  then have "\<forall>k\<le>length (dentry_name ?d). buf + of_nat k \<in> on_buf buf" by (auto simp: on_buf_def)
  moreover have "on_buf buf \<inter> text_cells = {}" using ok by (simp add: listable_def)
  ultimately have off: "\<forall>k\<le>length (dentry_name ?d). buf + of_nat k \<notin> text_cells" by blast
  have inv: "screen_inv w" using lw by (simp add: looks_def)
  define u where "u = fold putc (entry_text s ?d) w"
  have "printa ''file_name: %s, file_type: %d, file_size: %d\<newline>'' [buf, file_type ?d, inode_length w (inode_at w (inode_num ?d))] w = Some (Inr u)"
    unfolding print_entry [OF name off inv] u_def entry_text_def n ..
  moreover have "w = t\<lparr>mem := (place buf (strncpy (view (mem t) buf) (view (mem t) (dentry_at t i)) FILE_NAME_LENGTH))(buf + 32 := 0)\<rparr>"
    by (simp add: w_def v_def place_upd FILE_NAME_LENGTH_def)
  ultimately have "list_files_loop buf i t = list_files_loop buf (i + 1) u"
    using lt d(2) by (simp add: list_files_loop.simps [of buf i t] Let_def)
  moreover have "looks buf s u" unfolding u_def by (rule looks_con [OF lw con.ok_fold])
  moreover have "tty_of w = tty_of t"
    by (rule tty_of_same) (use keep ok in \<open>auto simp: w_def listable_def\<close>)
  then have "tty_of u = fold tty_putc (entry_text s ?d) (tty_of t)"
    using tty_of_fold [OF inv] unfolding u_def by simp
  ultimately show ?thesis by blast
qed

lemma list_files_loop_ok:
  "listable buf s \<Longrightarrow> looks buf s t \<Longrightarrow> unat i \<le> length (fs_dir s) \<Longrightarrow>
   \<exists>u. list_files_loop buf i t = Some (Inr u) \<and> looks buf s u
     \<and> tty_of u = fold tty_putc (concat (map (entry_text s) (drop (unat i) (fs_dir s)))) (tty_of t)"
proof (induction "length (fs_dir s) - unat i" arbitrary: i t)
  case 0
  then have "unat i = length (fs_dir s)" by simp
  moreover have "fs_dir t = fs_dir s" by (rule looks_dir [OF 0(2,3)])
  ultimately have "\<not> i < num_dir_entries t" using fs_dir_nth(2) [of t] by (simp add: word_less_nat_alt)
  then show ?case using 0 by (simp add: list_files_loop.simps [of buf i])
next
  case (Suc n)
  then have i: "unat i < length (fs_dir s)" by simp
  obtain u where u: "list_files_loop buf i t = list_files_loop buf (i + 1) u" "looks buf s u"
    "tty_of u = fold tty_putc (entry_text s (fs_dir s ! unat i)) (tty_of t)" using list_entry [OF Suc.prems(1,2) i] by blast
  have "i < num_dir_entries s" using i fs_dir_nth(2) [of s] by (simp add: word_less_nat_alt)
  then have i1: "unat (i + 1) = Suc (unat i)" by (rule word_Suc_less)
  have "\<exists>x. list_files_loop buf (i + 1) u = Some (Inr x) \<and> looks buf s x
     \<and> tty_of x = fold tty_putc (concat (map (entry_text s) (drop (unat (i + 1)) (fs_dir s)))) (tty_of u)"
    by (rule Suc.hyps(1) [OF _ Suc.prems(1) u(2)]) (use Suc.hyps(2) i i1 in simp_all)
  moreover have "drop (unat i) (fs_dir s) = fs_dir s ! unat i # drop (unat (i + 1)) (fs_dir s)"
    using i i1 by (simp add: Cons_nth_drop_Suc)
  ultimately show ?case using u(1,3) by simp
qed

text \<open>
  \<open>list_all_files\<close> prints its heading and then for each entry of the directory, in order, its name (of up to
  32 characters), type and size, and returns.
\<close>

lemma list_all_files_prints:
  assumes "listable buf s" and "screen_inv s"
  shows "\<exists>u. list_all_files buf s = Some (Inr u) \<and> tty_of u = fold tty_putc
    (map of_char ''Listing all files in filesys_img:\<newline>'' @ concat (map (entry_text s) (fs_dir s))) (tty_of s)"
proof -
  let ?h = "''Listing all files in filesys_img:\<newline>''"
  let ?t = "fold putc (map of_char ?h) s"
  have "looks buf s ?t" by (rule looks_con [OF looks_refl [OF assms(2)] con.ok_fold])
  from list_files_loop_ok [OF assms(1) this, of 0]
  obtain u where u: "list_files_loop buf 0 ?t = Some (Inr u)" "tty_of u = fold tty_putc (concat (map (entry_text s) (fs_dir s))) (tty_of ?t)"
    by (auto simp del: fold_simps list.map(2))
  have "printk ?h s = ?t" by (rule printk_plain) simp
  moreover have "tty_of ?t = fold tty_putc (map of_char ?h) (tty_of s)" using tty_of_fold [OF assms(2)] by blast
  ultimately show ?thesis using u by (auto simp: list_all_files_def simp del: fold_simps list.map(2))
qed

end
