(* ===== verification/Pingpong.thy ===== *)
theory Pingpong
  imports UserLib
begin

text \<open>
  The animation \<^verbatim>\<open>src/syscalls/ece391pingpong.c\<close>: a character that moves between two walls, one line
  for each tick of the real-time clock. It is shown what a line looks like, and that the program
  never returns.
\<close>

section \<open>The program\<close>

text \<open>The macros expand without parentheses; these are the values of the expressions they occur in.\<close>

definition BUFMAX :: int where "BUFMAX = 79 + 2"
definition START :: int where "START = 1"
definition STARTLOOP :: int where "STARTLOOP = 1 + 1"
definition LOOPMAX :: int where "LOOPMAX = 79 + 2 - 2 - 1"
definition STARTCHAR :: u8 where "STARTCHAR = 65"
definition ENDCHAR :: u8 where "ENDCHAR = 90"

declare BUFMAX_def [const_defs] START_def [const_defs] STARTLOOP_def [const_defs] LOOPMAX_def [const_defs]
  STARTCHAR_def [const_defs] ENDCHAR_def [const_defs]

function fill_spaces :: "bytes \<Rightarrow> int \<Rightarrow> int \<Rightarrow> bytes" where
  "fill_spaces buf i n = (if i < n then fill_spaces (buf(word_of_int i := 32)) (i + 1) n else buf)"
  by pat_completeness auto
termination
  by (relation "measure (\<lambda>(buf, i, n). nat (n - i))") auto

text \<open>One tick: the line with the character at \<open>j\<close>, and the wait for the clock.\<close>

definition frame_line :: "u8 \<Rightarrow> int \<Rightarrow> bytes \<Rightarrow> bytes" where
  "frame_line curchar j buf = (fill_spaces buf STARTLOOP LOOPMAX)(word_of_int j := curchar)"

definition tick :: "'s calls \<Rightarrow> int \<Rightarrow> bytes \<Rightarrow> u8 \<Rightarrow> int \<Rightarrow> bytes \<Rightarrow> 's \<Rightarrow> (bytes \<times> 's) option" where
  "tick C rtc_fd garbage curchar j buf s = do {
     let buf = frame_line curchar j buf;
     s \<leftarrow> ece391_fdputs C 1 buf s;
     (r, g, s) \<leftarrow> ece391_read C rtc_fd garbage 4 s;
     Some (buf, s)
   }"

function move_out :: "'s calls \<Rightarrow> int \<Rightarrow> bytes \<Rightarrow> u8 \<Rightarrow> int \<Rightarrow> bytes \<Rightarrow> 's \<Rightarrow> (bytes \<times> 's) option" where
  "move_out C rtc_fd garbage curchar j buf s =
     (if j < LOOPMAX then do {
        (buf, s) \<leftarrow> tick C rtc_fd garbage curchar j buf s;
        move_out C rtc_fd garbage curchar (j + 1) buf s
      } else Some (buf, s))"
  by pat_completeness auto
termination
  by (relation "measure (\<lambda>(C, rtc_fd, garbage, curchar, j, buf, s). nat (LOOPMAX - j))") auto

function move_back :: "'s calls \<Rightarrow> int \<Rightarrow> bytes \<Rightarrow> u8 \<Rightarrow> int \<Rightarrow> bytes \<Rightarrow> 's \<Rightarrow> (bytes \<times> 's) option" where
  "move_back C rtc_fd garbage curchar j buf s =
     (if j \<ge> STARTLOOP then do {
        (buf, s) \<leftarrow> tick C rtc_fd garbage curchar j buf s;
        move_back C rtc_fd garbage curchar (j - 1) buf s
      } else Some (buf, s))"
  by pat_completeness auto
termination
  by (relation "measure (\<lambda>(C, rtc_fd, garbage, curchar, j, buf, s). nat (j + 1 - STARTLOOP))") auto

declare fill_spaces.simps [simp del, loop_unfold] move_out.simps [simp del, loop_unfold]
  move_back.simps [simp del, loop_unfold]

definition next_char :: "u8 \<Rightarrow> u8" where
  "next_char curchar = (if curchar = ENDCHAR then STARTCHAR else curchar + 1)"

partial_function (option) bounce :: "'s calls \<Rightarrow> int \<Rightarrow> bytes \<Rightarrow> u8 \<Rightarrow> bytes \<Rightarrow> 's \<Rightarrow> (int \<times> 's) option" where
  "bounce C rtc_fd garbage curchar buf s = do {
     (buf, s) \<leftarrow> move_out C rtc_fd garbage curchar STARTLOOP buf s;
     (buf, s) \<leftarrow> move_back C rtc_fd garbage curchar (LOOPMAX - 1) buf s;
     bounce C rtc_fd garbage (next_char curchar) buf s
   }"

definition walls :: "bytes \<Rightarrow> bytes" where
  "walls buf =
     (let buf = fill_spaces buf 0 BUFMAX;
          buf = buf(word_of_int (BUFMAX - 1) := 0);
          buf = buf(word_of_int (BUFMAX - 2) := 10);
          buf = buf(word_of_int (BUFMAX - 3) := 124)
      in buf(word_of_int START := 124))"

text \<open>The frequency is written from the four bytes of the integer 32.\<close>

definition pingpong_main :: "'s calls \<Rightarrow> bytes \<Rightarrow> bytes \<Rightarrow> 's \<Rightarrow> (int \<times> 's) option" where
  "pingpong_main C buf garbage s = do {
     let buf = walls buf;
     (rtc_fd, s) \<leftarrow> ece391_open C (c_str ''rtc'') s;
     let ret_val = (\<lambda>i. if i = 0 then 32 else 0);
     (r, s) \<leftarrow> ece391_write C rtc_fd ret_val 4 s;
     bounce C rtc_fd garbage STARTCHAR buf s
   }"

section \<open>What it shows\<close>

lemma fill_spaces_eq:
  "0 \<le> i \<Longrightarrow> n < 2 ^ 32 \<Longrightarrow> fill_spaces buf i n = (\<lambda>k. if i \<le> uint k \<and> uint k < n then 32 else buf k)"
proof (induction buf i n rule: fill_spaces.induct)
  case (1 buf i n)
  show ?case
  proof (cases "i < n")
    case True
    have "uint (word_of_int i :: u32) = i" using True 1(2,3) by (simp add: unsigned_of_int take_bit_int_eq_self)
    then have k: "k = word_of_int i \<longleftrightarrow> uint k = i" for k :: u32 by (auto simp: word_uint_eq_iff)
    have "fill_spaces buf i n = fill_spaces (buf(word_of_int i := 32)) (i + 1) n"
      using True by (simp add: fill_spaces.simps [of buf])
    also have "\<dots> = (\<lambda>k. if i + 1 \<le> uint k \<and> uint k < n then 32 else (buf(word_of_int i := 32)) k)"
      by (rule 1(1)) (use True 1(2,3) in simp_all)
    also have "\<dots> = (\<lambda>k. if i \<le> uint k \<and> uint k < n then 32 else buf k)"
      using True by (auto simp: fun_eq_iff k)
    finally show ?thesis .
  qed (auto simp: fill_spaces.simps [of buf] fun_eq_iff)
qed

text \<open>The text of a line: the walls in columns 1 and 78, the character between them, 80 columns with the newline.\<close>

definition line_text :: "u8 \<Rightarrow> nat \<Rightarrow> u8 list" where
  "line_text c j = [32, 124] @ (replicate 76 32)[j - 2 := c] @ [124, 10]"

definition has_walls :: "bytes \<Rightarrow> bool" where
  "has_walls buf \<longleftrightarrow> buf 0 = 32 \<and> buf 1 = 124 \<and> buf 78 = 124 \<and> buf 79 = 10 \<and> buf 80 = 0"

lemma line_text_nth:
  assumes "2 \<le> j" "j < 78" "i < 80"
  shows "line_text c j ! i =
    (if i = j then c else if i = 0 then 32 else if i = 1 then 124 else if i < 78 then 32 else if i = 78 then 124 else 10)"
proof -
  define R where "R = (replicate 76 32)[j - 2 := c]"
  have R: "length R = 76" "\<And>k. k < 76 \<Longrightarrow> R ! k = (if k = j - 2 then c else 32)" by (simp_all add: R_def nth_list_update)
  have l: "line_text c j = 32 # 124 # R @ [124, 10]" by (simp add: line_text_def R_def)
  consider "i = 0" | "i = 1" | k where "i = Suc (Suc k)" by (cases i rule: nat.exhaust) (auto, metis One_nat_def not0_implies_Suc)
  then show ?thesis
  proof cases
    case 3
    have "(R @ [124, 10]) ! k = (if k < 76 then R ! k else if k = 76 then 124 else 10)"
      using 3 assms(3) by (simp add: nth_append R(1))
    then show ?thesis using 3 assms R(2) [of k] by (simp add: l) auto
  qed (use assms in \<open>simp_all add: l\<close>)
qed

lemma walls_ok: "has_walls (walls buf)"
  by (simp add: walls_def has_walls_def fill_spaces_eq const_defs)

lemma frame_line_ok:
  assumes w: "has_walls buf" and j: "2 \<le> j" "j < 78" and c: "c \<noteq> 0"
  shows "is_str (frame_line c (int j) buf) (line_text c j)" "has_walls (frame_line c (int j) buf)"
proof -
  have f: "frame_line c (int j) buf = (\<lambda>k. if k = of_nat j then c else if 2 \<le> uint k \<and> uint k < 78 then 32 else buf k)"
    by (simp add: frame_line_def fill_spaces_eq const_defs fun_eq_iff)
  have ne: "of_nat j \<noteq> (k :: u32)" if "unat k < 2 \<or> 78 \<le> unat k" for k
    using that j by (auto simp: unat_of_nat_small)
  show "has_walls (frame_line c (int j) buf)"
    using w ne [of 0] ne [of 1] ne [of 78] ne [of 79] ne [of 80] by (simp add: f has_walls_def)
  have len: "length (line_text c j) = 80" by (simp add: line_text_def)
  have at: "frame_line c (int j) buf (of_nat i) = line_text c j ! i" if i: "i < 80" for i
  proof -
    have u: "uint (of_nat i :: u32) = int i" using i by (simp add: unsigned_of_nat take_bit_nat_eq_self)
    have e: "(of_nat i :: u32) = of_nat j \<longleftrightarrow> i = j" using i j by (auto simp: word_unat_eq_iff unat_of_nat_small)
    have "i = 0 \<or> i = 1 \<or> 2 \<le> i \<and> i < 78 \<or> i = 78 \<or> i = 79" using i by linarith
    then show ?thesis
      using w u e by (auto simp: f line_text_nth [OF j i] has_walls_def)
  qed
  have "0 \<notin> set (line_text c j)"
    using c set_update_subset_insert [of "replicate 76 32" "j - 2" c] by (auto simp: line_text_def)
  moreover have "frame_line c (int j) buf 80 = 0" using w ne [of 80] by (simp add: f has_walls_def)
  ultimately show "is_str (frame_line c (int j) buf) (line_text c j)"
    using at by (simp add: is_str_def len)
qed

text \<open>Only the wait for the clock or the terminal stops the program, never its own code.\<close>

theorem bounce_never_returns: "bounce C rtc_fd garbage curchar buf s = None"
proof -
  have "bounce C rtc_fd garbage curchar buf s = Some r \<Longrightarrow> False" for r
  proof (rule bounce.raw_induct [where P = "\<lambda>C rtc_fd garbage curchar buf s r. False"])
    fix f :: "'a calls \<Rightarrow> int \<Rightarrow> bytes \<Rightarrow> u8 \<Rightarrow> bytes \<Rightarrow> 'a \<Rightarrow> (int \<times> 'a) option" and C rtc_fd garbage curchar buf s r
    assume "\<And>C rtc_fd garbage curchar buf s r. f C rtc_fd garbage curchar buf s = Some r \<Longrightarrow> False"
    moreover assume "(do {
       (buf, s) \<leftarrow> move_out C rtc_fd garbage curchar STARTLOOP buf s;
       (buf, s) \<leftarrow> move_back C rtc_fd garbage curchar (LOOPMAX - 1) buf s;
       f C rtc_fd garbage (next_char curchar) buf s
     }) = Some r"
    ultimately show False by (cases r) (auto simp: Option.bind_eq_Some_conv)
  qed
  then show ?thesis by (cases "bounce C rtc_fd garbage curchar buf s") auto
qed

end
