(* ===== verification/Grep.thy ===== *)
theory Grep
  imports Programs
begin

text \<open>
  \<^verbatim>\<open>src/syscalls/ece391grep.c\<close>: the search for a pattern in the lines of a file, through a buffer of 1024
  bytes in which the beginning of a line is carried over from one read to the next. For a file whose
  lines are shorter than the buffer it prints exactly the lines that contain the pattern.
\<close>

section \<open>The program\<close>

text \<open>The end of the line that starts at \<open>line_end\<close>.\<close>

function grep_line_end :: "bytes \<Rightarrow> int \<Rightarrow> int \<Rightarrow> int" where
  "grep_line_end data lst line_end =
     (if line_end < lst \<and> data (word_of_int line_end) \<noteq> 10 then grep_line_end data lst (line_end + 1)
      else line_end)"
  by pat_completeness auto
termination
  by (relation "measure (\<lambda>(data, lst, line_end). nat (lst - line_end))") auto

declare grep_line_end.simps [simp del, loop_unfold]

text \<open>The search in the line from \<open>line_start\<close> to \<open>line_end\<close>, and what is printed of it.\<close>

partial_function (option) grep_search ::
  "'s calls \<Rightarrow> bytes \<Rightarrow> bytes \<Rightarrow> u32 \<Rightarrow> bytes \<Rightarrow> int \<Rightarrow> int \<Rightarrow> int \<Rightarrow> 's \<Rightarrow> 's option" where
  "grep_search C str fname s_len data line_start line_end check s =
     (if check < line_end then do {
        d \<leftarrow> (if str 0 = data (word_of_int check)
             then ece391_strncmp (view data (word_of_int check)) str s_len else Some 1);
        if d = 0 then do {
          s \<leftarrow> ece391_fdputs C 1 fname s;
          s \<leftarrow> ece391_fdputs C 1 (c_str '':'') s;
          s \<leftarrow> ece391_fdputs C 1 (view data (word_of_int line_start)) s;
          ece391_fdputs C 1 (c_str ''\<newline>'') s
        } else grep_search C str fname s_len data line_start line_end (check + 1) s
      } else Some s)"

text \<open>The lines in the buffer: gives the buffer and how much of it the next read leaves.\<close>

partial_function (option) grep_lines ::
  "'s calls \<Rightarrow> bytes \<Rightarrow> bytes \<Rightarrow> u32 \<Rightarrow> int \<Rightarrow> bytes \<Rightarrow> int \<Rightarrow> int \<Rightarrow> 's \<Rightarrow> (bytes \<times> int \<times> 's) option" where
  "grep_lines C str fname s_len cnt data lst line_start s =
     (let line_end = grep_line_end data lst line_start
      in if data (word_of_int line_end) \<noteq> 10 \<and> 0 \<noteq> cnt \<and> line_start \<noteq> 0 then do {
           let data = data(word_of_int line_end := 0);
           data \<leftarrow> ece391_strcpy data 0 (word_of_int line_start);
           Some (data, lst - line_start, s)
         } else do {
           let data = data(word_of_int line_end := 0);
           s \<leftarrow> grep_search C str fname s_len data line_start line_end line_start s;
           let line_start = line_end + 1;
           if line_start \<ge> lst then Some (data, 0, s)
           else grep_lines C str fname s_len cnt data lst line_start s
         })"

partial_function (option) grep_file ::
  "'s calls \<Rightarrow> bytes \<Rightarrow> bytes \<Rightarrow> u32 \<Rightarrow> int \<Rightarrow> bytes \<Rightarrow> int \<Rightarrow> 's \<Rightarrow> (int \<times> 's) option" where
  "grep_file C str fname s_len fd data lst s = do {
     (cnt, part, s) \<leftarrow> ece391_read C fd (view data (word_of_int lst)) (1024 - lst) s;
     let data = place (word_of_int lst) part;
     if cnt = - 1 then do {
       s \<leftarrow> ece391_fdputs C 1 (c_str ''file read failed\<newline>'') s;
       Some (- 1, s)
     } else do {
       (data, lst, s) \<leftarrow> grep_lines C str fname s_len cnt data (lst + cnt) 0 s;
       if 0 = cnt then do {
         (r, s) \<leftarrow> ece391_close C fd s;
         if r = - 1 then do {
           s \<leftarrow> ece391_fdputs C 1 (c_str ''file close failed\<newline>'') s;
           Some (- 1, s)
         } else Some (0, s)
       } else grep_file C str fname s_len fd data lst s
     }
   }"

definition do_one_file :: "'s calls \<Rightarrow> bytes \<Rightarrow> bytes \<Rightarrow> bytes \<Rightarrow> 's \<Rightarrow> (int \<times> 's) option" where
  "do_one_file C data str fname s = do {
     s_len \<leftarrow> ece391_strlen str;
     (fd, s) \<leftarrow> ece391_open C fname s;
     if fd = - 1 then do {
       s \<leftarrow> ece391_fdputs C 1 (c_str ''file open failed\<newline>'') s;
       Some (- 1, s)
     } else grep_file C str fname s_len fd data 0 s
   }"

partial_function (option) grep_loop ::
  "'s calls \<Rightarrow> bytes \<Rightarrow> bytes \<Rightarrow> int \<Rightarrow> bytes \<Rightarrow> 's \<Rightarrow> (int \<times> 's) option" where
  "grep_loop C data search fd buf s = do {
     (cnt, buf, s) \<leftarrow> ece391_read C fd buf 32 s;
     if 0 \<noteq> cnt then
       if cnt = - 1 then do {
         s \<leftarrow> ece391_fdputs C 1 (c_str ''directory entry read failed\<newline>'') s;
         Some (3, s)
       } else if buf 0 = 46 then grep_loop C data search fd buf s
       else do {
         let buf = buf(word_of_int cnt := 0);
         (r, s) \<leftarrow> do_one_file C data search buf s;
         if r \<noteq> 0 then Some (3, s) else grep_loop C data search fd buf s
       }
     else Some (0, s)
   }"

definition grep_main :: "'s calls \<Rightarrow> bytes \<Rightarrow> bytes \<Rightarrow> bytes \<Rightarrow> 's \<Rightarrow> (int \<times> 's) option" where
  "grep_main C data buf search s = do {
     (r, search, s) \<leftarrow> ece391_getargs C search 1024 s;
     if 0 \<noteq> r then do {
       s \<leftarrow> ece391_fdputs C 1 (c_str ''could not read argument\<newline>'') s;
       Some (3, s)
     } else do {
       (fd, s) \<leftarrow> ece391_open C (c_str ''.'') s;
       if fd = - 1 then do {
         s \<leftarrow> ece391_fdputs C 1 (c_str ''directory open failed\<newline>'') s;
         Some (2, s)
       } else grep_loop C data search fd buf s
     }
   }"

section \<open>Lines\<close>

text \<open>The lines of a text: what stands before each newline, and what stands after the last, if anything.\<close>

fun text_lines :: "u8 list \<Rightarrow> u8 list list" where
  "text_lines xs =
     (if xs = [] then []
      else takeWhile (\<lambda>c. c \<noteq> 10) xs # text_lines (drop (Suc (length (takeWhile (\<lambda>c. c \<noteq> 10) xs))) xs))"

declare text_lines.simps [simp del, loop_unfold]

lemma text_lines_Nil [simp]: "text_lines [] = []"
  by (simp add: text_lines.simps)

lemma text_lines_single: "10 \<notin> set xs \<Longrightarrow> text_lines xs = (if xs = [] then [] else [xs])"
proof -
  assume "10 \<notin> set xs"
  then have t: "takeWhile (\<lambda>c. c \<noteq> 10) xs = xs" by (auto simp: takeWhile_eq_all_conv)
  show ?thesis by (subst text_lines.simps) (simp only: t, simp)
qed

lemma text_lines_Cons: "10 \<notin> set l \<Longrightarrow> text_lines (l @ 10 # xs) = l # text_lines xs"
proof -
  assume "10 \<notin> set l"
  then have "takeWhile (\<lambda>c. c \<noteq> 10) (l @ 10 # xs) = l" by (subst takeWhile_append2) auto
  then show ?thesis by (simp add: text_lines.simps [of "l @ 10 # xs"])
qed

text \<open>What \<open>grep\<close> should print of a line: the name of the file, a colon and the line, if the pattern is in it.\<close>

definition occurs_at :: "u8 list \<Rightarrow> u8 list \<Rightarrow> nat \<Rightarrow> bool" where
  "occurs_at pat l i \<longleftrightarrow> take (length pat) (drop i l) = pat"

definition report_line :: "u8 list \<Rightarrow> u8 list \<Rightarrow> u8 list \<Rightarrow> u8 list" where
  "report_line pat name l = (if \<exists>i<length l. occurs_at pat l i then name @ [58] @ l @ [10] else [])"

definition report_lines :: "u8 list \<Rightarrow> u8 list \<Rightarrow> u8 list list \<Rightarrow> u8 list" where
  "report_lines pat name ls = concat (map (report_line pat name) ls)"

lemma report_lines_simps [simp]:
  "report_lines pat name [] = []" "report_lines pat name (l # ls) = report_line pat name l @ report_lines pat name ls"
  "report_lines pat name (ls @ ks) = report_lines pat name ls @ report_lines pat name ks"
  by (simp_all add: report_lines_def)

lemma report_line_Nil [simp]: "report_line pat name [] = []"
  by (simp add: report_line_def)

section \<open>The pieces of the search\<close>

lemma grep_line_end_eq:
  assumes "\<forall>i. k \<le> i \<and> i < n \<longrightarrow> data (of_nat i) = xs ! i" and "n = length xs" and "k \<le> n"
  shows "grep_line_end data (int n) (int k) = int (k + length (takeWhile (\<lambda>c. c \<noteq> 10) (drop k xs)))"
  using assms
proof (induction "n - k" arbitrary: k)
  case 0
  then show ?case by (simp add: grep_line_end.simps)
next
  case (Suc d)
  then have k: "k < n" by simp
  have dk: "data (word_of_int (int k)) = xs ! k" using Suc.prems(1) k by simp
  have dr: "drop k xs = xs ! k # drop (Suc k) xs" using k Suc.prems(2) by (simp add: Cons_nth_drop_Suc)
  have IH: "grep_line_end data (int n) (int (Suc k)) = int (Suc k + length (takeWhile (\<lambda>c. c \<noteq> 10) (drop (Suc k) xs)))"
    by (rule Suc.hyps(1)) (use Suc.hyps(2) Suc.prems k in auto)
  show ?case
  proof (cases "xs ! k = 10")
    case True
    then show ?thesis using dk by (simp add: grep_line_end.simps [of data "int n" "int k"] dr)
  next
    case False
    then have "grep_line_end data (int n) (int k) = grep_line_end data (int n) (int (Suc k))"
      using dk k by (simp add: grep_line_end.simps [of data "int n" "int k"] add.commute)
    then show ?thesis using IH False by (simp add: dr)
  qed
qed

text \<open>\<open>ece391_strncmp\<close> with the length of the pattern finds whether the pattern is in front.\<close>

lemma ece391_strncmp_loop_prefix:
  assumes a: "is_str a xs" "is_str b pat" and len: "length pat < 2 ^ 31"
  shows "i < length pat \<Longrightarrow> i \<le> length xs \<Longrightarrow> take i xs = take i pat \<Longrightarrow>
    \<exists>d. ece391_strncmp_loop a b (of_nat (length pat - i)) (of_nat i) = Some d \<and> (d = 0 \<longleftrightarrow> take (length pat) xs = pat)"
proof (induction "length pat - i" arbitrary: i)
  case (Suc m)
  have b: "b (of_nat i) = pat ! i" "pat ! i \<noteq> 0" using a(2) Suc.prems(1) by (auto simp: is_str_def in_set_conv_nth)
  let ?n = "of_nat (length pat - i) :: u32"
  show ?case
  proof (cases "i < length xs \<and> xs ! i = pat ! i")
    case True
    then have ai: "a (of_nat i) = pat ! i" using a(1) by (simp add: is_str_def)
    have t: "take (Suc i) xs = take (Suc i) pat"
      using True Suc.prems(1,3) by (simp add: take_Suc_conv_app_nth)
    have n: "?n - 1 = of_nat (length pat - Suc i)"
    proof -
      have "length pat - i = Suc (length pat - Suc i)" using Suc.prems(1) by simp
      then show ?thesis by simp
    qed
    have u: "unat (of_nat (length pat - Suc i) :: u32) = length pat - Suc i" using len by (simp add: unat_of_nat_small)
    show ?thesis
    proof (cases "Suc i < length pat")
      case more: True
      then have "(of_nat (length pat - Suc i) :: u32) \<noteq> 0" using u by (metis diff_is_0_eq not_less unat_0)
      then have "ece391_strncmp_loop a b ?n (of_nat i) = ece391_strncmp_loop a b (of_nat (length pat - Suc i)) (of_nat (Suc i))"
        using ai b n by (simp add: ece391_strncmp_loop.simps [of a b ?n "of_nat i"] add.commute)
      then show ?thesis using Suc.hyps(1) [of "Suc i"] Suc.hyps(2) more True t by simp
    next
      case False
      then have i: "Suc i = length pat" using Suc.prems(1) by simp
      then have "?n - 1 = 0" using n by simp
      then have "ece391_strncmp_loop a b ?n (of_nat i) = Some 0"
        using ai b by (subst ece391_strncmp_loop.simps) (simp only: Let_def if_True refl if_False)
      then show ?thesis using t i by simp
    qed
  next
    case False
    have "a (of_nat i) \<noteq> pat ! i \<and> take (length pat) xs \<noteq> pat"
    proof (cases "i < length xs")
      case True
      then have "xs ! i \<noteq> pat ! i" using False by simp
      moreover have "take (length pat) xs ! i = xs ! i" using Suc.prems(1) True by simp
      ultimately show ?thesis using True a(1) by (auto simp: is_str_def)
    next
      case False
      then have "i = length xs" using Suc.prems by simp
      then show ?thesis using a(1) b Suc.prems(1) by (auto simp: is_str_def)
    qed
    then show ?thesis using b by (auto simp: ece391_strncmp_loop.simps [of a b ?n "of_nat i"] word_uint_eq_iff)
  qed
qed simp

lemma ece391_strncmp_prefix:
  assumes "is_str a xs" and "is_str b pat" and "pat \<noteq> []" and "length pat < 2 ^ 31"
  shows "\<exists>d. ece391_strncmp a b (of_nat (length pat)) = Some d \<and> (d = 0 \<longleftrightarrow> take (length pat) xs = pat)"
proof -
  have "length pat < 2 ^ 32" using assms(4) by simp
  then have "unat (of_nat (length pat) :: u32) = length pat" by (rule unat_of_nat_small)
  then have "(of_nat (length pat) :: u32) \<noteq> 0" using assms(3) by (metis length_0_conv unat_0)
  then show ?thesis
    using ece391_strncmp_loop_prefix [OF assms(1,2,4), of 0] assms(3) by (simp add: ece391_strncmp_def)
qed

text \<open>The move of the beginning of a line to the front of the buffer; it goes up through the bytes, so that the overlap does no harm.\<close>

lemma ece391_strcpy_down:
  assumes "\<forall>i<length c. m (of_nat (p + i)) = c ! i" and "m (of_nat (p + length c)) = 0" and "0 \<notin> set c"
    and "d < p" and "p + length c < 2 ^ 32"
  shows "\<exists>m'. ece391_strcpy m (of_nat d) (of_nat p) = Some m' \<and> (\<forall>i<length c. m' (of_nat (d + i)) = c ! i)
    \<and> (\<forall>a. unat a < d \<or> d + length c < unat a \<longrightarrow> m' a = m a)"
  using assms
proof (induction c arbitrary: m p d)
  case Nil
  then have "ece391_strcpy m (of_nat d) (of_nat p) = Some (m(of_nat d := 0))" by (simp add: ece391_strcpy.simps Let_def)
  then show ?case using Nil.prems(4,5) by (auto simp: unat_of_nat_small)
next
  case (Cons x c)
  let ?m = "m(of_nat d := x)"
  have x: "m (of_nat p) = x" "x \<noteq> 0" using Cons.prems(1) [rule_format, of 0] Cons.prems(3) by auto
  have ne: "(of_nat (Suc p + i) :: u32) \<noteq> of_nat d" if "i \<le> length c" for i
  proof
    have "unat (of_nat (Suc p + i) :: u32) = Suc p + i" "unat (of_nat d :: u32) = d"
      by (rule unat_of_nat_small; use that Cons.prems(4,5) in simp)+
    moreover assume "(of_nat (Suc p + i) :: u32) = of_nat d"
    ultimately have "Suc p + i = d" by metis
    then show False using Cons.prems(4) by simp
  qed
  have "\<forall>i<length c. ?m (of_nat (Suc p + i)) = c ! i"
  proof (intro allI impI)
    fix i assume i: "i < length c"
    then have "m (of_nat (p + Suc i)) = (x # c) ! Suc i" using Cons.prems(1) by (simp del: of_nat_add of_nat_Suc add_Suc_right)
    then show "?m (of_nat (Suc p + i)) = c ! i" using ne [of i] i by simp
  qed
  moreover have "?m (of_nat (Suc p + length c)) = 0" using Cons.prems(2) ne [of "length c"] by simp
  ultimately have "\<exists>m'. ece391_strcpy ?m (of_nat (Suc d)) (of_nat (Suc p)) = Some m'
    \<and> (\<forall>i<length c. m' (of_nat (Suc d + i)) = c ! i) \<and> (\<forall>a. unat a < Suc d \<or> Suc d + length c < unat a \<longrightarrow> m' a = ?m a)"
    by (rule Cons.IH) (use Cons.prems in simp_all)
  then obtain m' where m': "ece391_strcpy ?m (of_nat (Suc d)) (of_nat (Suc p)) = Some m'"
    "\<forall>i<length c. m' (of_nat (Suc d + i)) = c ! i" "\<forall>a. unat a < Suc d \<or> Suc d + length c < unat a \<longrightarrow> m' a = ?m a" by blast
  have "ece391_strcpy m (of_nat d) (of_nat p) = Some m'"
    using m'(1) x by (simp add: ece391_strcpy.simps [of m "of_nat d"] Let_def add.commute)
  moreover have "m' (of_nat (d + i)) = (x # c) ! i" if "i < length (x # c)" for i
  proof (cases i)
    case 0
    have "unat (of_nat d :: u32) < Suc d" using Cons.prems(4,5) by (simp add: unat_of_nat_small)
    then show ?thesis using 0 m'(3) by simp
  next
    case (Suc k)
    then show ?thesis using m'(2) that by simp
  qed
  moreover have "m' a = m a" if "unat a < d \<or> d + length (x # c) < unat a" for a
  proof -
    have "a \<noteq> of_nat d" using that Cons.prems(4,5) by (auto simp: unat_of_nat_small)
    then show ?thesis using m'(3) that by auto
  qed
  ultimately show ?case by blast
qed

section \<open>What the search prints\<close>

text \<open>From \<open>s\<close> to \<open>t\<close> the program wrote \<open>xs\<close>, and what the file has left to deliver is the same.\<close>

definition wrote :: "('s \<Rightarrow> bool) \<Rightarrow> ('s \<Rightarrow> tty) \<Rightarrow> ('s \<Rightarrow> u8 list) \<Rightarrow> u8 list \<Rightarrow> 's \<Rightarrow> 's \<Rightarrow> bool" where
  "wrote ok out rest xs s t \<longleftrightarrow> ok t \<and> rest t = rest s \<and> out t = fold tty_putc xs (out s)"

lemma wrote_ok: "wrote ok out rest xs s t \<Longrightarrow> ok t"
  by (simp add: wrote_def)

lemma wrote_trans: "wrote ok out rest xs s t \<Longrightarrow> wrote ok out rest ys t u \<Longrightarrow> wrote ok out rest (xs @ ys) s u"
  by (simp add: wrote_def)

lemma wrote_refl: "ok s \<Longrightarrow> wrote ok out rest [] s s"
  by (simp add: wrote_def)

context text_file
begin

lemma puts_wrote:
  assumes "ok s" and "is_str str xs" and "length xs < 2 ^ 31"
  shows "\<exists>t. ece391_fdputs C 1 str s = Some t \<and> wrote ok out rest xs s t"
proof -
  obtain t where t: "ece391_fdputs C 1 str s = Some t" "ok t" "out t = fold tty_putc xs (out s)"
    using fdputs_ok [OF assms] by blast
  then obtain r where "ece391_write C 1 str (sint (of_nat (length xs) :: u32)) s = Some (r, t)"
    by (auto simp: ece391_fdputs_def ece391_strlen_str [OF assms(2)] bind_eq_Some_conv)
  then have "rest t = rest s" by (rule write_rest [OF assms(1)])
  then show ?thesis using t by (simp add: wrote_def)
qed

text \<open>The four calls that print a line.\<close>

lemma print_line_wrote:
  assumes "ok s" and "is_str fname name" "length name < 2 ^ 31" and "is_str l line" "length line < 2 ^ 31"
  shows "\<exists>t. do {
      s \<leftarrow> ece391_fdputs C 1 fname s;
      s \<leftarrow> ece391_fdputs C 1 (c_str '':'') s;
      s \<leftarrow> ece391_fdputs C 1 l s;
      ece391_fdputs C 1 (c_str ''\<newline>'') s
    } = Some t \<and> wrote ok out rest (name @ [58] @ line @ [10]) s t"
proof -
  obtain t where t: "ece391_fdputs C 1 fname s = Some t" "wrote ok out rest name s t"
    using puts_wrote [OF assms(1-3)] by blast
  have "is_str (c_str '':'') [58]" using is_str_c_str [of "'':''"] by simp
  then obtain u where u: "ece391_fdputs C 1 (c_str '':'') t = Some u" "wrote ok out rest [58] t u"
    using puts_wrote [OF wrote_ok [OF t(2)]] by force
  obtain v where v: "ece391_fdputs C 1 l u = Some v" "wrote ok out rest line u v"
    using puts_wrote [OF wrote_ok [OF u(2)] assms(4,5)] by blast
  have "is_str (c_str ''\<newline>'') [10]" using is_str_c_str [of "''\<newline>''"] by simp
  then obtain w where w: "ece391_fdputs C 1 (c_str ''\<newline>'') v = Some w" "wrote ok out rest [10] v w"
    using puts_wrote [OF wrote_ok [OF v(2)]] by force
  have "wrote ok out rest (name @ [58] @ line @ [10]) s w"
    by (intro wrote_trans [OF t(2)] wrote_trans [OF u(2)] wrote_trans [OF v(2)] w(2))
  then show ?thesis using t(1) u(1) v(1) w(1) by simp
qed

end

text \<open>The test at one position: the first character is compared before the others.\<close>

lemma occurs_test:
  assumes l: "is_str (view data (of_nat p)) line" and k: "k < length line"
    and pat: "is_str str pat" "pat \<noteq> []" "length pat < 2 ^ 31"
  shows "\<exists>d. (if str 0 = data (of_nat (p + k))
      then ece391_strncmp (view data (of_nat (p + k))) str (of_nat (length pat)) else Some 1) = Some d
    \<and> (d = 0 \<longleftrightarrow> occurs_at pat line k)"
proof -
  have c: "data (of_nat (p + k)) = line ! k" using l k by (simp add: is_str_def)
  have "data (of_nat p + (of_nat k + of_nat i)) = line ! (k + i)" if "i < length line - k" for i
  proof -
    have "\<forall>j<length line. view data (of_nat p) (of_nat j) = line ! j" using l by (simp add: is_str_def)
    then have "view data (of_nat p) (of_nat (k + i)) = line ! (k + i)" by (rule allE [where x = "k + i"]) (use that in simp)
    then show ?thesis by simp
  qed
  then have "is_str (view data (of_nat (p + k))) (drop k line)"
    using l k by (auto simp: is_str_def add.assoc of_nat_diff dest: in_set_dropD)
  from ece391_strncmp_prefix [OF this pat]
  obtain d where d: "ece391_strncmp (view data (of_nat (p + k))) str (of_nat (length pat)) = Some d"
    "d = 0 \<longleftrightarrow> occurs_at pat line k" by (auto simp: occurs_at_def)
  have s0: "str 0 = pat ! 0" using pat by (auto simp: is_str_def)
  have "\<not> occurs_at pat line k" if "pat ! 0 \<noteq> line ! k"
  proof
    assume "occurs_at pat line k"
    then have "take (length pat) (drop k line) ! 0 = pat ! 0" by (simp add: occurs_at_def)
    then show False using that pat(2) k by simp
  qed
  then show ?thesis using c d s0 by (cases "pat ! 0 = line ! k") auto
qed

context text_file
begin

text \<open>The search from position \<open>k\<close> of the line that starts at \<open>p\<close>.\<close>

lemma grep_search_ok:
  assumes pat: "is_str str pat" "pat \<noteq> []" "length pat < 2 ^ 31" and name: "is_str fname name" "length name < 2 ^ 31"
    and s: "ok s" and l: "is_str (view data (of_nat p)) line" "length line < 2 ^ 31"
  shows "k \<le> length line \<Longrightarrow>
    \<exists>t. grep_search C str fname (of_nat (length pat)) data (int p) (int (p + length line)) (int (p + k)) s = Some t
      \<and> wrote ok out rest (if \<exists>i<length line. k \<le> i \<and> occurs_at pat line i then name @ [58] @ line @ [10] else []) s t"
proof (induction "length line - k" arbitrary: k)
  case 0
  then show ?case using s
    by (intro exI [of _ s]) (auto simp: grep_search.simps [of C str fname _ data "int p"] wrote_refl)
next
  case (Suc m)
  then have k: "k < length line" by simp
  let ?go = "\<lambda>k. grep_search C str fname (of_nat (length pat)) data (int p) (int (p + length line)) (int (p + k)) s"
  obtain d where d: "(if str 0 = data (of_nat (p + k))
      then ece391_strncmp (view data (of_nat (p + k))) str (of_nat (length pat)) else Some 1) = Some d"
    "d = 0 \<longleftrightarrow> occurs_at pat line k"
    using occurs_test [OF l(1) k pat] by blast
  have go: "?go k = (if d = 0 then do {
      s \<leftarrow> ece391_fdputs C 1 fname s;
      s \<leftarrow> ece391_fdputs C 1 (c_str '':'') s;
      s \<leftarrow> ece391_fdputs C 1 (view data (of_nat p)) s;
      ece391_fdputs C 1 (c_str ''\<newline>'') s
    } else ?go (Suc k))"
    unfolding grep_search.simps [of C str fname _ data "int p" "int (p + length line)" "int (p + k)"]
      of_int_of_nat_eq d(1) using k by (simp add: add.commute)
  show ?case
  proof (cases "occurs_at pat line k")
    case True
    then have "\<exists>i<length line. k \<le> i \<and> occurs_at pat line i" using k by blast
    then show ?thesis using go d(2) True print_line_wrote [OF s name l] by simp
  next
    case False
    then have "(\<exists>i<length line. k \<le> i \<and> occurs_at pat line i) = (\<exists>i<length line. Suc k \<le> i \<and> occurs_at pat line i)"
      by (metis Suc_leD Suc_le_eq le_eq_less_or_eq)
    then show ?thesis using go d(2) False Suc.hyps(1) [of "Suc k"] Suc.hyps(2) k by simp
  qed
qed

lemma grep_search_line:
  assumes "is_str str pat" "pat \<noteq> []" "length pat < 2 ^ 31" and "is_str fname name" "length name < 2 ^ 31"
    and "ok s" and "is_str (view data (of_nat p)) line" "length line < 2 ^ 31"
  shows "\<exists>t. grep_search C str fname (of_nat (length pat)) data (int p) (int (p + length line)) (int p) s = Some t
      \<and> wrote ok out rest (report_line pat name line) s t"
  using grep_search_ok [OF assms, of 0] by (simp add: report_line_def)

end

section \<open>The lines of one buffer\<close>

text \<open>The buffer holds \<open>xs\<close> from index \<open>k\<close> on, and the line that starts there.\<close>

definition holds :: "bytes \<Rightarrow> nat \<Rightarrow> u8 list \<Rightarrow> bool" where
  "holds data k xs \<longleftrightarrow> k \<le> length xs \<and> length xs \<le> 1024 \<and> 0 \<notin> set xs \<and> (\<forall>i. k \<le> i \<and> i < length xs \<longrightarrow> data (of_nat i) = xs ! i)"

definition line_at :: "u8 list \<Rightarrow> nat \<Rightarrow> u8 list" where
  "line_at xs k = takeWhile (\<lambda>c. c \<noteq> 10) (drop k xs)"

lemma line_at_set: "10 \<notin> set (line_at xs k)" "0 \<notin> set xs \<Longrightarrow> 0 \<notin> set (line_at xs k)"
  by (auto simp: line_at_def dest: set_takeWhileD in_set_dropD)

lemma line_at_le: "k \<le> length xs \<Longrightarrow> k + length (line_at xs k) \<le> length xs"
  using length_takeWhile_le [of "\<lambda>c. c \<noteq> 10" "drop k xs"] by (simp add: line_at_def)

lemma line_at_nth: "i < length (line_at xs k) \<Longrightarrow> k \<le> length xs \<Longrightarrow> line_at xs k ! i = xs ! (k + i)"
  using length_takeWhile_le [of "\<lambda>c. c \<noteq> 10" "drop k xs"] by (simp add: line_at_def takeWhile_nth)

lemma line_at_inside:
  assumes "k + length (line_at xs k) < length xs"
  shows "xs ! (k + length (line_at xs k)) = 10" "drop k xs = line_at xs k @ 10 # drop (Suc (k + length (line_at xs k))) xs"
proof -
  let ?n = "length (line_at xs k)"
  have n: "?n < length (drop k xs)" using assms by simp
  then have 10: "drop k xs ! ?n = 10" using nth_length_takeWhile [of "\<lambda>c. c \<noteq> 10" "drop k xs"] by (simp add: line_at_def)
  then show "xs ! (k + ?n) = 10" using assms by simp
  have "take ?n (drop k xs) = line_at xs k" by (simp add: line_at_def takeWhile_eq_take [symmetric])
  then show "drop k xs = line_at xs k @ 10 # drop (Suc (k + ?n)) xs"
    using id_take_nth_drop [OF n] 10 by (simp add: add.commute)
qed

lemma line_at_rest: "k + length (line_at xs k) = length xs \<Longrightarrow> line_at xs k = drop k xs"
proof -
  assume "k + length (line_at xs k) = length xs"
  then have "length (line_at xs k) = length (drop k xs)" by simp
  then show ?thesis unfolding line_at_def by (metis takeWhile_eq_take take_all order_refl)
qed

lemma holds_line_end:
  "holds data k xs \<Longrightarrow> grep_line_end data (int (length xs)) (int k) = int (k + length (line_at xs k))"
  unfolding holds_def line_at_def by (rule grep_line_end_eq) auto

lemma holds_line_str:
  assumes h: "holds data k xs" and "e = k + length (line_at xs k)"
  shows "is_str (view (data(of_nat e := 0)) (of_nat k)) (line_at xs k)"
proof -
  let ?l = "line_at xs k"
  have e: "e \<le> length xs" "length xs \<le> 1024" "k \<le> length xs" using line_at_le [of k xs] h assms(2) by (simp_all add: holds_def)
  have "(data(of_nat e := 0)) (of_nat (k + i)) = ?l ! i" if i: "i < length ?l" for i
  proof -
    have "(of_nat (k + i) :: u32) \<noteq> of_nat e" using i e assms(2) by (simp add: word_unat_eq_iff unat_of_nat_small del: of_nat_add)
    moreover have "data (of_nat (k + i)) = xs ! (k + i)" using h i e assms(2) by (simp add: holds_def del: of_nat_add)
    ultimately show ?thesis using line_at_nth [OF i e(3)] by (simp del: of_nat_add)
  qed
  then show ?thesis using assms e line_at_set(2) [of xs k] by (auto simp: is_str_def holds_def)
qed

lemma holds_after: "holds data k xs \<Longrightarrow> e < length xs \<Longrightarrow> k \<le> e \<Longrightarrow> holds (data(of_nat e := 0)) (Suc e) xs"
  by (auto simp: holds_def word_unat_eq_iff unat_of_nat_small)

text \<open>The start of an unfinished line is moved to the front of the buffer.\<close>

lemma carry_down:
  assumes h: "holds data k xs" and e: "length xs = k + length (line_at xs k)" and k: "0 < k" and g: "data 1024 \<noteq> 10"
  shows "\<exists>data'. ece391_strcpy (data(of_nat (length xs) := 0)) 0 (of_nat k) = Some data'
    \<and> holds data' 0 (line_at xs k) \<and> length (line_at xs k) < 1024 \<and> data' 1024 \<noteq> 10"
proof -
  let ?l = "line_at xs k" and ?d = "data(of_nat (length xs) := 0)"
  have L: "length xs \<le> 1024" using h by (simp add: holds_def)
  have str: "is_str (view ?d (of_nat k)) ?l" using holds_line_str [OF h e] .
  obtain data' where m: "ece391_strcpy ?d (of_nat 0) (of_nat k) = Some data'" "\<forall>i<length ?l. data' (of_nat (0 + i)) = ?l ! i"
    "\<forall>a. unat a < 0 \<or> 0 + length ?l < unat a \<longrightarrow> data' a = ?d a"
    using ece391_strcpy_down [of ?l ?d k 0] str k L e by (auto simp: is_str_def)
  have "unat (1024 :: u32) = 1024" by simp
  then have "data' 1024 = ?d 1024" using m(3) k L e by (metis add_0 le_add_same_cancel2 le_less_trans less_add_same_cancel2 linorder_not_less)
  then have "data' 1024 \<noteq> 10" using g by simp
  moreover have "holds data' 0 ?l" using m(2) L e str by (simp add: holds_def is_str_def)
  ultimately show ?thesis using m(1) k L e by auto
qed

context text_file
begin

text \<open>
  What the loop over a buffer does: it reports the lines \<open>ls\<close> that end in it and leaves the beginning
  \<open>c\<close> of the next line to the next read. \<open>F\<close> is what the file still holds behind the buffer.
\<close>

definition lines_done :: "u8 list \<Rightarrow> u8 list \<Rightarrow> int \<Rightarrow> u8 list \<Rightarrow> u8 list \<Rightarrow> 's \<Rightarrow> (bytes \<times> int \<times> 's) option \<Rightarrow> bool" where
  "lines_done pat name cnt xs F s r \<longleftrightarrow> (\<exists>data' c t ls. r = Some (data', int (length c), t)
     \<and> text_lines (xs @ F) = ls @ text_lines (c @ F) \<and> wrote ok out rest (report_lines pat name ls) s t
     \<and> holds data' 0 c \<and> length c < 1024 \<and> data' 1024 \<noteq> 10 \<and> (cnt = 0 \<longrightarrow> c = []))"

lemma lines_done_empty:
  assumes "r = Some (data', 0, t)" and "text_lines (xs @ F) = ls @ text_lines F"
    and "wrote ok out rest (report_lines pat name ls) s t" and "data' 1024 \<noteq> 10"
  shows "lines_done pat name cnt xs F s r"
  unfolding lines_done_def using assms
  by (intro exI [of _ data'] exI [of _ "[]"] exI [of _ t] exI [of _ ls]) (simp add: holds_def)

lemma lines_done_step:
  assumes "lines_done pat name cnt ys F t r" and "wrote ok out rest (report_line pat name l) s t"
    and "text_lines (xs @ F) = l # text_lines (ys @ F)"
  shows "lines_done pat name cnt xs F s r"
proof -
  obtain data' c u ls where d: "r = Some (data', int (length c), u)" "text_lines (ys @ F) = ls @ text_lines (c @ F)"
    "wrote ok out rest (report_lines pat name ls) t u" "holds data' 0 c" "length c < 1024" "data' 1024 \<noteq> 10" "cnt = 0 \<longrightarrow> c = []"
    using assms(1) unfolding lines_done_def by blast
  have "wrote ok out rest (report_lines pat name (l # ls)) s u"
    using wrote_trans [OF assms(2) d(3)] by simp
  then show ?thesis unfolding lines_done_def using d assms(3)
    by (intro exI [of _ data'] exI [of _ c] exI [of _ u] exI [of _ "l # ls"]) simp
qed

end

context text_file
begin

lemma grep_lines_ok:
  assumes pat: "is_str str pat" "pat \<noteq> []" "length pat < 2 ^ 31" and name: "is_str fname name" "length name < 2 ^ 31"
    and F: "F = [] \<or> cnt \<noteq> 0 \<and> length xs = 1024 \<and> 10 \<in> set xs"
  shows "ok s \<Longrightarrow> holds data k xs \<Longrightarrow> data 1024 \<noteq> 10 \<Longrightarrow>
    lines_done pat name cnt (drop k xs) F s
      (grep_lines C str fname (of_nat (length pat)) cnt data (int (length xs)) (int k) s)"
proof (induction "length xs - k" arbitrary: k data s rule: less_induct)
  case less
  let ?l = "line_at xs k" and ?slen = "of_nat (length pat) :: u32"
  define e where "e = k + length ?l"
  let ?d = "data(of_nat e := 0)" and ?r = "grep_lines C str fname ?slen cnt data (int (length xs)) (int k) s"
  have L: "length xs \<le> 1024" "k \<le> length xs" "e \<le> length xs"
    using less.prems(2) line_at_le [of k xs] by (simp_all add: holds_def e_def)
  have str: "is_str (view ?d (of_nat k)) ?l" by (rule holds_line_str [OF less.prems(2) e_def])
  have ll: "length ?l < 2 ^ 31" using L by (simp add: e_def)
  obtain t where t: "grep_search C str fname ?slen ?d (int k) (int e) (int k) s = Some t"
    "wrote ok out rest (report_line pat name ?l) s t"
    using grep_search_line [OF pat name less.prems(1) str ll] unfolding e_def by blast
  have r: "?r = (if data (of_nat e) \<noteq> 10 \<and> 0 \<noteq> cnt \<and> k \<noteq> 0
      then do { data \<leftarrow> ece391_strcpy ?d 0 (of_nat k); Some (data, int (length xs - k), s) }
      else if length xs \<le> e + 1 then Some (?d, 0, t)
      else grep_lines C str fname ?slen cnt ?d (int (length xs)) (int (Suc e)) t)"
    unfolding grep_lines.simps [of C str fname ?slen cnt data] holds_line_end [OF less.prems(2)] e_def [symmetric]
      Let_def of_int_of_nat_eq t(1)
    using L by (simp add: of_nat_diff add.commute)
  have d: "?d 1024 \<noteq> 10" using less.prems(3) by simp
  show ?case
  proof (cases "e < length xs")
    case True
    then have x: "xs ! e = 10" and dr: "drop k xs = ?l @ 10 # drop (Suc e) xs"
      using line_at_inside [of k xs] by (simp_all add: e_def)
    have ten: "data (of_nat e) = 10" using less.prems(2) True x unfolding holds_def by (simp add: e_def del: of_nat_add)
    have tl: "text_lines (drop k xs @ F) = ?l # text_lines (drop (Suc e) xs @ F)"
      unfolding dr using text_lines_Cons [OF line_at_set(1)] by simp
    show ?thesis
    proof (cases "Suc e < length xs")
      case more: True
      have "lines_done pat name cnt (drop (Suc e) xs) F t
          (grep_lines C str fname ?slen cnt ?d (int (length xs)) (int (Suc e)) t)"
        by (rule less.hyps [OF _ wrote_ok [OF t(2)] holds_after [OF less.prems(2) True] d])
          (use True in \<open>simp_all add: e_def\<close>)
      then show ?thesis using lines_done_step [OF _ t(2) tl] r ten more by simp
    next
      case False
      then have "?r = Some (?d, 0, t)" using r ten by simp
      moreover have "text_lines (drop k xs @ F) = [?l] @ text_lines F" using tl False by simp
      ultimately show ?thesis by (rule lines_done_empty) (use t(2) d in simp_all)
    qed
  next
    case False
    then have e: "length xs = k + length ?l" using L(3) by (simp add: e_def)
    then have l: "?l = drop k xs" using line_at_rest by simp
    show ?thesis
    proof (cases "data (of_nat e) \<noteq> 10 \<and> 0 \<noteq> cnt \<and> k \<noteq> 0")
      case True
      then obtain data' where c: "ece391_strcpy ?d 0 (of_nat k) = Some data'" "holds data' 0 ?l" "length ?l < 1024" "data' 1024 \<noteq> 10"
        using carry_down [OF less.prems(2) e _ less.prems(3)] e by (auto simp: e_def)
      have "length xs - k = length ?l" using e by simp
      then have "?r = Some (data', int (length ?l), s)" using True by (simp only: r c(1)) simp
      then show ?thesis unfolding lines_done_def l [symmetric] using c(2-4) True less.prems(1)
        by (intro exI [of _ data'] exI [of _ ?l] exI [of _ s] exI [of _ "[]"]) (simp add: wrote_refl)
    next
      case no: False
      have "F = []"
      proof (rule ccontr)
        assume "F \<noteq> []"
        then have f: "cnt \<noteq> 0" "length xs = 1024" "10 \<in> set xs" using F by auto
        then have "k = 0" using no e less.prems(3) by (auto simp: e_def)
        then show False using f(3) l line_at_set(1) [of xs k] by simp
      qed
      have "length xs \<le> e + 1" using False by simp
      then have "?r = Some (?d, 0, t)" unfolding r if_not_P [OF no] by simp
      moreover have "text_lines (drop k xs @ F) = (if ?l = [] then [] else [?l]) @ text_lines F"
        using \<open>F = []\<close> l text_lines_single [OF line_at_set(1) [of xs k]] by simp
      moreover have "wrote ok out rest (report_lines pat name (if ?l = [] then [] else [?l])) s t"
        using t(2) by (cases "?l = []") simp_all
      ultimately show ?thesis by (rule lines_done_empty) (rule d)
    qed
  qed
qed

end

section \<open>The whole file\<close>

text \<open>The piece that is read behind what the buffer already holds.\<close>

lemma holds_append:
  assumes "holds data 0 c" and "length c + length ys \<le> 1024" and "0 \<notin> set ys"
    and b: "\<forall>i<length ys. b (of_nat i) = ys ! i" "\<forall>k. length ys \<le> unat k \<longrightarrow> b k = view data (of_nat (length c)) k"
  shows "holds (place (of_nat (length c)) b) 0 (c @ ys)"
proof -
  have "place (of_nat (length c)) b (of_nat i) = (c @ ys) ! i" if i: "i < length c + length ys" for i
  proof (cases "i < length c")
    case True
    have "unat (of_nat i :: u32) = i" "unat (of_nat (length c) :: u32) = length c"
      by (rule unat_of_nat_small; use True assms(2) in simp)+
    then have "unat (of_nat i - of_nat (length c) :: u32) = 2 ^ 32 - (length c - i)"
      using True by (simp add: unat_sub_if' word_le_nat_alt)
    then have "length ys \<le> unat (of_nat i - of_nat (length c) :: u32)" using assms(2) True by simp
    then have "place (of_nat (length c)) b (of_nat i) = data (of_nat i)" using b(2) by simp
    then show ?thesis using assms(1) True by (simp add: holds_def nth_append)
  next
    case False
    then have w: "(of_nat i - of_nat (length c) :: u32) = of_nat (i - length c)" by (simp add: of_nat_diff)
    show ?thesis unfolding place_apply w using b(1) [rule_format, of "i - length c"] False i by (simp add: nth_append)
  qed
  then show ?thesis using assms(1-3) by (simp add: holds_def)
qed

lemma place_behind:
  assumes "length c + length ys \<le> 1024" and "\<forall>k. length ys \<le> unat k \<longrightarrow> b k = view data (of_nat (length c)) k"
  shows "place (of_nat (length c)) b 1024 = data 1024"
proof -
  have "(1024 :: u32) - of_nat (length c) = of_nat (1024 - length c)" using assms(1) by (simp add: of_nat_diff)
  moreover have "unat (of_nat (1024 - length c) :: u32) = 1024 - length c" by (rule unat_of_nat_small) simp
  ultimately have "length ys \<le> unat ((1024 :: u32) - of_nat (length c))" using assms(1) by simp
  then show ?thesis using assms(2) by simp
qed

text \<open>A full buffer has the end of a line in it when all lines are shorter.\<close>

lemma full_buffer_newline:
  assumes "\<forall>l\<in>set (text_lines (xs @ F)). length l < 1024" and "length xs = 1024"
  shows "10 \<in> set xs"
proof (rule ccontr)
  assume "10 \<notin> set xs"
  then have "takeWhile (\<lambda>c. c \<noteq> 10) (xs @ F) = xs @ takeWhile (\<lambda>c. c \<noteq> 10) F"
    by (subst takeWhile_append2) auto
  moreover have "takeWhile (\<lambda>c. c \<noteq> 10) (xs @ F) \<in> set (text_lines (xs @ F))"
    using assms(2) text_lines.simps [of "xs @ F"] by auto
  ultimately show False using assms by force
qed

text \<open>And when the file can be closed.\<close>

locale closing_file = text_file C ok out fd rest for C :: "'s calls" and ok and out and fd and rest +
  assumes close_ok: "ok s \<Longrightarrow> \<exists>t. ece391_close C fd s = Some (0, t) \<and> out t = out s"
begin

lemma grep_file_ok:
  assumes pat: "is_str str pat" "pat \<noteq> []" "length pat < 2 ^ 31" and name: "is_str fname name" "length name < 2 ^ 31"
  shows "ok s \<Longrightarrow> holds data 0 c \<Longrightarrow> length c < 1024 \<Longrightarrow> data 1024 \<noteq> 10 \<Longrightarrow> 0 \<notin> set (rest s) \<Longrightarrow>
    \<forall>l\<in>set (text_lines (c @ rest s)). length l < 1024 \<Longrightarrow>
    \<exists>t. grep_file C str fname (of_nat (length pat)) fd data (int (length c)) s = Some (0, t)
      \<and> out t = fold tty_putc (report_lines pat name (text_lines (c @ rest s))) (out s)"
proof (induction "length (rest s)" arbitrary: c data s rule: less_induct)
  case less
  let ?n = "1024 - length c" and ?slen = "of_nat (length pat) :: u32"
  let ?ys = "take ?n (rest s)" and ?F = "drop ?n (rest s)"
  have n: "int ?n = 1024 - int (length c)" "0 < ?n" "?n < 2 ^ 31" using less.prems(3) by (simp_all add: of_nat_diff)
  obtain b u where u: "ece391_read C fd (view data (of_nat (length c))) (int ?n) s = Some (int (length ?ys), b, u)"
    "ok u" "out u = out s" "rest u = ?F" "\<forall>i<length ?ys. b (of_nat i) = ?ys ! i"
    "\<forall>k. length ?ys \<le> unat k \<longrightarrow> b k = view data (of_nat (length c)) k"
    using read_ok [OF less.prems(1) n(3) refl] by blast
  let ?d = "place (of_nat (length c)) b" and ?xs = "c @ ?ys"
  have len: "length c + length ?ys \<le> 1024" using less.prems(3) by simp
  have h: "holds ?d 0 ?xs"
    by (rule holds_append [OF less.prems(2) len _ u(5,6)]) (use less.prems(5) in \<open>auto dest: in_set_takeD\<close>)
  have g: "?d 1024 \<noteq> 10" using place_behind [OF len u(6)] less.prems(4) by simp
  have all: "c @ rest s = ?xs @ ?F" by simp
  have cnt: "length ?ys = 0 \<longleftrightarrow> rest s = []" using n(2) by (cases "rest s") auto
  have "?F = [] \<or> int (length ?ys) \<noteq> 0 \<and> length ?xs = 1024 \<and> 10 \<in> set ?xs"
  proof (cases "?F = []")
    case False
    then have "length ?xs = 1024" using less.prems(3) by simp
    then show ?thesis using False cnt full_buffer_newline [of ?xs ?F] less.prems(6) unfolding all by auto
  qed simp
  from grep_lines_ok [OF pat name this u(2) h g]
  obtain d' c' v ls where v: "grep_lines C str fname ?slen (int (length ?ys)) ?d (int (length ?xs)) 0 u = Some (d', int (length c'), v)"
    "text_lines (?xs @ ?F) = ls @ text_lines (c' @ ?F)" "wrote ok out rest (report_lines pat name ls) u v"
    "holds d' 0 c'" "length c' < 1024" "d' 1024 \<noteq> 10" "int (length ?ys) = 0 \<longrightarrow> c' = []"
    unfolding lines_done_def by auto
  have w: "ok v" "rest v = ?F" "out v = fold tty_putc (report_lines pat name ls) (out s)"
    using v(3) u(3,4) by (simp_all add: wrote_def)
  have r: "grep_file C str fname ?slen fd data (int (length c)) s =
      (if 0 = int (length ?ys) then do {
         (r, s) \<leftarrow> ece391_close C fd v;
         if r = - 1 then do { s \<leftarrow> ece391_fdputs C 1 (c_str ''file close failed\<newline>'') s; Some (- 1, s) }
         else Some (0, s)
       } else grep_file C str fname ?slen fd d' (int (length c')) v)"
    using u(1) v(1) n(1) unfolding grep_file.simps [of C str fname ?slen fd data] of_int_of_nat_eq by simp
  show ?case
  proof (cases "rest s = []")
    case True
    obtain t where "ece391_close C fd v = Some (0, t)" "out t = out v" using close_ok [OF w(1)] by blast
    then show ?thesis using r cnt v(2,7) True w(3) by simp
  next
    case False
    have "0 < length (rest s)" using False by simp
    then have "length (rest v) < length (rest s)" unfolding w(2) length_drop using n(2) by (rule diff_less [rotated])
    moreover have "0 \<notin> set (rest v)" "\<forall>l\<in>set (text_lines (c' @ rest v)). length l < 1024"
      using less.prems(5,6) v(2) unfolding w(2) all by (auto dest: in_set_dropD)
    ultimately obtain t where t: "grep_file C str fname ?slen fd d' (int (length c')) v = Some (0, t)"
      "out t = fold tty_putc (report_lines pat name (text_lines (c' @ ?F))) (out v)"
      using less.hyps [OF _ w(1) v(4-6)] unfolding w(2) by blast
    have "out t = fold tty_putc (report_lines pat name (text_lines (c @ rest s))) (out s)"
      unfolding all v(2) t(2) w(3) by simp
    moreover have "0 \<noteq> int (length ?ys)" using cnt False by (metis of_nat_eq_0_iff)
    ultimately show ?thesis using t(1) unfolding r by (metis (no_types))
  qed
qed

end

section \<open>On the kernel\<close>

lemma kernel_close:
  assumes "file_ready fd s"
  shows "\<exists>t. ece391_close (kernel_calls T dev ex ga) fd s = Some (0, t) \<and> tty_of t = tty_of s"
proof -
  let ?t = "upd_file (get_current_pcb s) (nat fd) (\<lambda>f. f\<lparr>flags := flags f AND NOT FILE_OPEN\<rparr>) s"
  have "sys_close dev fd s = (0, ?t)"
    using assms by (simp add: file_ready_def sys_close_def MAX_FILES_def file_ops_def file_close_def)
  moreover have "tty_of ?t = tty_of s" by (simp add: tty_of_def)
  ultimately show ?thesis by (simp add: kernel_calls_def)
qed

interpretation kernel_closing: closing_file "kernel_calls T dev ex ga" "file_ready fd" tty_of fd "file_rest fd"
  for T dev ex ga fd
  by unfold_locales (rule kernel_close)

text \<open>
  Claim C21. \<open>grep\<close> on one file, run on the kernel's own system calls, prints exactly the lines of the
  file in which the pattern occurs, each behind the name of the file and a colon, in the order of the
  file, and returns 0, whatever the length of the file: a line that crosses the end of the buffer of 1024
  bytes is moved to its front and completed by the next read. The lines have to be shorter than the
  buffer, and the byte behind it, which the program tests before it was written, must not be a newline.
\<close>

theorem grep_prints_matches:
  fixes s :: "'a kernel_scheme"
  assumes "is_str str pat" and "pat \<noteq> []" and "length pat < 2 ^ 31" and "is_str fname name" and "length name < 2 ^ 31"
    and "read_dentry_by_name s fname = Some d" and "file_type d = FILE_TYPE_FILE"
    and "find_slot 6 2 (cur_files s) = Some i" and "stdout_ok s"
    and "inode_ok s (inode_num d)" and "off_screen s (inode_num d)"
    and "\<forall>l\<in>set (text_lines (map show_char (file_bytes s (inode_num d)))). length l < 1024" and "data 1024 \<noteq> 10"
  shows "\<exists>t. do_one_file (kernel_calls T dev ex ga) data str fname s = Some (0, t)
    \<and> tty_of t = fold tty_putc (report_lines pat name (text_lines (map show_char (file_bytes s (inode_num d))))) (tty_of s)"
proof -
  obtain u where u: "sys_open dev (Some fname) s = (int i, u)" "file_ready (int i) u" "tty_of u = tty_of s"
    "file_rest (int i) u = map show_char (file_bytes s (inode_num d))"
    using file_ready_open [OF assms(6-11)] by blast
  have z: "0 \<notin> set (file_rest (int i) u)" using show_char_nonzero by (auto simp: u(4))
  have h: "holds data 0 []" by (simp add: holds_def)
  have l: "\<forall>l\<in>set (text_lines ([] @ file_rest (int i) u)). length l < 1024" using assms(12) u(4) by simp
  have "length ([] :: u8 list) < 1024" by simp
  from kernel_closing.grep_file_ok [OF assms(1-5) u(2) h this assms(13) z l, of T dev ex ga]
  obtain t where t: "grep_file (kernel_calls T dev ex ga) str fname (of_nat (length pat)) (int i) data 0 u = Some (0, t)"
    "tty_of t = fold tty_putc (report_lines pat name (text_lines (file_rest (int i) u))) (tty_of u)"
    by auto
  have "ece391_open (kernel_calls T dev ex ga) fname s = Some (int i, u)" using u(1) by (simp add: kernel_calls_def)
  then show ?thesis using t u(3,4) by (simp add: do_one_file_def ece391_strlen_str [OF assms(1)])
qed

theorem grep_prints_matches_witness:
  "\<exists>t. do_one_file (kernel_calls some_tables (\<lambda>_ _. 0) (\<lambda>_ s. None) (\<lambda>b n s. None)) (\<lambda>_. 0) (c_str ''i'') (c_str ''a'') proc_kernel
      = Some (0, t)
    \<and> tty_of t = fold tty_putc (map of_char ''a:hi \<newline>'') (tty_of proc_kernel)"
proof -
  let ?d = "load_dentry tiny_image 0x500040"
  have d: "file_type ?d = FILE_TYPE_FILE" "inode_num ?d = 0"
    by (simp_all add: load_dentry_def load32_def tiny_image_def const_defs)
  have slot: "find_slot 6 2 (cur_files proc_kernel) = Some 2"
    by (simp add: proc_kernel_files find_slot_Some new_files_eq is_open_def blank_file_def)
  have img: "file_bytes proc_kernel 0 = [104, 105, 1]" "inode_ok proc_kernel 0"
    using proc_kernel_image [of "mem proc_kernel"] by simp_all
  have o: "off_screen proc_kernel 0"
    unfolding off_screen_def img using proc_kernel_image img by blast
  have str: "is_str (c_str ''i'') [105]" "is_str (c_str ''a'') [97]"
    using is_str_c_str [of "''i''"] is_str_c_str [of "''a''"] by simp_all
  have l: "text_lines [104, 105, 32 :: u8] = [[104, 105, 32]]" by (simp add: text_lines_single)
  have r: "report_line [105] [97] [104, 105, 32] = map of_char ''a:hi \<newline>''"
    by (simp add: report_line_def occurs_at_def) (intro exI [of _ 1], simp)
  show ?thesis
    using grep_prints_matches [where dev = "\<lambda>_ _. 0" and ex = "\<lambda>_ s. None" and ga = "\<lambda>b n s. None" and T = some_tables
        and data = "\<lambda>_. 0" and s = proc_kernel and i = 2, OF str(1) _ _ str(2) _ proc_kernel_lookup d(1) slot proc_kernel_stdout] img o
    by (simp add: d(2) show_char_def l r)
qed

end
