(* ===== verification/Sigtest.thy ===== *)
theory Sigtest
  imports System Programs
begin

text \<open>
  \<^verbatim>\<open>src/syscalls/ece391sigtest.c\<close>: a program that stores through a null pointer and expects that the
  kernel calls its signal handler. The kernel of this repository has no signals: the store is a page
  fault, which ends the program.
\<close>

section \<open>The program\<close>

definition SEGFAULT :: int where "SEGFAULT = 1"
definition ALARM :: int where "ALARM = 3"

text \<open>The static variable \<open>badbuf\<close> is a null pointer until the handler sets it.\<close>

definition badbuf :: u32 where "badbuf = 0"

text \<open>The line about the signal that both handlers print.\<close>

definition put_signum :: "'s calls \<Rightarrow> int \<Rightarrow> 's \<Rightarrow> 's option" where
  "put_signum C signum s =
     (if signum = 0 then ece391_fdputs C 1 (c_str ''0\<newline>'') s
      else if signum = 1 then ece391_fdputs C 1 (c_str ''1\<newline>'') s
      else if signum = 2 then ece391_fdputs C 1 (c_str ''2\<newline>'') s
      else if signum = 3 then ece391_fdputs C 1 (c_str ''3\<newline>'') s
      else ece391_fdputs C 1 (c_str ''invalid\<newline>'') s)"

text \<open>
  The handler gives the new \<open>badbuf\<close> and the value it writes over the saved \<open>eax\<close> in the frame that
  the kernel pushed: both are the address of \<open>charbuf\<close>.
\<close>

definition segfault_sighandler :: "'s calls \<Rightarrow> u32 \<Rightarrow> bytes \<Rightarrow> int \<Rightarrow> 's \<Rightarrow> (u32 \<times> u32 \<times> 's) option" where
  "segfault_sighandler C charbuf_at buf signum s = do {
     s \<leftarrow> ece391_fdputs C 1 (c_str ''Segfault signal handler called, signum: '') s;
     s \<leftarrow> put_signum C signum s;
     s \<leftarrow> ece391_fdputs C 1 (c_str ''Press enter to continue...\<newline>'') s;
     (n, buf, s) \<leftarrow> ece391_read C 0 buf 1 s;
     let badbuf = charbuf_at;
     let eax = charbuf_at;
     s \<leftarrow> ece391_fdputs C 1 (c_str ''Signal handler returning\<newline>'') s;
     Some (badbuf, eax, s)
   }"

definition alarm_sighandler :: "'s calls \<Rightarrow> int \<Rightarrow> 's \<Rightarrow> 's option" where
  "alarm_sighandler C signum s = do {
     s \<leftarrow> ece391_fdputs C 1 (c_str ''Alarm signal handler called, signum: '') s;
     put_signum C signum s
   }"

text \<open>
  \<open>main\<close>. \<open>store\<close> is what a store of user code does, \<open>charbuf\<close> reads the static variable, and
  \<open>segv\<close> and \<open>alarm\<close> are the addresses of the handlers.
\<close>

definition sigtest_main ::
  "'s calls \<Rightarrow> (u32 \<Rightarrow> u8 \<Rightarrow> 's \<Rightarrow> fault + 's) \<Rightarrow> ('s \<Rightarrow> u8) \<Rightarrow> u32 \<Rightarrow> u32 \<Rightarrow> bytes \<Rightarrow> 's \<Rightarrow> ((fault + int) \<times> 's) option"
where
  "sigtest_main C store charbuf segv alarm buf s = do {
     (r, buf, s) \<leftarrow> ece391_getargs C buf 1024 s;
     if 0 \<noteq> r then do {
       s \<leftarrow> ece391_fdputs C 1 (c_str ''could not read argument\<newline>'') s;
       Some (Inr 3, s)
     } else do {
       s \<leftarrow> (if buf 0 = 49 then do {
           s \<leftarrow> ece391_fdputs C 1 (c_str ''Installing signal handlers\<newline>'') s;
           (r, s) \<leftarrow> ece391_set_handler C SEGFAULT segv s;
           (r, s) \<leftarrow> ece391_set_handler C ALARM alarm s;
           Some s
         } else Some s);
       s \<leftarrow> ece391_fdputs C 1 (c_str ''Hi, what's your name? '') s;
       (cnt, buf, s) \<leftarrow> ece391_read C 0 buf 1023 s;
       if - 1 = cnt then do {
         s \<leftarrow> ece391_fdputs C 1 (c_str ''Can't read name from keyboard.\<newline>'') s;
         Some (Inr 3, s)
       } else
         case store badbuf 1 s of
           Inl e \<Rightarrow> Some (Inl e, s)
         | Inr s \<Rightarrow> do {
             let buf = buf(word_of_int cnt := 0);
             s \<leftarrow> ece391_fdputs C 1 (c_str ''Hello, '') s;
             s \<leftarrow> ece391_fdputs C 1 buf s;
             s \<leftarrow> (if charbuf s = 1 then ece391_fdputs C 1 (c_str ''success\<newline>'') s
                  else ece391_fdputs C 1 (c_str ''failure\<newline>'') s);
             Some (Inr 0, s)
           }
     }
   }"

section \<open>On the kernel\<close>

text \<open>A store of user code, by the page tables as the processor has them.\<close>

definition user_poke :: "tables \<Rightarrow> u32 \<Rightarrow> u8 \<Rightarrow> 'a kernel_scheme \<Rightarrow> fault + 'a kernel_scheme" where
  "user_poke T v x s =
     (case translate T s v of
        Some (a, True) \<Rightarrow> Inr (s\<lparr>mem := (mem s)(a := x)\<rparr>)
      | _ \<Rightarrow> Inl PageFault)"

lemma null_store_faults: "tables_ok T \<Longrightarrow> maps_ok T s \<Longrightarrow> user_poke T badbuf x s = Inl PageFault"
  using walk_kernel_pages [of T "walked s" 0]
  by (auto simp: user_poke_def translate_def maps_ok_def badbuf_def dir_index_def split: option.splits bool.splits)

text \<open>The question, asked and answered, changes nothing that the exception needs.\<close>

lemma ask_keeps:
  assumes "ece391_fdputs (kernel_calls T dev ex ga) 1 (c_str q) s = Some p"
    and "ece391_read (kernel_calls T dev ex ga) 0 buf n p = Some (r, b, t)" and "stdout_ok s"
    and "length q < 2 ^ 31" and "list_all (\<lambda>c. (of_char c :: u8) \<noteq> 0) q"
  shows "kern_same s t"
proof -
  have "p = fold putc (map of_char q) s" using kernel_says [OF assms(3-5)] assms(1) by simp
  then have "kern_same s p" using kern_same_con [OF con.ok_fold] by simp
  moreover have "sys_read 0 (Some buf) n p = Some (Inr (r, Some b, t))"
    using assms(2) by (simp add: kernel_calls_def split: option.splits sum.splits prod.splits)
  then have "kern_same p t" by (rule kern_same_drv [OF sys_read_step])
  ultimately show ?thesis by (rule kern_same_trans)
qed

text \<open>What the program has printed when it stores: whether it installed the handlers makes no other difference.\<close>

definition sigtest_says :: "bytes \<Rightarrow> string" where
  "sigtest_says arg = (if arg 0 = 49 then ''Installing signal handlers\<newline>'' else []) @ ''Hi, what's your name? ''"

lemma sigtest_stores:
  fixes s :: "'a kernel_scheme"
  assumes s: "stdin_ok s" "line_waits s line" "length line < 128" and ga: "ga buf 1024 s = Some (0, arg, s)"
    and f: "\<And>t. kern_same s t \<Longrightarrow> store badbuf 1 t = Inl e"
  shows "\<exists>t. sigtest_main (kernel_calls T dev ex ga) store charbuf segv alarm buf s = Some (Inl e, t)
    \<and> kern_same s t \<and> tty_of t = fold tty_putc (map of_char (sigtest_says arg)) (tty_of s)"
proof -
  let ?C = "kernel_calls T dev ex ga" and ?h = "''Installing signal handlers\<newline>''" and ?q = "''Hi, what's your name? ''"
  have so: "stdout_ok s" "screen_inv s" using s(1) by (simp_all add: stdin_ok_def stdout_ok_def)
  define i where "i = (if arg 0 = 49 then fold putc (map of_char ?h) s else s)"
  have i: "stdin_ok i" "line_waits i line" "kern_same s i"
    "tty_of i = fold tty_putc (map of_char (if arg 0 = 49 then ?h else [])) (tty_of s)"
    using s stdin_fold [OF s(1)] line_waits_fold [OF s(2)] kern_same_con [OF con.ok_fold, of s "map of_char ?h"]
      tty_of_fold [OF so(2), of "map of_char ?h"]
    by (simp_all add: i_def del: fold_simps list.map(2))
  have install: "(if arg 0 = 49 then do {
        s \<leftarrow> ece391_fdputs ?C 1 (c_str ?h) s;
        (r, s) \<leftarrow> ece391_set_handler ?C SEGFAULT segv s;
        (r, s) \<leftarrow> ece391_set_handler ?C ALARM alarm s;
        Some s
      } else Some s) = Some i"
    using kernel_says [OF so(1), of ?h T dev ex ga] by (simp add: i_def kernel_calls_def del: fold_simps list.map(2))
  obtain p b t where t: "ece391_fdputs ?C 1 (c_str ?q) i = Some p" "ece391_read ?C 0 arg 1023 p = Some (int (length line), b, t)"
    "tty_of t = fold tty_putc (map of_char ?q) (tty_of i)"
    using kernel_ask [OF i(1,2) s(3), of ?q T dev ex ga arg] by (auto simp del: fold_simps list.map(2))
  have "stdout_ok i" using i(1) by (simp add: stdin_ok_def)
  then have "kern_same i t" by (intro ask_keeps [OF t(1,2)]) simp_all
  then have k: "kern_same s t" by (rule kern_same_trans [OF i(3)])
  have "ece391_getargs ?C buf 1024 s = Some (0, arg, s)" using ga by (simp add: kernel_calls_def)
  then have "sigtest_main ?C store charbuf segv alarm buf s = Some (Inl e, t)"
    unfolding sigtest_main_def using install t(1,2) f [OF k] by (simp del: fold_simps)
  moreover have "tty_of t = fold tty_putc (map of_char (sigtest_says arg)) (tty_of s)"
    by (simp add: t(3) i(4) sigtest_says_def del: fold_simps list.map(2))
  ultimately show ?thesis using k by blast
qed

text \<open>
  Claim C24. The test of signals fails on this kernel: whether it is told to install its handlers or not,
  the program asks for a name, takes the line and stores through its null pointer; user code cannot store
  there in any state that keeps the page table invariant, so the store is a page fault, and the exception
  ends the program with status 255 in the process that executed it. Neither handler is called, and the
  verdict of the test is never printed.
\<close>

theorem sigtest_killed:
  fixes s :: "'a kernel_scheme"
  assumes "tables_ok T" and "maps_ok T s" and "proc_rel A s" and "top_stack A = p # q # ps" and "on_stack p (esp s)"
    and "stdin_ok s" and "line_waits s line" and "length line < 128" and "ga buf 1024 s = Some (0, arg, s)"
  shows "\<exists>t u. sigtest_main (kernel_calls T dev ex ga) (user_poke T) charbuf segv alarm buf s = Some (Inl PageFault, t)
    \<and> tty_of t = fold tty_putc (map of_char (sigtest_says arg)) (tty_of s)
    \<and> exception T dev ''(PF) Page Fault Exception!'' t = Some (Inr (ResumeParent 255, u))
    \<and> proc_rel (set_top (q # ps) A) u \<and> window_of T u (of_nat q)"
proof -
  have "user_poke T badbuf 1 t = Inl PageFault" if "kern_same s t" for t
    using that null_store_faults [OF assms(1) maps_ok_same [OF assms(2)], of t] by (simp add: kern_same_def)
  from sigtest_stores [where store = "user_poke T" and e = PageFault and ga = ga, OF assms(6-9) this]
  obtain t where t: "sigtest_main (kernel_calls T dev ex ga) (user_poke T) charbuf segv alarm buf s = Some (Inl PageFault, t)"
    "kern_same s t" "tty_of t = fold tty_putc (map of_char (sigtest_says arg)) (tty_of s)" by blast
  have "proc_rel A t" "on_stack p (esp t)"
    using t(2) assms(3,5) proc_rel_same [of A s t] by (simp_all add: kern_same_def)
  from ends_process [OF this(1) assms(4) this(2), of EX_PAGE_FAULT "''(PF) Page Fault Exception!''" T dev]
  show ?thesis using t(1,3) by auto
qed

text \<open>A shell that has executed the program, with the page tables of the running kernel and a line at the keyboard.\<close>

definition sig_entries :: entries where
  "sig_entries = \<lparr>
     pageDir = (\<lambda>_. 2)(0 := pageTable_at some_tables OR 3, 1 := FOUR_MB OR PAGE_DIR_FLAGS,
       25 := userTable_at some_tables OR RWP_FLAGS, 32 := frame_of 1 OR RW_FLAGS),
     pageTable = (\<lambda>_. 0),
     userTable = (\<lambda>_. 0)(1 := TERM_1_MEM OR RWP_FLAGS, 2 := TERM_2_MEM OR RWP_FLAGS, 3 := TERM_3_MEM OR RWP_FLAGS),
     videoTable = (\<lambda>_. 0)\<rparr>"

definition sig_kernel :: "u8 list \<Rightarrow> kernel" where
  "sig_kernel line = upd_terminal 0 (\<lambda>x. x\<lparr>term_key_buffer := put_keys line 0 (\<lambda>_. 0)\<rparr>)
     (upd_pcb (get_pcb 1) (\<lambda>b. b\<lparr>files := new_files (files b)\<rparr>)
        (pair_kernel\<lparr>enter_pressed := 1, pg := sig_entries, walked := sig_entries\<rparr>))"

lemma sig_kernel_maps: "maps_ok some_tables (sig_kernel line)"
  by (simp add: maps_ok_def tlb_ok_def entries_ok_def sig_kernel_def) (simp add: sig_entries_def)

lemma sig_kernel_rel: "proc_rel (set_top [1, 0] no_procs) (sig_kernel line)" "on_stack 1 (esp (sig_kernel line))"
proof -
  have "proc_same pair_kernel (sig_kernel line)" by (simp add: proc_same_def sig_kernel_def)
  then show "proc_rel (set_top [1, 0] no_procs) (sig_kernel line)" by (rule proc_rel_same [OF pair_kernel_rel])
  show "on_stack 1 (esp (sig_kernel line))" by (simp add: sig_kernel_def pair_kernel_def on_stack_def get_pcb_def const_defs)
qed

lemma sig_kernel_ready:
  assumes "0 \<notin> set line" and "length line < 128"
  shows "stdin_ok (sig_kernel line)" "line_waits (sig_kernel line) line"
proof -
  have g: "get_current_pcb (sig_kernel line) = get_pcb 1"
    by (simp add: sig_kernel_def pair_kernel_def get_current_pcb_def get_pcb_def const_defs)
  have "cur_files (sig_kernel line) = new_files (\<lambda>_. blank_file)"
    unfolding cur_files_def g by (simp add: sig_kernel_def pair_kernel_def blank_pcb_def)
  moreover have "screen_inv (sig_kernel line)"
    by (simp add: screen_inv_def sig_kernel_def pair_kernel_def blank_kernel_def rofs.defs tiny_fs_def init_rofs_def Let_def
        paging.defs blank_paging_def NUM_COLS_def NUM_ROWS_def)
  ultimately show "stdin_ok (sig_kernel line)"
    using new_files_ok [of "\<lambda>_. blank_file"] by (simp add: stdin_ok_def stdout_ok_def cur_file_files files_ok_def)
  have "key_buffer (sig_kernel line) = Some 0" by (simp add: sig_kernel_def pair_kernel_def)
  then show "line_waits (sig_kernel line) line"
    using key_line_put [of "\<lambda>_. 0" line] assms by (simp add: line_waits_def sig_kernel_def)
qed

theorem sigtest_killed_witness:
  "\<exists>t u. sigtest_main (kernel_calls some_tables (\<lambda>_ _. 0) (\<lambda>_ s. None) (\<lambda>b n s. Some (0, c_str ''1'', s))) (user_poke some_tables)
        (\<lambda>_. 0) 0x8048100 0x8048200 (\<lambda>_. 0) (sig_kernel [65, 108]) = Some (Inl PageFault, t)
    \<and> tty_of t = fold tty_putc (map of_char ''Installing signal handlers\<newline>Hi, what's your name? '') (tty_of (sig_kernel [65, 108]))
    \<and> exception some_tables (\<lambda>_ _. 0) ''(PF) Page Fault Exception!'' t = Some (Inr (ResumeParent 255, u))"
proof -
  have "top_stack (set_top [1, 0] no_procs) = 1 # 0 # []" by (simp add: stacks_set_top)
  from sigtest_killed [where ga = "\<lambda>b n s. Some (0, c_str ''1'', s)" and buf = "\<lambda>_. 0" and arg = "c_str ''1''" and T = some_tables,
      OF some_tables_ok sig_kernel_maps sig_kernel_rel(1) this sig_kernel_rel(2) sig_kernel_ready [of "[65, 108]"] _ refl,
      of "\<lambda>_ _. 0" "\<lambda>_ s. None" "\<lambda>_. 0" "0x8048100" "0x8048200"]
  show ?thesis by (simp add: sigtest_says_def c_str_def del: fold_simps) blast
qed

end
