(* ===== verification/Blink.thy ===== *)
theory Blink
  imports Prelude "HOL-Library.Monad_Syntax"
begin

text \<open>
  The blinking characters of \<^verbatim>\<open>src/fish\<close>: the linked list that \<^verbatim>\<open>blink.S\<close> keeps in the array
  \<open>blink_array\<close> of \<^verbatim>\<open>fish.c\<close>, with the allocator of \<^verbatim>\<open>fish.c\<close>, which finds a free element of the array
  by its location 0. The functions of \<^verbatim>\<open>blink.S\<close> are written label by label. The second half shows that
  the list behaves as a sequence of characters: whatever the order of the calls, no element is lost,
  shared or reached twice, and each call ends.
\<close>

section \<open>State\<close>

text \<open>A pointer to a \<open>struct mp1_blink_struct\<close> is \<open>NULL\<close> or points to an element of the array.\<close>

record mp1_blink_struct =
  location :: u16
  on_char :: u8
  off_char :: u8
  on_length :: u16
  off_length :: u16
  countdown :: u16
  blink_status :: u16
  next_blink :: "nat option"

record fish =
  blink_array :: "nat \<Rightarrow> mp1_blink_struct"
  mp1_list_head :: "nat option"
  video :: bytes

definition SCREEN_SIZE :: nat where "SCREEN_SIZE = 80 * 25"

definition upd_blink :: "nat \<Rightarrow> (mp1_blink_struct \<Rightarrow> mp1_blink_struct) \<Rightarrow> fish \<Rightarrow> fish" where
  "upd_blink i g f = f\<lparr>blink_array := (blink_array f)(i := g (blink_array f i))\<rparr>"

section \<open>Allocation\<close>

text \<open>The structure of zero bytes, as \<open>ece391_memset(memory, 0, sizeof(struct mp1_blink_struct))\<close> leaves it.\<close>

definition zero_blink :: mp1_blink_struct where
  "zero_blink = \<lparr>location = 0, on_char = 0, off_char = 0, on_length = 0, off_length = 0, countdown = 0,
     blink_status = 0, next_blink = None\<rparr>"

function malloc_loop :: "nat \<Rightarrow> fish \<Rightarrow> nat option" where
  "malloc_loop i f =
     (if i < SCREEN_SIZE then
        if location (blink_array f i) = 0 then Some i else malloc_loop (i + 1) f
      else None)"
  by pat_completeness auto
termination
  by (relation "measure (\<lambda>(i, f). SCREEN_SIZE - i)") auto

declare malloc_loop.simps [simp del, loop_unfold]

definition mp1_malloc :: "fish \<Rightarrow> nat option" where
  "mp1_malloc f = malloc_loop 0 f"

definition mp1_free :: "nat \<Rightarrow> fish \<Rightarrow> fish" where
  "mp1_free memory f = upd_blink memory (\<lambda>_. zero_blink) f"

section \<open>The functions of blink.S\<close>

definition mp1_poke :: "u8 \<Rightarrow> u32 \<Rightarrow> fish \<Rightarrow> fish" where
  "mp1_poke cl eax f = f\<lparr>video := (video f)(eax := cl)\<rparr>"

text \<open>The byte offset of a character on the screen.\<close>

definition cell :: "mp1_blink_struct \<Rightarrow> u32" where
  "cell b = push_bit 1 (ucast (location b))"

text \<open>One element in \<open>tasklet_loop\<close>, up to \<open>next_loop\<close>.\<close>

definition tasklet_element :: "nat \<Rightarrow> fish \<Rightarrow> fish" where
  "tasklet_element ebx f =
     (let f = upd_blink ebx (\<lambda>b. b\<lparr>countdown := countdown b - 1\<rparr>) f;
          b = blink_array f ebx
      in if 0 < sint (countdown b) then f
         else let eax = cell b;
                  (f, dx) = (if blink_status b AND 1 \<noteq> 0 then (mp1_poke (off_char b) eax f, off_length b)
                             else (mp1_poke (on_char b) eax f, on_length b))
              in upd_blink ebx (\<lambda>b. b\<lparr>countdown := dx, blink_status := blink_status b XOR 1\<rparr>) f)"

partial_function (option) tasklet_loop :: "nat option \<Rightarrow> fish \<Rightarrow> fish option" where
  "tasklet_loop ebx f =
     (case ebx of
        None \<Rightarrow> Some f
      | Some i \<Rightarrow> let f = tasklet_element i f in tasklet_loop (next_blink (blink_array f i)) f)"

definition mp1_rtc_tasklet :: "fish \<Rightarrow> fish option" where
  "mp1_rtc_tasklet f = tasklet_loop (mp1_list_head f) f"

text \<open>\<open>RTC_ADD\<close>, with the structure that \<open>arg\<close> points to. The copies always succeed.\<close>

definition mp1_ioctl_add :: "mp1_blink_struct \<Rightarrow> fish \<Rightarrow> int \<times> fish" where
  "mp1_ioctl_add arg f =
     (let ebx = arg
      in if 80 * 25 \<le> location ebx then (- 1, f)
         else let ebx = ebx\<lparr>blink_status := 1\<rparr>;
                  ebx = ebx\<lparr>countdown := on_length ebx\<rparr>
              in case mp1_malloc f of
                   None \<Rightarrow> (- 1, f)
                 | Some edx \<Rightarrow>
                     let f = upd_blink edx (\<lambda>_. ebx) f;
                         f = upd_blink edx (\<lambda>b. b\<lparr>next_blink := mp1_list_head f\<rparr>) f;
                         f = f\<lparr>mp1_list_head := Some edx\<rparr>
                     in (0, mp1_poke (on_char (blink_array f edx)) (cell (blink_array f edx)) f))"

partial_function (option) find_loop :: "u16 \<Rightarrow> nat option \<Rightarrow> fish \<Rightarrow> nat option option" where
  "find_loop ax ebx f =
     (case ebx of
        None \<Rightarrow> Some None
      | Some i \<Rightarrow> if location (blink_array f i) = ax then Some (Some i)
                  else find_loop ax (next_blink (blink_array f i)) f)"

definition mp1_find_helper :: "u32 \<Rightarrow> fish \<Rightarrow> nat option option" where
  "mp1_find_helper arg f = find_loop (ucast arg) (mp1_list_head f) f"

text \<open>
  \<open>edx\<close> points to \<open>mp1_list_head\<close> (\<open>None\<close>) or to the field \<open>next\<close> of an element; the load of that pointer,
  and the store to it.
\<close>

definition load_link :: "nat option \<Rightarrow> fish \<Rightarrow> nat option" where
  "load_link edx f = (case edx of None \<Rightarrow> mp1_list_head f | Some i \<Rightarrow> next_blink (blink_array f i))"

definition store_link :: "nat option \<Rightarrow> nat option \<Rightarrow> fish \<Rightarrow> fish" where
  "store_link edx ecx f =
     (case edx of None \<Rightarrow> f\<lparr>mp1_list_head := ecx\<rparr> | Some i \<Rightarrow> upd_blink i (\<lambda>b. b\<lparr>next_blink := ecx\<rparr>) f)"

text \<open>An element that is not in the list makes the loop follow the null pointer.\<close>

partial_function (option) remove_find_prev :: "nat \<Rightarrow> nat option \<Rightarrow> fish \<Rightarrow> (fault + nat option) option" where
  "remove_find_prev eax edx f =
     (case load_link edx f of
        None \<Rightarrow> Some (Inl PageFault)
      | Some i \<Rightarrow> if i = eax then Some (Inr edx) else remove_find_prev eax (Some i) f)"

definition mp1_ioctl_remove :: "u32 \<Rightarrow> fish \<Rightarrow> (fault + int \<times> fish) option" where
  "mp1_ioctl_remove arg f = do {
     eax \<leftarrow> mp1_find_helper arg f;
     case eax of
       None \<Rightarrow> Some (Inr (- 1, f))
     | Some eax \<Rightarrow> do {
         r \<leftarrow> remove_find_prev eax None f;
         case r of
           Inl e \<Rightarrow> Some (Inl e)
         | Inr edx \<Rightarrow> Some (Inr (0, mp1_free eax (store_link edx (next_blink (blink_array f eax)) f)))
       }
   }"

text \<open>
  The condition of \<open>cmovl\<close> after \<open>testb\<close>: the sign of the byte differs from the overflow flag, which
  \<open>testb\<close> clears.
\<close>

definition testb_less :: "u8 \<Rightarrow> u8 \<Rightarrow> bool" where
  "testb_less a b \<longleftrightarrow> bit (a AND b) 7"

definition mp1_ioctl_sync :: "u32 \<Rightarrow> fish \<Rightarrow> (int \<times> fish) option" where
  "mp1_ioctl_sync arg f = do {
     esi \<leftarrow> mp1_find_helper (drop_bit 16 arg) f;
     case esi of
       None \<Rightarrow> Some (- 1, f)
     | Some esi \<Rightarrow> do {
         edi \<leftarrow> mp1_find_helper (arg AND 0xFFFF) f;
         case edi of
           None \<Rightarrow> Some (- 1, f)
         | Some edi \<Rightarrow>
             let f = upd_blink edi (\<lambda>b. b\<lparr>on_length := on_length (blink_array f esi)\<rparr>) f;
                 f = upd_blink edi (\<lambda>b. b\<lparr>off_length := off_length (blink_array f esi)\<rparr>) f;
                 f = upd_blink edi (\<lambda>b. b\<lparr>countdown := countdown (blink_array f esi)\<rparr>) f;
                 f = upd_blink edi (\<lambda>b. b\<lparr>blink_status := blink_status (blink_array f esi)\<rparr>) f;
                 b = blink_array f edi;
                 ecx = (if testb_less 1 (ucast (blink_status b)) then on_char b else off_char b)
             in Some (0, mp1_poke ecx (cell b) f)
       }
   }"

text \<open>The structure found is copied to the one that \<open>arg\<close> points to.\<close>

definition mp1_ioctl_find :: "mp1_blink_struct \<Rightarrow> fish \<Rightarrow> (int \<times> mp1_blink_struct) option" where
  "mp1_ioctl_find arg f = do {
     eax \<leftarrow> mp1_find_helper (ucast (location arg)) f;
     case eax of
       None \<Rightarrow> Some (- 1, arg)
     | Some i \<Rightarrow> Some (0, blink_array f i)
   }"

declare tasklet_loop.simps [loop_unfold] find_loop.simps [loop_unfold] remove_find_prev.simps [loop_unfold]

section \<open>The chain of elements\<close>

text \<open>\<open>chain h p is\<close>: from the pointer \<open>p\<close> the links lead through the elements \<open>is\<close> to the end of the list.\<close>

primrec chain :: "(nat \<Rightarrow> mp1_blink_struct) \<Rightarrow> nat option \<Rightarrow> nat list \<Rightarrow> bool" where
  "chain h p [] \<longleftrightarrow> p = None"
| "chain h p (i # is) \<longleftrightarrow> p = Some i \<and> chain h (next_blink (h i)) is"

lemma chain_cong: "(\<And>i. i \<in> set is \<Longrightarrow> next_blink (g i) = next_blink (h i)) \<Longrightarrow> chain g p is = chain h p is"
  by (induction "is" arbitrary: p) auto

lemma chain_upd_other [simp]: "i \<notin> set is \<Longrightarrow> chain (h(i := b)) p is = chain h p is"
  by (rule chain_cong) auto

text \<open>The invariant: the list holds exactly the elements in use, each once, all on the screen.\<close>

definition list_ok :: "fish \<Rightarrow> nat list \<Rightarrow> bool" where
  "list_ok f is \<longleftrightarrow> chain (blink_array f) (mp1_list_head f) is \<and> distinct is \<and> set is \<subseteq> {..<SCREEN_SIZE}
     \<and> (\<forall>i<SCREEN_SIZE. location (blink_array f i) \<noteq> 0 \<longleftrightarrow> i \<in> set is)
     \<and> (\<forall>i\<in>set is. location (blink_array f i) < 80 * 25)"

text \<open>What the list stands for: the characters, without the links.\<close>

definition payload :: "mp1_blink_struct \<Rightarrow> mp1_blink_struct" where
  "payload b = b\<lparr>next_blink := None\<rparr>"

definition blinks :: "fish \<Rightarrow> nat list \<Rightarrow> mp1_blink_struct list" where
  "blinks f is = map (\<lambda>i. payload (blink_array f i)) is"

section \<open>The calls on sequences\<close>

definition tick_blink :: "mp1_blink_struct \<Rightarrow> mp1_blink_struct" where
  "tick_blink b =
     (if 0 < sint (countdown b - 1) then b\<lparr>countdown := countdown b - 1\<rparr>
      else b\<lparr>countdown := (if bit (blink_status b) 0 then off_length b else on_length b),
             blink_status := blink_status b XOR 1\<rparr>)"

definition show_tick :: "mp1_blink_struct \<Rightarrow> bytes \<Rightarrow> bytes" where
  "show_tick b v =
     (if 0 < sint (countdown b - 1) then v else v(cell b := (if bit (blink_status b) 0 then off_char b else on_char b)))"

definition new_blink :: "mp1_blink_struct \<Rightarrow> mp1_blink_struct" where
  "new_blink u = payload (u\<lparr>blink_status := 1, countdown := on_length u\<rparr>)"

text \<open>The first element with a property, replaced by a list.\<close>

definition at_first :: "('a \<Rightarrow> bool) \<Rightarrow> ('a \<Rightarrow> 'a list) \<Rightarrow> 'a list \<Rightarrow> 'a list" where
  "at_first P g xs = takeWhile (Not \<circ> P) xs @ (case dropWhile (Not \<circ> P) xs of [] \<Rightarrow> [] | x # ys \<Rightarrow> g x @ ys)"

definition sync_blink :: "mp1_blink_struct \<Rightarrow> mp1_blink_struct \<Rightarrow> mp1_blink_struct" where
  "sync_blink src b = b\<lparr>on_length := on_length src, off_length := off_length src, countdown := countdown src,
     blink_status := blink_status src\<rparr>"

datatype blink_call = Add mp1_blink_struct | Remove u32 | Sync u32 | Tick

text \<open>What each call does to the sequence of characters and the screen, the last one added first.\<close>

fun spec_call :: "blink_call \<Rightarrow> mp1_blink_struct list \<times> bytes \<Rightarrow> mp1_blink_struct list \<times> bytes" where
  "spec_call (Add u) (bs, v) =
     (if location u < 80 * 25 \<and> length bs < SCREEN_SIZE then (new_blink u # bs, v(cell u := on_char u)) else (bs, v))"
| "spec_call (Remove a) (bs, v) = (at_first (\<lambda>b. location b = ucast a) (\<lambda>_. []) bs, v)"
| "spec_call (Sync a) (bs, v) =
     (case (find (\<lambda>b. location b = ucast (drop_bit 16 a)) bs, find (\<lambda>b. location b = ucast (a AND 0xFFFF)) bs) of
        (Some src, Some b) \<Rightarrow>
          (at_first (\<lambda>b. location b = ucast (a AND 0xFFFF)) (\<lambda>b. [sync_blink src b]) bs, v(cell b := off_char b))
      | _ \<Rightarrow> (bs, v))"
| "spec_call Tick (bs, v) = (map tick_blink bs, fold show_tick bs v)"

fun blink_step :: "blink_call \<Rightarrow> fish \<Rightarrow> (fault + fish) option" where
  "blink_step (Add u) f = Some (Inr (snd (mp1_ioctl_add u f)))"
| "blink_step (Remove a) f = map_option (map_sum id snd) (mp1_ioctl_remove a f)"
| "blink_step (Sync a) f = map_option (Inr \<circ> snd) (mp1_ioctl_sync a f)"
| "blink_step Tick f = map_option Inr (mp1_rtc_tasklet f)"

fun blink_run :: "blink_call list \<Rightarrow> fish \<Rightarrow> (fault + fish) option" where
  "blink_run [] f = Some (Inr f)"
| "blink_run (c # cs) f =
     (case blink_step c f of
        Some (Inr f) \<Rightarrow> blink_run cs f
      | r \<Rightarrow> r)"

section \<open>Finding and allocating\<close>

lemma find_loop_chain:
  "chain (blink_array f) p is \<Longrightarrow> find_loop ax p f = Some (find (\<lambda>i. location (blink_array f i) = ax) is)"
  by (induction "is" arbitrary: p) (simp_all add: find_loop.simps [of ax None] find_loop.simps [of ax "Some i" for i])

lemma mp1_find_helper_chain:
  "list_ok f is \<Longrightarrow> mp1_find_helper a f = Some (find (\<lambda>i. location (blink_array f i) = ucast a) is)"
  unfolding mp1_find_helper_def list_ok_def by (rule find_loop_chain) simp

lemma find_blinks: "find (\<lambda>b. location b = l) (blinks f is) = map_option (\<lambda>i. payload (blink_array f i)) (find (\<lambda>i. location (blink_array f i) = l) is)"
  by (induction "is") (simp_all add: blinks_def payload_def)

lemma malloc_loop_eq:
  "malloc_loop i f = find (\<lambda>i. location (blink_array f i) = 0) [i..<SCREEN_SIZE]"
  by (induction i f rule: malloc_loop.induct) (simp add: malloc_loop.simps upt_conv_Cons)

text \<open>There is a free element unless all are in the list.\<close>

lemma mp1_malloc_ok:
  assumes "list_ok f is"
  shows "if length is < SCREEN_SIZE then \<exists>i<SCREEN_SIZE. mp1_malloc f = Some i \<and> i \<notin> set is else mp1_malloc f = None"
proof -
  have ok: "distinct is" "set is \<subseteq> {..<SCREEN_SIZE}" "\<forall>i<SCREEN_SIZE. location (blink_array f i) \<noteq> 0 \<longleftrightarrow> i \<in> set is"
    using assms by (simp_all add: list_ok_def)
  have len: "card (set is) = length is" using ok(1) by (rule distinct_card)
  show ?thesis
  proof (cases "mp1_malloc f")
    case None
    then have "\<forall>i<SCREEN_SIZE. location (blink_array f i) \<noteq> 0" by (simp add: mp1_malloc_def malloc_loop_eq find_None_iff)
    then have "set is = {..<SCREEN_SIZE}" using ok by auto
    then show ?thesis using len None by simp
  next
    case (Some i)
    then have i: "i < SCREEN_SIZE" "location (blink_array f i) = 0"
      by (auto simp: mp1_malloc_def malloc_loop_eq find_Some_iff)
    then have "set is \<subset> {..<SCREEN_SIZE}" "i \<notin> set is" using ok by auto
    then have "length is < SCREEN_SIZE" using len psubset_card_mono [of "{..<SCREEN_SIZE}" "set is"] by simp
    then show ?thesis using i \<open>i \<notin> set is\<close> Some by auto
  qed
qed

section \<open>Each call refines the one on sequences\<close>

lemma upd_blink_fields [simp]:
  "blink_array (upd_blink i g f) = (blink_array f)(i := g (blink_array f i))"
  "mp1_list_head (upd_blink i g f) = mp1_list_head f" "video (upd_blink i g f) = video f"
  by (simp_all add: upd_blink_def)

lemma mp1_poke_fields [simp]:
  "blink_array (mp1_poke c a f) = blink_array f" "mp1_list_head (mp1_poke c a f) = mp1_list_head f"
  "video (mp1_poke c a f) = (video f)(a := c)"
  by (simp_all add: mp1_poke_def)

lemma cell_payload [simp]: "cell (payload b) = cell b" "cell (b\<lparr>next_blink := p\<rparr>) = cell b"
  by (simp_all add: cell_def payload_def)

lemma payload_upd [simp]: "payload (b\<lparr>next_blink := p\<rparr>) = payload b" "payload (payload b) = payload b"
  "on_char (payload b) = on_char b" "off_char (payload b) = off_char b" "location (payload b) = location b"
  by (simp_all add: payload_def)

text \<open>The elements a call does not touch keep their place in the sequence.\<close>

lemma blinks_cong: "(\<And>i. i \<in> set is \<Longrightarrow> payload (blink_array g i) = payload (blink_array f i)) \<Longrightarrow> blinks g is = blinks f is"
  by (simp add: blinks_def)

text \<open>\<open>f\<close> with the elements \<open>is\<close> in its list stands for the sequence \<open>bs\<close> on the screen \<open>v\<close>.\<close>

definition fish_rel :: "fish \<Rightarrow> mp1_blink_struct list \<times> bytes \<Rightarrow> bool" where
  "fish_rel f z \<longleftrightarrow> (\<exists>is. list_ok f is \<and> z = (blinks f is, video f))"

lemma add_refines:
  assumes ok: "list_ok f is" and u: "location u \<noteq> 0"
  shows "fish_rel (snd (mp1_ioctl_add u f)) (spec_call (Add u) (blinks f is, video f))"
proof (cases "location u < 80 * 25 \<and> length is < SCREEN_SIZE")
  case False
  then have "snd (mp1_ioctl_add u f) = f"
    using mp1_malloc_ok [OF ok] by (auto simp: mp1_ioctl_add_def Let_def split: option.splits)
  then show ?thesis using ok False by (auto simp: fish_rel_def blinks_def)
next
  case True
  then obtain i where i: "i < SCREEN_SIZE" "mp1_malloc f = Some i" "i \<notin> set is"
    using mp1_malloc_ok [OF ok] by auto
  let ?b = "u\<lparr>blink_status := 1, countdown := on_length u, next_blink := mp1_list_head f\<rparr>"
  let ?h = "(blink_array f)(i := ?b)"
  have add: "snd (mp1_ioctl_add u f) = mp1_poke (on_char u) (cell ?b) (f\<lparr>blink_array := ?h, mp1_list_head := Some i\<rparr>)"
    using True i(2) by (auto simp: mp1_ioctl_add_def Let_def not_le upd_blink_def)
  let ?g = "snd (mp1_ioctl_add u f)"
  have "chain ?h (Some i) (i # is)"
    using ok i(3) by (simp add: list_ok_def)
  then have "list_ok ?g (i # is)" using ok i u True by (simp add: list_ok_def add)
  moreover have "blinks ?g (i # is) = new_blink u # blinks f is"
    using i(3) by (auto simp: add blinks_def new_blink_def payload_def)
  moreover have "cell ?b = cell u" by (simp add: cell_def)
  then have "video ?g = (video f)(cell u := on_char u)" by (simp add: add)
  ultimately show ?thesis using True unfolding fish_rel_def by (intro exI [of _ "i # is"]) (simp add: blinks_def)
qed

lemma tasklet_element_eq:
  "tasklet_element i f = upd_blink i tick_blink (f\<lparr>video := show_tick (blink_array f i) (video f)\<rparr>)"
proof -
  have b: "w AND 1 \<noteq> 0 \<longleftrightarrow> bit w 0" for w :: u16
    by (simp add: and_one_eq bit_0 odd_iff_mod_2_eq_one)
  show ?thesis
    by (simp add: tasklet_element_def Let_def b tick_blink_def show_tick_def upd_blink_def mp1_poke_def cell_def)
qed

lemma tick_blink_keeps [simp]:
  "location (tick_blink b) = location b" "next_blink (tick_blink b) = next_blink b"
  by (simp_all add: tick_blink_def)

lemma tick_blink_payload: "payload (tick_blink b) = tick_blink (payload b)" "show_tick (payload b) v = show_tick b v"
  by (simp_all add: tick_blink_def payload_def show_tick_def cell_def)

lemma tasklet_loop_chain:
  assumes "chain (blink_array f) p is" and "distinct is"
  shows "\<exists>g. tasklet_loop p f = Some g \<and> mp1_list_head g = mp1_list_head f
    \<and> blink_array g = (\<lambda>i. if i \<in> set is then tick_blink (blink_array f i) else blink_array f i)
    \<and> video g = fold show_tick (map (blink_array f) is) (video f)"
  using assms
proof (induction "is" arbitrary: p f)
  case Nil
  then show ?case by (simp add: tasklet_loop.simps)
next
  case (Cons i "is")
  let ?f = "tasklet_element i f"
  have a: "blink_array ?f = (blink_array f)(i := tick_blink (blink_array f i))" by (simp add: tasklet_element_eq)
  have "chain (blink_array ?f) (next_blink (blink_array ?f i)) is"
    using Cons.prems by (simp add: a)
  from Cons.IH [OF this] Cons.prems(2)
  obtain g where g: "tasklet_loop (next_blink (blink_array ?f i)) ?f = Some g" "mp1_list_head g = mp1_list_head ?f"
    "blink_array g = (\<lambda>j. if j \<in> set is then tick_blink (blink_array ?f j) else blink_array ?f j)"
    "video g = fold show_tick (map (blink_array ?f) is) (video ?f)" by auto
  have "map (blink_array ?f) is = map (blink_array f) is" using Cons.prems(2) by (auto simp: a)
  moreover have "tasklet_loop p f = Some g"
    using Cons.prems(1) g(1) by (simp add: tasklet_loop.simps [of "Some i" f] Let_def)
  ultimately show ?case
    using g(2-4) Cons.prems(2) by (auto simp: a fun_eq_iff) (simp_all add: tasklet_element_eq)
qed

lemma tick_refines:
  assumes "list_ok f is"
  shows "\<exists>g. mp1_rtc_tasklet f = Some g \<and> fish_rel g (spec_call Tick (blinks f is, video f))"
proof -
  obtain g where g: "mp1_rtc_tasklet f = Some g" "mp1_list_head g = mp1_list_head f"
    "blink_array g = (\<lambda>i. if i \<in> set is then tick_blink (blink_array f i) else blink_array f i)"
    "video g = fold show_tick (map (blink_array f) is) (video f)"
    using tasklet_loop_chain [of f "mp1_list_head f" "is"] assms by (auto simp: mp1_rtc_tasklet_def list_ok_def)
  have "chain (blink_array g) (mp1_list_head f) is"
    using assms chain_cong [of "is" "blink_array g" "blink_array f"] by (auto simp: list_ok_def g(3))
  then have "list_ok g is" using assms g(2) by (simp add: list_ok_def g(3))
  moreover have "fold show_tick (blinks f is) v = fold show_tick (map (blink_array f) is) v" for v
    unfolding blinks_def by (induction "is" arbitrary: v) (simp_all add: tick_blink_payload)
  ultimately have "fish_rel g (spec_call Tick (blinks f is, video f))"
    unfolding fish_rel_def using g(3,4) by (intro exI [of _ "is"]) (simp add: blinks_def tick_blink_payload)
  then show ?thesis using g(1) by blast
qed

text \<open>Where the first element with a location stands.\<close>

lemma find_first:
  assumes "find P xs = Some x"
  obtains ys zs where "xs = ys @ x # zs" "P x" "\<forall>y\<in>set ys. \<not> P y"
proof -
  obtain i where i: "i < length xs" "P (xs ! i)" "x = xs ! i" "\<forall>j<i. \<not> P (xs ! j)"
    using assms by (auto simp: find_Some_iff)
  show ?thesis
  proof (rule that [of "take i xs" "drop (Suc i) xs"])
    show "xs = take i xs @ x # drop (Suc i) xs" using id_take_nth_drop [OF i(1)] i(3) by simp
    show "\<forall>y\<in>set (take i xs). \<not> P y" using i(1,4) by (auto simp: in_set_conv_nth)
  qed (use i in simp)
qed

lemma at_first_found: "P x \<Longrightarrow> \<forall>y\<in>set ys. \<not> P y \<Longrightarrow> at_first P g (ys @ x # zs) = ys @ g x @ zs"
proof -
  assume x: "P x" and ys: "\<forall>y\<in>set ys. \<not> P y"
  then have "takeWhile (Not \<circ> P) (ys @ x # zs) = ys" "dropWhile (Not \<circ> P) (ys @ x # zs) = x # zs"
    by (simp_all add: takeWhile_append2 dropWhile_append2)
  then show ?thesis by (simp add: at_first_def)
qed

lemma at_first_none: "find P xs = None \<Longrightarrow> at_first P g xs = xs"
proof -
  assume "find P xs = None"
  then have t: "takeWhile (Not \<circ> P) xs = xs" "dropWhile (Not \<circ> P) xs = []"
    by (simp_all add: find_None_iff takeWhile_eq_all_conv dropWhile_eq_Nil_conv)
  show ?thesis unfolding at_first_def t by simp
qed

lemma blinks_append: "blinks f (is @ js) = blinks f is @ blinks f js" "blinks f (i # is) = payload (blink_array f i) # blinks f is"
  by (simp_all add: blinks_def)

lemma remove_find_prev_chain:
  "chain (blink_array f) (load_link edx f) (xs @ e # ys) \<Longrightarrow> e \<notin> set xs \<Longrightarrow>
   remove_find_prev e edx f = Some (Inr (if xs = [] then edx else Some (last xs)))"
proof (induction xs arbitrary: edx)
  case Nil
  then show ?case by (simp add: remove_find_prev.simps [of e edx])
next
  case (Cons x xs)
  then have "remove_find_prev e edx f = remove_find_prev e (Some x) f"
    by (auto simp: remove_find_prev.simps [of e edx])
  moreover have "chain (blink_array f) (load_link (Some x) f) (xs @ e # ys)" using Cons.prems(1) by (simp add: load_link_def)
  ultimately show ?case using Cons.IH [of "Some x"] Cons.prems(2) by (simp split: if_splits)
qed

lemma chain_unlink:
  "chain h p (xs @ l # e # ys) \<Longrightarrow> distinct (xs @ l # e # ys) \<Longrightarrow>
   chain (h(l := (h l)\<lparr>next_blink := next_blink (h e)\<rparr>)) p (xs @ l # ys)"
  by (induction xs arbitrary: p) auto

text \<open>Taking an element out of the chain.\<close>

lemma store_link_chain:
  assumes c: "chain (blink_array f) (mp1_list_head f) (xs @ e # ys)" and d: "distinct (xs @ e # ys)"
    and g: "g = store_link (if xs = [] then None else Some (last xs)) (next_blink (blink_array f e)) f"
  shows "chain (blink_array g) (mp1_list_head g) (xs @ ys) \<and> video g = video f
    \<and> (\<forall>i. payload (blink_array g i) = payload (blink_array f i))"
proof (cases xs rule: rev_cases)
  case Nil
  then show ?thesis using c by (simp add: g store_link_def)
next
  case (snoc zs l)
  then have "chain ((blink_array f)(l := (blink_array f l)\<lparr>next_blink := next_blink (blink_array f e)\<rparr>)) (mp1_list_head f) (zs @ l # ys)"
    using chain_unlink [of "blink_array f" "mp1_list_head f" zs l e ys] c d by simp
  then show ?thesis using snoc by (simp add: g store_link_def)
qed

lemma remove_refines:
  assumes ok: "list_ok f is"
  shows "\<exists>r g. mp1_ioctl_remove a f = Some (Inr (r, g)) \<and> fish_rel g (spec_call (Remove a) (blinks f is, video f))"
proof (cases "find (\<lambda>i. location (blink_array f i) = ucast a) is")
  case None
  then have "at_first (\<lambda>b. location b = ucast a) (\<lambda>_. []) (blinks f is) = blinks f is"
    by (intro at_first_none) (simp add: find_blinks)
  then show ?thesis using ok None by (auto simp: mp1_ioctl_remove_def mp1_find_helper_chain [OF ok] fish_rel_def)
next
  case (Some e)
  then obtain xs ys where x: "is = xs @ e # ys" "location (blink_array f e) = ucast a"
    "\<forall>i\<in>set xs. location (blink_array f i) \<noteq> ucast a" by (rule find_first)
  have c: "chain (blink_array f) (mp1_list_head f) (xs @ e # ys)" and d: "distinct (xs @ e # ys)"
    using ok x(1) by (simp_all add: list_ok_def)
  define g where "g = store_link (if xs = [] then None else Some (last xs)) (next_blink (blink_array f e)) f"
  note s = store_link_chain [OF c d g_def]
  have "remove_find_prev e None f = Some (Inr (if xs = [] then None else Some (last xs)))"
    by (rule remove_find_prev_chain [where ys = ys]) (use c d in \<open>simp_all add: load_link_def\<close>)
  then have r: "mp1_ioctl_remove a f = Some (Inr (0, mp1_free e g))"
    using Some by (simp add: mp1_ioctl_remove_def mp1_find_helper_chain [OF ok] g_def)
  have loc: "location (blink_array g i) = location (blink_array f i)" for i
    using s payload_upd(5) by metis
  have "list_ok (mp1_free e g) (xs @ ys)"
    using ok s d by (auto simp: list_ok_def x(1) mp1_free_def zero_blink_def loc)
  moreover have "blinks (mp1_free e g) (xs @ ys) = blinks f (xs @ ys)"
    using s d by (intro blinks_cong) (auto simp: mp1_free_def)
  moreover have "at_first (\<lambda>b. location b = ucast a) (\<lambda>_. []) (blinks f is) = blinks f (xs @ ys)"
    unfolding x(1) blinks_append by (subst at_first_found) (use x in \<open>auto simp: blinks_def\<close>)
  moreover have "video (mp1_free e g) = video f" using s by (simp add: mp1_free_def)
  ultimately have "fish_rel (mp1_free e g) (spec_call (Remove a) (blinks f is, video f))"
    unfolding fish_rel_def by (intro exI [of _ "xs @ ys"]) simp
  then show ?thesis using r by blast
qed

lemma testb_less_1 [simp]: "\<not> testb_less 1 b"
  by (simp add: testb_less_def bit_and_iff bit_1_iff)

lemma sync_eq:
  "mp1_ioctl_sync a f = do {
     esi \<leftarrow> mp1_find_helper (drop_bit 16 a) f;
     edi \<leftarrow> mp1_find_helper (a AND 0xFFFF) f;
     Some (case (esi, edi) of
        (Some i, Some j) \<Rightarrow> (0, mp1_poke (off_char (blink_array f j)) (cell (blink_array f j))
          (upd_blink j (sync_blink (blink_array f i)) f))
      | _ \<Rightarrow> (- 1, f))
   }" if "list_ok f is"
  unfolding mp1_ioctl_sync_def mp1_find_helper_chain [OF that]
  by (auto simp: Let_def upd_blink_def sync_blink_def cell_def split: option.splits)

lemma sync_refines:
  assumes ok: "list_ok f is"
  shows "\<exists>r g. mp1_ioctl_sync a f = Some (r, g) \<and> fish_rel g (spec_call (Sync a) (blinks f is, video f))"
proof -
  let ?P = "\<lambda>l i. location (blink_array f i) = l"
  let ?i = "find (?P (ucast (drop_bit 16 a))) is" and ?j = "find (?P (ucast (a AND 0xFFFF))) is"
  note find = mp1_find_helper_chain [OF ok]
  show ?thesis
  proof (cases "?i = None \<or> ?j = None")
    case True
    then have "mp1_ioctl_sync a f = Some (- 1, f)" by (auto simp: sync_eq [OF ok] find split: option.splits)
    moreover have "spec_call (Sync a) (blinks f is, video f) = (blinks f is, video f)"
      using True by (auto simp: find_blinks split: option.splits)
    ultimately show ?thesis using ok by (auto simp: fish_rel_def)
  next
    case False
    then obtain i j where ij: "?i = Some i" "?j = Some j" by (cases ?i; cases ?j) auto
    then obtain xs ys where x: "is = xs @ j # ys" "?P (ucast (a AND 0xFFFF)) j" "\<forall>k\<in>set xs. \<not> ?P (ucast (a AND 0xFFFF)) k"
      using find_first [of "?P (ucast (a AND 0xFFFF))"] by blast
    define g where "g = mp1_poke (off_char (blink_array f j)) (cell (blink_array f j)) (upd_blink j (sync_blink (blink_array f i)) f)"
    have r: "mp1_ioctl_sync a f = Some (0, g)" using ij by (simp add: sync_eq [OF ok] find g_def)
    have s: "location (sync_blink u b) = location b" "next_blink (sync_blink u b) = next_blink b"
      "payload (sync_blink u b) = sync_blink (payload u) (payload b)" for u b
      by (simp_all add: sync_blink_def payload_def)
    have "chain (blink_array g) (mp1_list_head f) is"
      using ok chain_cong [of "is" "blink_array g" "blink_array f"] by (auto simp: list_ok_def g_def s)
    then have "list_ok g is" using ok by (auto simp: list_ok_def g_def s)
    moreover have "at_first (\<lambda>b. location b = ucast (a AND 0xFFFF)) (\<lambda>b. [sync_blink (payload (blink_array f i)) b]) (blinks f is) = blinks g is"
    proof -
      have d: "j \<notin> set xs" "j \<notin> set ys" using ok x(1) by (auto simp: list_ok_def)
      have "blinks g xs = blinks f xs" "blinks g ys = blinks f ys" using d by (auto intro!: blinks_cong simp: g_def)
      moreover have "payload (blink_array g j) = sync_blink (payload (blink_array f i)) (payload (blink_array f j))"
        by (simp add: g_def s)
      ultimately show ?thesis
        unfolding x(1) blinks_append by (subst at_first_found) (use x in \<open>auto simp: blinks_def\<close>)
    qed
    ultimately have "fish_rel g (spec_call (Sync a) (blinks f is, video f))"
      unfolding fish_rel_def using ij by (intro exI [of _ "is"]) (simp add: find_blinks, simp add: g_def)
    then show ?thesis using r by blast
  qed
qed

text \<open>An element at location 0 would count as free while it is in the list, so the caller must not add one.\<close>

definition call_ok :: "blink_call \<Rightarrow> bool" where
  "call_ok c \<longleftrightarrow> (case c of Add u \<Rightarrow> location u \<noteq> 0 | _ \<Rightarrow> True)"

lemma step_refines:
  assumes "fish_rel f z" and "call_ok c"
  shows "\<exists>g. blink_step c f = Some (Inr g) \<and> fish_rel g (spec_call c z)"
proof -
  obtain "is" where i: "list_ok f is" "z = (blinks f is, video f)" using assms(1) by (auto simp: fish_rel_def)
  show ?thesis
  proof (cases c)
    case (Add u)
    then show ?thesis using add_refines [OF i(1), of u] assms(2) by (simp add: i(2) call_ok_def)
  next
    case (Remove a)
    then show ?thesis using remove_refines [OF i(1), of a] unfolding i(2) by auto
  next
    case (Sync a)
    then show ?thesis using sync_refines [OF i(1), of a] unfolding i(2) by auto
  next
    case Tick
    then show ?thesis using tick_refines [OF i(1)] unfolding i(2) by auto
  qed
qed

lemma run_refines:
  "fish_rel f z \<Longrightarrow> \<forall>c\<in>set cs. call_ok c \<Longrightarrow> \<exists>g. blink_run cs f = Some (Inr g) \<and> fish_rel g (fold spec_call cs z)"
proof (induction cs arbitrary: f z)
  case (Cons c cs)
  then obtain g where "blink_step c f = Some (Inr g)" "fish_rel g (spec_call c z)" using step_refines [of f z c] by auto
  then show ?case using Cons.IH [of g "spec_call c z"] Cons.prems(2) by simp
qed simp

text \<open>At the start: an array of zeros and an empty list.\<close>

definition fish_start :: "bytes \<Rightarrow> fish" where
  "fish_start v = \<lparr>blink_array = (\<lambda>_. zero_blink), mp1_list_head = None, video = v\<rparr>"

lemma fish_start_rel: "fish_rel (fish_start v) ([], v)"
  unfolding fish_rel_def
  by (rule exI [of _ "[]"]) (simp add: fish_start_def list_ok_def blinks_def zero_blink_def)

text \<open>
  Claim C23. The linked list of the blinking characters is a sequence: any calls that add, remove,
  synchronise and tick, in any order, all return and never follow a null pointer, and what the array and
  the screen hold afterwards is what the same calls do to a sequence of characters, the last one added
  first. An added character must not be at location 0, the mark of a free element. The call that
  synchronises always shows the second character, whatever its new status.
\<close>

theorem blink_list_refines:
  assumes "\<forall>c\<in>set cs. call_ok c"
  shows "\<exists>f is. blink_run cs (fish_start v) = Some (Inr f) \<and> list_ok f is
    \<and> (blinks f is, video f) = fold spec_call cs ([], v)"
  using run_refines [OF fish_start_rel assms] unfolding fish_rel_def by metis

theorem blink_list_refines_witness:
  "\<exists>f is. blink_run [Add (zero_blink\<lparr>location := 41, on_char := 65, off_char := 66, on_length := 1, off_length := 2\<rparr>), Tick]
        (fish_start (\<lambda>_. 32)) = Some (Inr f)
     \<and> list_ok f is \<and> map on_char (blinks f is) = [65] \<and> video f 82 = 66"
proof -
  let ?u = "zero_blink\<lparr>location := 41, on_char := 65, off_char := 66, on_length := 1, off_length := 2\<rparr>"
  obtain f "is" where f: "blink_run [Add ?u, Tick] (fish_start (\<lambda>_. 32)) = Some (Inr f)" "list_ok f is"
    "(blinks f is, video f) = fold spec_call [Add ?u, Tick] ([], \<lambda>_. 32)"
    using blink_list_refines [of "[Add ?u, Tick]" "\<lambda>_. 32"] by (auto simp: call_ok_def)
  have "(blinks f is, video f) = ([tick_blink (new_blink ?u)], (\<lambda>_. 32)(82 := 65, 82 := 66))"
    unfolding f(3) by (simp add: SCREEN_SIZE_def new_blink_def payload_def show_tick_def cell_def)
  then show ?thesis using f(1,2)
    by (intro exI [of _ f] exI [of _ "is"]) (simp add: tick_blink_def new_blink_def payload_def)
qed

end
