(* ===== verification/Fish.thy ===== *)
theory Fish
  imports Programs Blink
begin

text \<open>
  The animation \<^verbatim>\<open>src/fish/fish.c\<close>, above the list of blinking characters of \<open>Blink\<close>: it reads two frames
  from two files side by side and makes every place where one of them shows something blink between the
  two. It is shown which characters that are, on the kernel's own system calls.
\<close>

section \<open>The program\<close>

text \<open>Byte by byte; \<open>mem\<close> and \<open>d\<close> are what the pointers point to.\<close>

function ece391_memset_loop :: "bytes \<Rightarrow> u8 \<Rightarrow> int \<Rightarrow> int \<Rightarrow> bytes" where
  "ece391_memset_loop m c i n = (if i < n then ece391_memset_loop (m(word_of_int i := c)) c (i + 1) n else m)"
  by pat_completeness auto
termination
  by (relation "measure (\<lambda>(m, c, i, n). nat (n - i))") auto

definition ece391_memset :: "bytes \<Rightarrow> u8 \<Rightarrow> int \<Rightarrow> bytes" where
  "ece391_memset m c n = ece391_memset_loop m c 0 n"

function ece391_memcpy_loop :: "bytes \<Rightarrow> bytes \<Rightarrow> int \<Rightarrow> int \<Rightarrow> bytes" where
  "ece391_memcpy_loop d s i n =
     (if i < n then ece391_memcpy_loop (d(word_of_int i := s (word_of_int i))) s (i + 1) n else d)"
  by pat_completeness auto
termination
  by (relation "measure (\<lambda>(d, s, i, n). nat (n - i))") auto

definition ece391_memcpy :: "bytes \<Rightarrow> bytes \<Rightarrow> int \<Rightarrow> int \<times> bytes" where
  "ece391_memcpy d s n = (0, ece391_memcpy_loop d s 0 n)"

declare ece391_memset_loop.simps [simp del, loop_unfold] ece391_memcpy_loop.simps [simp del, loop_unfold]

text \<open>\<open>vmem_at\<close> is the address of the static variable \<open>vmem_base_addr\<close>, \<open>vmem\<close> reads it.\<close>

definition mp1_set_video_mode :: "'s calls \<Rightarrow> u32 \<Rightarrow> ('s \<Rightarrow> u32) \<Rightarrow> 's \<Rightarrow> (u32 \<times> 's) option" where
  "mp1_set_video_mode C vmem_at vmem s = do {
     (r, s) \<leftarrow> ece391_vidmap C vmem_at s;
     Some (if r = - 1 then 0 else vmem s, s)
   }"

text \<open>The next character of a line, unless its end was reached; the end of the file counts as one.\<close>

definition frame_char :: "'s calls \<Rightarrow> int \<Rightarrow> u8 \<Rightarrow> bool \<Rightarrow> 's \<Rightarrow> (u8 \<times> bool \<times> 's) option" where
  "frame_char C fd c eof s =
     (if c \<noteq> 10 then do {
        (num_bytes, buf, s) \<leftarrow> ece391_read C fd (\<lambda>_. c) 1 s;
        if num_bytes = 0 then Some (10, True, s) else Some (buf 0, eof, s)
      } else Some (c, eof, s))"

definition frame_blink :: "mp1_blink_struct \<Rightarrow> int \<Rightarrow> int \<Rightarrow> u8 \<Rightarrow> u8 \<Rightarrow> mp1_blink_struct" where
  "frame_blink u row col c0 c1 = u\<lparr>on_length := 15, off_length := 15,
     on_char := (if c0 = 10 then 32 else c0), off_char := (if c1 = 10 then 32 else c1),
     location := word_of_int (row * 80 + col + 40)\<rparr>"

text \<open>One row: the lines of the two files side by side.\<close>

partial_function (option) frame_row ::
  "'s calls \<Rightarrow> int \<Rightarrow> int \<Rightarrow> mp1_blink_struct \<Rightarrow> int \<Rightarrow> int \<Rightarrow> u8 \<Rightarrow> u8 \<Rightarrow> bool \<Rightarrow> bool \<Rightarrow> fish \<Rightarrow> 's
    \<Rightarrow> (bool \<times> bool \<times> fish \<times> 's) option" where
  "frame_row C fd0 fd1 u row col c0 c1 eof0 eof1 f s = do {
     (c0, eof0, s) \<leftarrow> frame_char C fd0 c0 eof0 s;
     (c1, eof1, s) \<leftarrow> frame_char C fd1 c1 eof1 s;
     if c0 = 10 \<and> c1 = 10 then Some (eof0, eof1, f, s)
     else do {
       let f = (if c0 \<noteq> 32 \<and> c0 \<noteq> 10 \<or> c1 \<noteq> 32 \<and> c1 \<noteq> 10
                then snd (mp1_ioctl_add (frame_blink u row col c0 c1) f) else f);
       frame_row C fd0 fd1 u row (col + 1) c0 c1 eof0 eof1 f s
     }
   }"

text \<open>Behind a row: a file at its end is closed, again after every further row.\<close>

definition frame_end :: "'s calls \<Rightarrow> int \<Rightarrow> bool \<Rightarrow> 's \<Rightarrow> (u8 \<times> 's) option" where
  "frame_end C fd eof s =
     (if eof then do {
        (r, s) \<leftarrow> ece391_close C fd s;
        Some (10, s)
      } else Some (48, s))"

partial_function (option) frame_loop ::
  "'s calls \<Rightarrow> int \<Rightarrow> int \<Rightarrow> mp1_blink_struct \<Rightarrow> int \<Rightarrow> u8 \<Rightarrow> u8 \<Rightarrow> bool \<Rightarrow> bool \<Rightarrow> fish \<Rightarrow> 's \<Rightarrow> (fish \<times> 's) option" where
  "frame_loop C fd0 fd1 u row c0 c1 eof0 eof1 f s =
     (if \<not> eof0 \<or> \<not> eof1 then do {
        (eof0, eof1, f, s) \<leftarrow> frame_row C fd0 fd1 u row 0 c0 c1 eof0 eof1 f s;
        (c0, s) \<leftarrow> frame_end C fd0 eof0 s;
        (c1, s) \<leftarrow> frame_end C fd1 eof1 s;
        frame_loop C fd0 fd1 u (row + 1) c0 c1 eof0 eof1 f s
      } else Some (f, s))"

text \<open>A call of \<open>ece391_halt\<close> ends the program: the result is its status. \<open>u\<close> is the uninitialised \<open>blink_struct\<close>.\<close>

definition add_frames :: "'s calls \<Rightarrow> bytes \<Rightarrow> bytes \<Rightarrow> mp1_blink_struct \<Rightarrow> fish \<Rightarrow> 's \<Rightarrow> ((u8 + fish) \<times> 's) option" where
  "add_frames C f0 f1 u f s = do {
     (fd0, s) \<leftarrow> ece391_open C f0 s;
     if fd0 < 0 then Some (Inl (- 1), s)
     else do {
       (fd1, s) \<leftarrow> ece391_open C f1 s;
       if fd1 < 0 then Some (Inl (- 1), s)
       else do {
         (f, s) \<leftarrow> frame_loop C fd0 fd1 u 0 48 48 False False f s;
         Some (Inr f, s)
       }
     }
   }"

text \<open>A number of ticks of the clock.\<close>

fun wait_ticks :: "'s calls \<Rightarrow> int \<Rightarrow> bytes \<Rightarrow> nat \<Rightarrow> fish \<Rightarrow> 's \<Rightarrow> (fish \<times> 's) option" where
  "wait_ticks C rtc_fd garbage 0 f s = Some (f, s)"
| "wait_ticks C rtc_fd garbage (Suc n) f s = do {
     (r, garbage, s) \<leftarrow> ece391_read C rtc_fd garbage 4 s;
     f \<leftarrow> mp1_rtc_tasklet f;
     wait_ticks C rtc_fd garbage n f s
   }"

definition WAIT :: nat where "WAIT = 200"

text \<open>
  \<open>u\<close> and \<open>w\<close> are the uninitialised structures of the two functions, \<open>rate\<close> is the variable \<open>ret_val\<close>,
  and the result is the status of the program or a fault.
\<close>

definition fish_main ::
  "'s calls \<Rightarrow> u32 \<Rightarrow> ('s \<Rightarrow> u32) \<Rightarrow> bytes \<Rightarrow> mp1_blink_struct \<Rightarrow> mp1_blink_struct \<Rightarrow> fish \<Rightarrow> 's \<Rightarrow> ((fault + int) \<times> 's) option"
where
  "fish_main C vmem_at vmem garbage u w f s = do {
     let f = f\<lparr>blink_array := (\<lambda>i. if i < SCREEN_SIZE then zero_blink else blink_array f i)\<rparr>;
     (base, s) \<leftarrow> mp1_set_video_mode C vmem_at vmem s;
     if base = 0 then Some (Inr (- 1), s)
     else do {
       (rtc_fd, s) \<leftarrow> ece391_open C (c_str ''rtc'') s;
       (r, s) \<leftarrow> add_frames C (c_str ''frame0.txt'') (c_str ''frame1.txt'') u f s;
       case r of
         Inl status \<Rightarrow> Some (Inr (uint status), s)
       | Inr f \<Rightarrow> do {
           let rate = (\<lambda>_. 0)(0 := 32);
           (ret_val, s) \<leftarrow> ece391_write C rtc_fd rate 4 s;
           (f, s) \<leftarrow> wait_ticks C rtc_fd garbage WAIT f s;
           let w = w\<lparr>on_char := 73, off_char := 77, on_length := 7, off_length := 6, location := 6 * 80 + 60\<rparr>;
           let (r, f) = mp1_ioctl_add w f;
           (f, s) \<leftarrow> wait_ticks C rtc_fd garbage WAIT f s;
           (r, f) \<leftarrow> mp1_ioctl_sync (push_bit 16 40 OR (6 * 80 + 60)) f;
           (f, s) \<leftarrow> wait_ticks C rtc_fd garbage WAIT f s;
           x \<leftarrow> mp1_ioctl_remove (of_nat WAIT) f;
           case x of
             Inl e \<Rightarrow> Some (Inl e, s)
           | Inr (r, f) \<Rightarrow> do {
               (f, s) \<leftarrow> wait_ticks C rtc_fd garbage (80 * 25) f s;
               (r, s) \<leftarrow> ece391_close C rtc_fd s;
               Some (Inr 0, s)
             }
         }
     }
   }"

text \<open>The two byte functions fill and copy, so a structure cleared by \<open>mp1_free\<close> is \<open>zero_blink\<close>.\<close>

lemma word_of_int_step: "0 \<le> i \<Longrightarrow> i < 2 ^ 31 \<Longrightarrow> unat (word_of_int i :: u32) = nat i"
  by (rule unat_word_of_int_range) simp_all

lemma ece391_memset_loop_eq:
  "0 \<le> i \<Longrightarrow> n < 2 ^ 31 \<Longrightarrow>
   ece391_memset_loop m c i n k = (if nat i \<le> unat k \<and> unat k < nat n then c else m k)"
proof (induction m c i n rule: ece391_memset_loop.induct)
  case (1 m c i n)
  show ?case
  proof (cases "i < n")
    case True
    then have i: "unat (word_of_int i :: u32) = nat i" using 1(2,3) by (intro word_of_int_step) simp_all
    have "k = word_of_int i \<longleftrightarrow> unat k = nat i" using i by (metis word_unat_eq_iff)
    have "nat (i + 1) = Suc (nat i)" using 1(2) by simp
    moreover have "ece391_memset_loop (m(word_of_int i := c)) c (i + 1) n k =
        (if nat (i + 1) \<le> unat k \<and> unat k < nat n then c else (m(word_of_int i := c)) k)"
      using 1(1) [OF True] 1(2,3) by (simp add: fun_upd_def)
    ultimately have "ece391_memset_loop (m(word_of_int i := c)) c (i + 1) n k = (if nat i \<le> unat k \<and> unat k < nat n then c else m k)"
      using \<open>k = word_of_int i \<longleftrightarrow> unat k = nat i\<close> True 1(2) by (cases "unat k = nat i") auto
    then show ?thesis using True by (simp add: ece391_memset_loop.simps [of m c i n])
  qed (use 1 in \<open>auto simp: ece391_memset_loop.simps [of m c i n]\<close>)
qed

lemma ece391_memcpy_loop_eq:
  "0 \<le> i \<Longrightarrow> n < 2 ^ 31 \<Longrightarrow>
   ece391_memcpy_loop d s i n k = (if nat i \<le> unat k \<and> unat k < nat n then s k else d k)"
proof (induction d s i n rule: ece391_memcpy_loop.induct)
  case (1 d s i n)
  show ?case
  proof (cases "i < n")
    case True
    then have i: "unat (word_of_int i :: u32) = nat i" using 1(2,3) by (intro word_of_int_step) simp_all
    have "k = word_of_int i \<longleftrightarrow> unat k = nat i" using i by (metis word_unat_eq_iff)
    have "nat (i + 1) = Suc (nat i)" using 1(2) by simp
    moreover have "ece391_memcpy_loop (d(word_of_int i := s (word_of_int i))) s (i + 1) n k =
        (if nat (i + 1) \<le> unat k \<and> unat k < nat n then s k else (d(word_of_int i := s (word_of_int i))) k)"
      using 1(1) [OF True] 1(2,3) by (simp add: fun_upd_def)
    ultimately have "ece391_memcpy_loop (d(word_of_int i := s (word_of_int i))) s (i + 1) n k = (if nat i \<le> unat k \<and> unat k < nat n then s k else d k)"
      using \<open>k = word_of_int i \<longleftrightarrow> unat k = nat i\<close> True 1(2) by (cases "unat k = nat i") auto
    then show ?thesis using True by (simp add: ece391_memcpy_loop.simps [of d s i n])
  qed (use 1 in \<open>auto simp: ece391_memcpy_loop.simps [of d s i n]\<close>)
qed

text \<open>The structure at the start of a piece of memory.\<close>

definition load16 :: "bytes \<Rightarrow> u32 \<Rightarrow> u16" where
  "load16 m a = ucast (m a) OR push_bit 8 (ucast (m (a + 1)))"

definition load_blink :: "(u32 \<Rightarrow> nat option) \<Rightarrow> bytes \<Rightarrow> mp1_blink_struct" where
  "load_blink slot m = \<lparr>location = load16 m 0, on_char = m 2, off_char = m 3, on_length = load16 m 4,
     off_length = load16 m 6, countdown = load16 m 8, blink_status = load16 m 10, next_blink = slot (load32 m 12)\<rparr>"

lemma memset_zero_blink: "slot 0 = None \<Longrightarrow> load_blink slot (ece391_memset m 0 16) = zero_blink"
  by (simp add: load_blink_def zero_blink_def load16_def load32_def ece391_memset_def ece391_memset_loop_eq)

lemma memcpy_blink: "load_blink slot (snd (ece391_memcpy d s 16)) = load_blink slot s"
  by (simp add: load_blink_def load16_def load32_def ece391_memcpy_def ece391_memcpy_loop_eq)

section \<open>What blinks\<close>

text \<open>The lines of a file, the text behind the last newline being one more.\<close>

function file_lines :: "u8 list \<Rightarrow> u8 list list" where
  "file_lines xs =
     (if 10 \<in> set xs then
        takeWhile (\<lambda>c. c \<noteq> 10) xs # file_lines (drop (Suc (length (takeWhile (\<lambda>c. c \<noteq> 10) xs))) xs)
      else [xs])"
  by pat_completeness auto
termination
  by (relation "measure length") (auto dest!: length_pos_if_in_set)

declare file_lines.simps [simp del, loop_unfold]

text \<open>The character of a line in a column, blank behind its end, and the line of a row.\<close>

definition char_at :: "u8 list \<Rightarrow> nat \<Rightarrow> u8" where
  "char_at l k = (if k < length l then l ! k else 32)"

definition line_of :: "u8 list list \<Rightarrow> nat \<Rightarrow> u8 list" where
  "line_of L r = (if r < length L then L ! r else [])"

text \<open>The characters of a row, from column \<open>col\<close>, and of all rows: those where not both frames are blank.\<close>

definition row_blinks :: "mp1_blink_struct \<Rightarrow> int \<Rightarrow> int \<Rightarrow> u8 list \<Rightarrow> u8 list \<Rightarrow> mp1_blink_struct list" where
  "row_blinks u row col a b = concat (map (\<lambda>k.
     if char_at a k \<noteq> 32 \<or> char_at b k \<noteq> 32 then [frame_blink u row (col + int k) (char_at a k) (char_at b k)] else [])
     [0..<max (length a) (length b)])"

definition frame_blinks :: "mp1_blink_struct \<Rightarrow> int \<Rightarrow> u8 list list \<Rightarrow> u8 list list \<Rightarrow> mp1_blink_struct list" where
  "frame_blinks u row L M =
     concat (map (\<lambda>r. row_blinks u (row + int r) 0 (line_of L r) (line_of M r)) [0..<max (length L) (length M)])"

lemma char_at_Suc: "char_at l (Suc k) = char_at (tl l) k"
  by (cases l) (simp_all add: char_at_def)

lemma line_of_Suc: "line_of L (Suc r) = line_of (tl L) r"
  by (cases L) (simp_all add: line_of_def)

lemma max_tl: "xs \<noteq> [] \<or> ys \<noteq> [] \<Longrightarrow> max (length xs) (length ys) = Suc (max (length (tl xs)) (length (tl ys)))"
  by (cases xs; cases ys) simp_all

lemma row_blinks_step:
  assumes "a \<noteq> [] \<or> b \<noteq> []"
  shows "row_blinks u row col a b =
    (if char_at a 0 \<noteq> 32 \<or> char_at b 0 \<noteq> 32 then [frame_blink u row col (char_at a 0) (char_at b 0)] else [])
      @ row_blinks u row (col + 1) (tl a) (tl b)"
  unfolding row_blinks_def max_tl [OF assms] upt_conv_Cons [OF zero_less_Suc]
  by (simp add: map_Suc_upt [symmetric] o_def char_at_Suc ac_simps del: upt_Suc cong: if_cong)

lemma frame_blinks_step:
  assumes "L \<noteq> [] \<or> M \<noteq> []"
  shows "frame_blinks u row L M = row_blinks u row 0 (line_of L 0) (line_of M 0) @ frame_blinks u (row + 1) (tl L) (tl M)"
  unfolding frame_blinks_def max_tl [OF assms] upt_conv_Cons [OF zero_less_Suc]
  by (simp add: map_Suc_upt [symmetric] o_def line_of_Suc ac_simps del: upt_Suc)

lemma blinks_Nil [simp]: "row_blinks u row col [] [] = []" "frame_blinks u row [] [] = []"
  by (simp_all add: row_blinks_def frame_blinks_def)

text \<open>The text that lines make, and the calls that add characters.\<close>

fun file_text :: "u8 list list \<Rightarrow> u8 list" where
  "file_text [] = []"
| "file_text (l # L) = l @ (if L = [] then [] else 10 # file_text L)"

lemma file_lines_text: "file_text (file_lines xs) = xs" "file_lines xs \<noteq> []" "l \<in> set (file_lines xs) \<Longrightarrow> 10 \<notin> set l"
proof (induction xs rule: file_lines.induct)
  case (1 xs)
  let ?l = "takeWhile (\<lambda>c. c \<noteq> 10) xs"
  have 10: "10 \<notin> set ?l" by (auto dest: set_takeWhileD)
  show n: "file_lines xs \<noteq> []" by (subst file_lines.simps) simp
  show "file_text (file_lines xs) = xs"
  proof (cases "10 \<in> set xs")
    case True
    then have "\<not> length xs \<le> length ?l" by (metis length_takeWhile_le le_antisym takeWhile_eq_take take_all order_refl 10)
    then have n: "length ?l < length xs" by simp
    then have "xs ! length ?l = 10" using nth_length_takeWhile by blast
    moreover have "take (length ?l) xs = ?l" by (simp add: takeWhile_eq_take [symmetric])
    ultimately have "xs = ?l @ 10 # drop (Suc (length ?l)) xs" using id_take_nth_drop [OF n] by simp
    then show ?thesis using True 1(1,2) by (subst file_lines.simps) simp
  qed (simp add: file_lines.simps)
  show "10 \<notin> set l" if "l \<in> set (file_lines xs)"
    using that 1(3) 10 by (subst (asm) file_lines.simps) (auto split: if_splits)
qed

abbreviation add_all :: "mp1_blink_struct list \<Rightarrow> fish \<Rightarrow> fish" where
  "add_all bs f \<equiv> fold (\<lambda>b f. snd (mp1_ioctl_add b f)) bs f"

section \<open>Reading two files side by side\<close>

text \<open>
  What the program relies on: the descriptors in \<open>P\<close>, of the two it opened, still deliver \<open>rest\<close>, one
  character for each read, and neither reading nor closing one changes what the other delivers.
\<close>

locale frame_files =
  fixes C :: "'s calls" and fd0 fd1 :: int and live :: "int set \<Rightarrow> 's \<Rightarrow> bool" and rest :: "int \<Rightarrow> 's \<Rightarrow> u8 list"
  assumes two: "fd0 \<noteq> fd1"
    and read_char: "live P s \<Longrightarrow> fd \<in> P \<Longrightarrow>
      \<exists>b t. ece391_read C fd buf 1 s = Some (if rest fd s = [] then 0 else 1, b, t) \<and> live P t
        \<and> rest fd t = tl (rest fd s) \<and> (\<forall>d\<in>P - {fd}. rest d t = rest d s) \<and> (rest fd s \<noteq> [] \<longrightarrow> b 0 = hd (rest fd s))"
    and close_any: "live P s \<Longrightarrow> fd \<in> {fd0, fd1} \<Longrightarrow>
      \<exists>r t. ece391_close C fd s = Some (r, t) \<and> live (P - {fd}) t \<and> (\<forall>d\<in>P - {fd}. rest d t = rest d s)"
begin

text \<open>
  A line being read: \<open>c\<close> is the last character, \<open>l\<close> what is still to come of the line, \<open>e\<close> whether it
  is the last one, \<open>r\<close> the text behind it.
\<close>

definition feeds :: "int set \<Rightarrow> int \<Rightarrow> u8 \<Rightarrow> bool \<Rightarrow> u8 list \<Rightarrow> bool \<Rightarrow> u8 list \<Rightarrow> 's \<Rightarrow> bool" where
  "feeds P fd c eof l e r s \<longleftrightarrow> 10 \<notin> set l \<and>
     (c \<noteq> 10 \<and> \<not> eof \<and> fd \<in> P \<and> rest fd s = l @ (if e then [] else 10 # r) \<and> (e \<longrightarrow> r = [])
      \<or> c = 10 \<and> l = [] \<and> eof = e \<and> (fd \<in> P \<longrightarrow> rest fd s = r))"

lemma feeds_other: "feeds P fd c eof l e r s \<Longrightarrow> (fd \<in> P \<Longrightarrow> rest fd t = rest fd s) \<Longrightarrow> feeds P fd c eof l e r t"
  by (auto simp: feeds_def)

lemma frame_char_ok:
  assumes s: "live P s" and f: "feeds P fd c eof l e r s"
  shows "\<exists>eof' t. frame_char C fd c eof s = Some (if l = [] then 10 else hd l, eof', t) \<and> live P t
    \<and> feeds P fd (if l = [] then 10 else hd l) eof' (tl l) e r t \<and> (\<forall>d\<in>P - {fd}. rest d t = rest d s)"
proof (cases "c = 10")
  case True
  then show ?thesis using s f by (auto simp: frame_char_def feeds_def)
next
  case False
  then have fd: "fd \<in> P" "\<not> eof" "rest fd s = l @ (if e then [] else 10 # r)" "e \<longrightarrow> r = []" "10 \<notin> set l"
    using f by (auto simp: feeds_def)
  obtain b t where t: "ece391_read C fd (\<lambda>_. c) 1 s = Some (if rest fd s = [] then 0 else 1, b, t)" "live P t"
    "rest fd t = tl (rest fd s)" "\<forall>d\<in>P - {fd}. rest d t = rest d s" "rest fd s \<noteq> [] \<longrightarrow> b 0 = hd (rest fd s)"
    using read_char [OF s fd(1), of "\<lambda>_. c"] by blast
  show ?thesis
  proof (cases "rest fd s = []")
    case True
    then show ?thesis using t fd False by (auto simp: frame_char_def feeds_def split: if_splits)
  next
    case ne: False
    then have "frame_char C fd c eof s = Some (b 0, eof, t)" using t(1) False by (simp add: frame_char_def)
    moreover have "b 0 = (if l = [] then 10 else hd l)" using t(5) ne fd(3) by (cases l) (auto split: if_splits)
    moreover have "feeds P fd (if l = [] then 10 else hd l) eof (tl l) e r t"
      using fd ne t(3) by (cases l) (auto simp: feeds_def split: if_splits)
    ultimately show ?thesis using t(2,4) by auto
  qed
qed

lemma frame_row_ok:
  "live P s \<Longrightarrow> feeds P fd0 c0 eof0 l0 e0 r0 s \<Longrightarrow> feeds P fd1 c1 eof1 l1 e1 r1 s \<Longrightarrow>
   \<exists>t. frame_row C fd0 fd1 u row col c0 c1 eof0 eof1 f s = Some (e0, e1, add_all (row_blinks u row col l0 l1) f, t)
     \<and> live P t \<and> (fd0 \<in> P \<longrightarrow> rest fd0 t = r0) \<and> (fd1 \<in> P \<longrightarrow> rest fd1 t = r1)"
proof (induction "max (length l0) (length l1)" arbitrary: l0 l1 c0 c1 eof0 eof1 f s col rule: less_induct)
  case less
  let ?c0 = "if l0 = [] then 10 else hd l0" and ?c1 = "if l1 = [] then 10 else hd l1"
  obtain x v where v: "frame_char C fd0 c0 eof0 s = Some (?c0, x, v)" "live P v" "feeds P fd0 ?c0 x (tl l0) e0 r0 v"
    "\<forall>d\<in>P - {fd0}. rest d v = rest d s"
    using frame_char_ok [OF less.prems(1,2)] by blast
  have f1: "feeds P fd1 c1 eof1 l1 e1 r1 v" by (rule feeds_other [OF less.prems(3)]) (use v(4) two in auto)
  obtain y w where w: "frame_char C fd1 c1 eof1 v = Some (?c1, y, w)" "live P w" "feeds P fd1 ?c1 y (tl l1) e1 r1 w"
    "\<forall>d\<in>P - {fd1}. rest d w = rest d v"
    using frame_char_ok [OF v(2) f1] by blast
  have f0: "feeds P fd0 ?c0 x (tl l0) e0 r0 w" by (rule feeds_other [OF v(3)]) (use w(4) two in auto)
  have n10: "10 \<notin> set l0" "10 \<notin> set l1" using less.prems(2,3) by (auto simp: feeds_def)
  let ?add = "?c0 \<noteq> 32 \<and> ?c0 \<noteq> 10 \<or> ?c1 \<noteq> 32 \<and> ?c1 \<noteq> 10"
  let ?f = "if ?add then snd (mp1_ioctl_add (frame_blink u row col ?c0 ?c1) f) else f"
  have r: "frame_row C fd0 fd1 u row col c0 c1 eof0 eof1 f s =
      (if ?c0 = 10 \<and> ?c1 = 10 then Some (x, y, f, w) else frame_row C fd0 fd1 u row (col + 1) ?c0 ?c1 x y ?f w)"
    using v(1) w(1) by (subst frame_row.simps) (simp only: bind.bind_lunit prod.case Let_def)
  show ?case
  proof (cases "l0 = [] \<and> l1 = []")
    case True
    then show ?thesis using r w(2,3) f0 by (auto simp: feeds_def)
  next
    case False
    then have more: "\<not> (?c0 = 10 \<and> ?c1 = 10)" using n10 by (cases l0; cases l1) auto
    have "max (length (tl l0)) (length (tl l1)) < max (length l0) (length l1)" using False by (cases l0; cases l1) auto
    from less.hyps [OF this w(2) f0 w(3), of "col + 1" ?f]
    obtain t where t: "frame_row C fd0 fd1 u row (col + 1) ?c0 ?c1 x y ?f w =
        Some (e0, e1, add_all (row_blinks u row (col + 1) (tl l0) (tl l1)) ?f, t)"
      "live P t" "fd0 \<in> P \<longrightarrow> rest fd0 t = r0" "fd1 \<in> P \<longrightarrow> rest fd1 t = r1" by blast
    have blink: "frame_blink u row col ?c0 ?c1 = frame_blink u row col (char_at l0 0) (char_at l1 0)"
      using n10 by (cases l0; cases l1) (auto simp: frame_blink_def char_at_def)
    have "?add \<longleftrightarrow> char_at l0 0 \<noteq> 32 \<or> char_at l1 0 \<noteq> 32"
      using n10 by (cases l0; cases l1) (auto simp: char_at_def)
    then have "add_all (row_blinks u row col l0 l1) f = add_all (row_blinks u row (col + 1) (tl l0) (tl l1)) ?f"
      using row_blinks_step [of l0 l1 u row col] False by (simp add: blink)
    then show ?thesis using t by (simp only: r if_not_P [OF more]) auto
  qed
qed

lemma feeds_start:
  assumes "fd \<in> P \<longleftrightarrow> L \<noteq> []" and "L \<noteq> [] \<Longrightarrow> rest fd s = file_text L" and "\<forall>l\<in>set L. 10 \<notin> set l"
  shows "feeds P fd (if L = [] then 10 else 48) (L = []) (line_of L 0) (tl L = []) (file_text (tl L)) s"
  using assms by (cases L) (auto simp: feeds_def line_of_def)

lemma frame_end_ok:
  assumes "live P s" and "fd \<in> {fd0, fd1}"
  shows "\<exists>t. frame_end C fd e s = Some (if e then 10 else 48, t) \<and> live (if e then P - {fd} else P) t
    \<and> (\<forall>d\<in>P - {fd}. rest d t = rest d s) \<and> (\<not> e \<longrightarrow> rest fd t = rest fd s)"
  using close_any [OF assms] assms(1) by (cases e) (auto simp: frame_end_def)

lemma frame_loop_ok:
  "live P s \<Longrightarrow> fd0 \<in> P \<longleftrightarrow> L \<noteq> [] \<Longrightarrow> fd1 \<in> P \<longleftrightarrow> M \<noteq> [] \<Longrightarrow>
   (L \<noteq> [] \<Longrightarrow> rest fd0 s = file_text L) \<Longrightarrow> (M \<noteq> [] \<Longrightarrow> rest fd1 s = file_text M) \<Longrightarrow>
   \<forall>l\<in>set L \<union> set M. 10 \<notin> set l \<Longrightarrow>
   \<exists>t. frame_loop C fd0 fd1 u row (if L = [] then 10 else 48) (if M = [] then 10 else 48) (L = []) (M = []) f s
     = Some (add_all (frame_blinks u row L M) f, t)"
proof (induction "max (length L) (length M)" arbitrary: L M P row f s rule: less_induct)
  case less
  let ?go = "\<lambda>L M row f s. frame_loop C fd0 fd1 u row (if L = [] then 10 else 48) (if M = [] then 10 else 48) (L = []) (M = []) f s"
  show ?case
  proof (cases "L = [] \<and> M = []")
    case True
    then show ?thesis by (simp add: frame_loop.simps)
  next
    case False
    have f0: "feeds P fd0 (if L = [] then 10 else 48) (L = []) (line_of L 0) (tl L = []) (file_text (tl L)) s"
      by (rule feeds_start) (use less.prems in auto)
    have f1: "feeds P fd1 (if M = [] then 10 else 48) (M = []) (line_of M 0) (tl M = []) (file_text (tl M)) s"
      by (rule feeds_start) (use less.prems in auto)
    let ?f = "add_all (row_blinks u row 0 (line_of L 0) (line_of M 0)) f"
    obtain v where v: "frame_row C fd0 fd1 u row 0 (if L = [] then 10 else 48) (if M = [] then 10 else 48) (L = []) (M = []) f s
        = Some (tl L = [], tl M = [], ?f, v)"
      "live P v" "fd0 \<in> P \<longrightarrow> rest fd0 v = file_text (tl L)" "fd1 \<in> P \<longrightarrow> rest fd1 v = file_text (tl M)"
      using frame_row_ok [OF less.prems(1) f0 f1] by blast
    let ?P = "if tl L = [] then P - {fd0} else P"
    obtain w where w: "frame_end C fd0 (tl L = []) v = Some (if tl L = [] then 10 else 48, w)" "live ?P w"
      "\<forall>d\<in>P - {fd0}. rest d w = rest d v" "tl L \<noteq> [] \<longrightarrow> rest fd0 w = rest fd0 v"
      using frame_end_ok [OF v(2), of fd0 "tl L = []"] by auto
    let ?Q = "if tl M = [] then ?P - {fd1} else ?P"
    obtain x where x: "frame_end C fd1 (tl M = []) w = Some (if tl M = [] then 10 else 48, x)" "live ?Q x"
      "\<forall>d\<in>?P - {fd1}. rest d x = rest d w" "tl M \<noteq> [] \<longrightarrow> rest fd1 x = rest fd1 w"
      using frame_end_ok [OF w(2), of fd1 "tl M = []"] by auto
    have ne: "tl L \<noteq> [] \<Longrightarrow> L \<noteq> []" "tl M \<noteq> [] \<Longrightarrow> M \<noteq> []" by auto
    have "\<exists>t. ?go (tl L) (tl M) (row + 1) ?f x = Some (add_all (frame_blinks u (row + 1) (tl L) (tl M)) ?f, t)"
    proof (rule less.hyps [OF _ x(2)])
      show "max (length (tl L)) (length (tl M)) < max (length L) (length M)" using max_tl [of L M] False by auto
      show "fd0 \<in> ?Q \<longleftrightarrow> tl L \<noteq> []" "fd1 \<in> ?Q \<longleftrightarrow> tl M \<noteq> []" using less.prems(2,3) ne two by auto
      show "rest fd0 x = file_text (tl L)" if "tl L \<noteq> []"
        using that v(3) w(4) x(3) less.prems(2) ne(1) two by auto
      show "rest fd1 x = file_text (tl M)" if "tl M \<noteq> []"
        using that v(4) w(3) x(4) less.prems(3) ne(2) two by auto
      show "\<forall>l\<in>set (tl L) \<union> set (tl M). 10 \<notin> set l" using less.prems(6) by (cases L; cases M) auto
    qed
    moreover have "?go L M row f s = ?go (tl L) (tl M) (row + 1) ?f x"
      using False v(1) w(1) x(1) by (subst frame_loop.simps) (auto simp only: bind.bind_lunit prod.case if_True de_Morgan_conj)
    ultimately show ?thesis using frame_blinks_step [of L M u row] False by simp
  qed
qed

end

section \<open>On the kernel\<close>

text \<open>A change of one entry of the file table leaves the other files ready.\<close>

lemma file_ready_other:
  fixes s :: "'a kernel_scheme"
  assumes r: "file_ready d s" and t: "t = upd_file (get_current_pcb s) (nat fd) g s" and fd: "2 \<le> fd" "fd \<noteq> d"
  shows "file_ready d t \<and> file_rest d t = file_rest d s"
proof -
  have d: "2 \<le> d" "d < 8" using r by (simp_all add: file_ready_def)
  have cur: "get_current_pcb t = get_current_pcb s" by (simp add: t get_current_pcb_def)
  have f: "cur_file t k = cur_file s k" if "0 \<le> k" "k \<noteq> fd" for k
    using that fd(1) unfolding cur_file_def cur by (simp add: t)
  have img: "file_bytes t k = file_bytes s k \<and> inode_ok t k = inode_ok s k"
    "file_bytes (t\<lparr>mem := m\<rparr>) k = file_bytes (s\<lparr>mem := m\<rparr>) k \<and> inode_ok (t\<lparr>mem := m\<rparr>) k = inode_ok (s\<lparr>mem := m\<rparr>) k" for k m
    by (rule image_fields; simp add: t)+
  have m: "mem t = mem s" by (simp add: t)
  have off: "off_screen t k = off_screen s k" for k unfolding off_screen_def m by (simp add: img)
  have "stdout_ok t = stdout_ok s" using f [of 1] fd(1) by (simp add: stdout_ok_def screen_inv_def) (simp add: t)
  then show ?thesis using r d fd f [of d] img(1) off by (simp add: file_ready_def file_rest_def)
qed

text \<open>Two descriptors of which those in \<open>P\<close> are open on files; the others are closed.\<close>

definition frames_live :: "int \<Rightarrow> int \<Rightarrow> int set \<Rightarrow> 'a kernel_scheme \<Rightarrow> bool" where
  "frames_live fd0 fd1 P s \<longleftrightarrow> P \<subseteq> {fd0, fd1} \<and> 2 \<le> fd0 \<and> fd0 < fd1 \<and> fd1 < 8
     \<and> (\<forall>d\<in>P. file_ready d s) \<and> (\<forall>d\<in>{fd0, fd1} - P. \<not> is_open (cur_file s d))"

lemma frames_live_read:
  assumes l: "frames_live fd0 fd1 P s" and fd: "fd \<in> P"
  shows "\<exists>b t. ece391_read (kernel_calls T dev ex ga) fd buf 1 s = Some (if file_rest fd s = [] then 0 else 1, b, t)
    \<and> frames_live fd0 fd1 P t \<and> file_rest fd t = tl (file_rest fd s) \<and> (\<forall>d\<in>P - {fd}. file_rest d t = file_rest d s)
    \<and> (file_rest fd s \<noteq> [] \<longrightarrow> b 0 = hd (file_rest fd s))"
proof -
  let ?xs = "take 1 (file_rest fd s)"
  have r: "file_ready fd s" "2 \<le> fd" "P \<subseteq> {fd0, fd1}" using l fd by (auto simp: frames_live_def)
  obtain b t g where t: "ece391_read (kernel_calls T dev ex ga) fd buf (int 1) s = Some (int (length ?xs), b, t)"
    "file_ready fd t" "file_rest fd t = drop 1 (file_rest fd s)" "\<forall>i<length ?xs. b (of_nat i) = ?xs ! i"
    "t = upd_file (get_current_pcb s) (nat fd) g s"
    using kernel_read [OF r(1) _ refl, of 1 T dev ex ga buf] by auto
  have other: "file_ready d t \<and> file_rest d t = file_rest d s" if "d \<in> P - {fd}" for d
    using file_ready_other [where s = s and g = g and fd = fd, OF _ t(5) r(2)] that l by (auto simp: frames_live_def)
  have cur: "get_current_pcb t = get_current_pcb s" by (simp add: t(5) get_current_pcb_def)
  have "cur_file t d = cur_file s d" if "d \<in> {fd0, fd1} - P" for d
    using that fd r(2) l unfolding cur_file_def cur by (auto simp: t(5) frames_live_def)
  then have "frames_live fd0 fd1 P t" using l t(2) other unfolding frames_live_def by auto
  moreover have "int (length ?xs) = (if file_rest fd s = [] then 0 else 1)" by (cases "file_rest fd s") simp_all
  moreover have "b 0 = hd (file_rest fd s)" if "file_rest fd s \<noteq> []"
    using that t(4) by (cases "file_rest fd s") auto
  ultimately show ?thesis using t(1,3) other by (auto simp: drop_Suc)
qed

lemma frames_live_close:
  assumes l: "frames_live fd0 fd1 P s" and fd: "fd \<in> {fd0, fd1}"
  shows "\<exists>r t. ece391_close (kernel_calls T dev ex ga) fd s = Some (r, t) \<and> frames_live fd0 fd1 (P - {fd}) t
    \<and> (\<forall>d\<in>P - {fd}. file_rest d t = file_rest d s)"
proof (cases "fd \<in> P")
  case False
  then have "\<not> is_open (cur_file s fd)" "P - {fd} = P" "2 \<le> fd" "fd < 8" using l fd by (auto simp: frames_live_def)
  then show ?thesis using l by (simp add: kernel_calls_def sys_close_def MAX_FILES_def)
next
  case True
  then have r: "file_ready fd s" "2 \<le> fd" using l by (auto simp: frames_live_def)
  define t where "t = upd_file (get_current_pcb s) (nat fd) (\<lambda>f. f\<lparr>flags := flags f AND NOT FILE_OPEN\<rparr>) s"
  have c: "sys_close dev fd s = (0, t)"
    using r by (simp add: t_def file_ready_def sys_close_def MAX_FILES_def file_ops_def file_close_def)
  have other: "file_ready d t \<and> file_rest d t = file_rest d s" if "d \<in> P - {fd}" for d
    using file_ready_other [where s = s and fd = fd and g = "\<lambda>f. f\<lparr>flags := flags f AND NOT FILE_OPEN\<rparr>", OF _ t_def r(2)] that l by (auto simp: frames_live_def)
  have cur: "get_current_pcb t = get_current_pcb s" by (simp add: t_def get_current_pcb_def)
  have "\<not> is_open (cur_file t fd)"
    using r(2) unfolding cur_file_def cur by (simp add: t_def is_open_def open_flag)
  moreover have "cur_file t d = cur_file s d" if "d \<in> {fd0, fd1} - P" for d
    using that True r(2) l unfolding cur_file_def cur by (auto simp: t_def frames_live_def)
  ultimately have "\<not> is_open (cur_file t d)" if "d \<in> {fd0, fd1} - (P - {fd})" for d
    using that l by (cases "d = fd") (auto simp: frames_live_def)
  then have "frames_live fd0 fd1 (P - {fd}) t" using l other unfolding frames_live_def by auto
  then show ?thesis using c other by (simp add: kernel_calls_def)
qed

interpretation kernel_frames: frame_files "kernel_calls T dev ex ga" "int n" "int n + 1" "frames_live (int n) (int n + 1)" file_rest
  for T dev ex ga n
  by unfold_locales (simp, use frames_live_read in blast, use frames_live_close in blast)

text \<open>Opening a file when the descriptors below \<open>n\<close> are in use.\<close>

definition files_upto :: "nat \<Rightarrow> 'a kernel_scheme \<Rightarrow> bool" where
  "files_upto n s \<longleftrightarrow> (\<forall>k<8. is_open (cur_files s k) \<longleftrightarrow> k < n)"

lemma file_ready_ports:
  fixes t :: "'a kernel_scheme"
  assumes "u = t\<lparr>io := es, intr := b, int_occur := oc, slave_mask := m\<rparr>"
  shows "file_ready d u = file_ready d t" "file_rest d u = file_rest d t"
proof -
  have cur: "get_current_pcb u = get_current_pcb t" by (simp add: assms get_current_pcb_def)
  have f: "cur_file u k = cur_file t k" for k unfolding cur_file_def cur by (simp add: assms)
  have img: "file_bytes u k = file_bytes t k \<and> inode_ok u k = inode_ok t k"
    "file_bytes (u\<lparr>mem := m\<rparr>) k = file_bytes (t\<lparr>mem := m\<rparr>) k \<and> inode_ok (u\<lparr>mem := m\<rparr>) k = inode_ok (t\<lparr>mem := m\<rparr>) k" for k m
    by (rule image_fields; simp add: assms)+
  have m: "mem u = mem t" by (simp add: assms)
  have off: "off_screen u k = off_screen t k" for k unfolding off_screen_def m by (simp add: img)
  have "stdout_ok u = stdout_ok t" by (simp add: stdout_ok_def screen_inv_def f) (simp add: assms)
  then show "file_ready d u = file_ready d t" "file_rest d u = file_rest d t"
    using off img(1) by (simp_all add: file_ready_def file_rest_def f)
qed

lemma open_next_file:
  fixes s :: "'a kernel_scheme"
  assumes d: "read_dentry_by_name s name = Some d" "file_type d = FILE_TYPE_FILE" and n: "files_upto n s" "2 \<le> n" "n < 8"
    and s: "stdout_ok s" "inode_ok s (inode_num d)" "off_screen s (inode_num d)"
  shows "\<exists>t. sys_open dev (Some name) s = (int n, t) \<and> file_ready (int n) t
    \<and> file_rest (int n) t = map show_char (file_bytes s (inode_num d)) \<and> files_upto (Suc n) t
    \<and> (\<forall>name. read_dentry_by_name t name = read_dentry_by_name s name)
    \<and> (\<forall>k. inode_ok t k = inode_ok s k \<and> off_screen t k = off_screen s k \<and> file_bytes t k = file_bytes s k)
    \<and> (\<forall>k. k \<noteq> int n \<longrightarrow> file_ready k s \<longrightarrow> file_ready k t \<and> file_rest k t = file_rest k s)"
proof -
  have slot: "find_slot 6 2 (cur_files s) = Some n" using n by (auto simp: find_slot_Some files_upto_def)
  obtain t where t: "sys_open dev (Some name) s = (int n, t)" "file_ready (int n) t"
    "file_rest (int n) t = map show_char (file_bytes s (inode_num d))"
    using file_ready_open [OF d slot s] by blast
  have ops: "type_ops (file_type d) = Some file_ops" using d(2) by (simp add: type_ops_def const_defs)
  let ?g = "\<lambda>f. \<lparr>inode = inode_num d, flags = flags f OR FILE_OPEN, pos = 0, fileops = file_ops\<rparr>"
  define u where "u = upd_file (get_current_pcb s) (nat (int n)) ?g s"
  obtain es b oc m where v: "t = u\<lparr>io := es, intr := b, int_occur := oc, slave_mask := m\<rparr>"
    using sys_open_ok [OF d(1) slot ops, of dev] t(1) unfolding u_def by fastforce
  have cur: "get_current_pcb t = get_current_pcb s" by (simp add: v u_def get_current_pcb_def)
  have "cur_files t = (cur_files s)(n := ?g (cur_files s n))" unfolding cur_files_def cur by (simp add: v u_def)
  then have "files_upto (Suc n) t" using n(1) by (auto simp: files_upto_def is_open_def open_flag FILE_OPEN_nonzero)
  moreover have "read_dentry_by_name t name = read_dentry_by_name s name" for name
    using dir_fields [of t s] by (simp add: read_dentry_by_name_find) (simp add: v u_def)
  moreover have img: "file_bytes t k = file_bytes s k \<and> inode_ok t k = inode_ok s k"
    "file_bytes (t\<lparr>mem := m\<rparr>) k = file_bytes (s\<lparr>mem := m\<rparr>) k \<and> inode_ok (t\<lparr>mem := m\<rparr>) k = inode_ok (s\<lparr>mem := m\<rparr>) k" for k m
    by (rule image_fields; simp add: v u_def)+
  moreover have "off_screen t k = off_screen s k" for k
  proof -
    have "mem t = mem s" by (simp add: v u_def)
    then show ?thesis unfolding off_screen_def by (simp add: img)
  qed
  moreover have "file_ready k t \<and> file_rest k t = file_rest k s" if "k \<noteq> int n" "file_ready k s" for k
    using file_ready_other [where s = s and g = ?g and fd = "int n", OF that(2) u_def] that(1) n(2) file_ready_ports [OF v] by simp
  ultimately show ?thesis using t by blast
qed

section \<open>The two frames on the screen\<close>

lemma add_all_run: "blink_run (map Add bs) f = Some (Inr (add_all bs f))"
  by (induction bs arbitrary: f) simp_all

lemma spec_adds:
  "\<forall>b\<in>set bs. location b < 80 * 25 \<Longrightarrow> length xs + length bs \<le> SCREEN_SIZE \<Longrightarrow>
   fold spec_call (map Add bs) (xs, v) = (rev (map new_blink bs) @ xs, fold (\<lambda>b v. v(cell b := on_char b)) bs v)"
  by (induction bs arbitrary: xs v) simp_all

text \<open>Frames of at most 25 lines of at most 40 characters fit on the right half of the screen.\<close>

definition fits :: "u8 list list \<Rightarrow> bool" where
  "fits L \<longleftrightarrow> length L \<le> 25 \<and> (\<forall>l\<in>set L. length l \<le> 40)"

lemma fits_line: "fits L \<Longrightarrow> length (line_of L r) \<le> 40"
  by (auto simp: fits_def line_of_def)

lemma length_concat_le: "(\<And>x. x \<in> set xs \<Longrightarrow> length x \<le> n) \<Longrightarrow> length (concat xs) \<le> length xs * n"
  by (induction xs) (auto simp: add_mono)

lemma frame_blinks_fit:
  assumes "fits L" and "fits M"
  shows "length (frame_blinks u 0 L M) \<le> SCREEN_SIZE"
    and "b \<in> set (frame_blinks u 0 L M) \<Longrightarrow> location b \<noteq> 0 \<and> location b < 80 * 25"
proof -
  have l: "length (row_blinks u row 0 (line_of L r) (line_of M r)) \<le> 40" for row r
  proof -
    have "length (row_blinks u row 0 (line_of L r) (line_of M r)) \<le> max (length (line_of L r)) (length (line_of M r)) * 1"
      unfolding row_blinks_def by (rule order_trans [OF length_concat_le [where n = 1]]) (auto split: if_splits)
    then show ?thesis using fits_line [OF assms(1), of r] fits_line [OF assms(2), of r] by simp
  qed
  have "length (frame_blinks u 0 L M) \<le> max (length L) (length M) * 40"
    unfolding frame_blinks_def by (rule order_trans [OF length_concat_le [where n = 40]]) (use l in auto)
  also have "\<dots> \<le> SCREEN_SIZE" using assms by (simp add: fits_def SCREEN_SIZE_def)
  finally show "length (frame_blinks u 0 L M) \<le> SCREEN_SIZE" .
  assume "b \<in> set (frame_blinks u 0 L M)"
  then obtain r k where rk: "r < max (length L) (length M)" "k < max (length (line_of L r)) (length (line_of M r))"
    "location b = word_of_int (int r * 80 + int k + 40)"
    by (auto simp: frame_blinks_def row_blinks_def frame_blink_def split: if_splits)
  have "r < 25" "k < 40" using rk(1,2) assms fits_line [OF assms(1), of r] fits_line [OF assms(2), of r] by (auto simp: fits_def)
  moreover have "int r * 80 + int k + 40 = int (r * 80 + k + 40)" by simp
  then have loc: "location b = of_nat (r * 80 + k + 40)" using rk(3) by (simp only: of_int_of_nat_eq)
  ultimately have "unat (location b) = r * 80 + k + 40" unfolding loc by (simp add: unat_of_nat del: of_nat_add of_nat_mult)
  then show "location b \<noteq> 0 \<and> location b < 80 * 25"
    using \<open>r < 25\<close> \<open>k < 40\<close> by (auto simp: word_less_nat_alt)
qed

lemma add_frames_kernel:
  fixes s :: "'a kernel_scheme"
  assumes d: "read_dentry_by_name s f0 = Some d0" "file_type d0 = FILE_TYPE_FILE" "inode_ok s (inode_num d0)" "off_screen s (inode_num d0)"
    and e: "read_dentry_by_name s f1 = Some d1" "file_type d1 = FILE_TYPE_FILE" "inode_ok s (inode_num d1)" "off_screen s (inode_num d1)"
    and n: "files_upto n s" "2 \<le> n" "n < 7" and s: "stdout_ok s"
  shows "\<exists>t. add_frames (kernel_calls T dev ex ga) f0 f1 u f s = Some (Inr (add_all (frame_blinks u 0
    (file_lines (map show_char (file_bytes s (inode_num d0)))) (file_lines (map show_char (file_bytes s (inode_num d1))))) f), t)"
proof -
  have n8: "n < 8" "2 \<le> Suc n" "Suc n < 8" using n by simp_all
  obtain v where v: "sys_open dev (Some f0) s = (int n, v)" "file_ready (int n) v"
    "file_rest (int n) v = map show_char (file_bytes s (inode_num d0))" "files_upto (Suc n) v"
    "\<And>name. read_dentry_by_name v name = read_dentry_by_name s name"
    "\<And>k. inode_ok v k = inode_ok s k \<and> off_screen v k = off_screen s k \<and> file_bytes v k = file_bytes s k"
    using open_next_file [OF d(1,2) n(1,2) n8(1) s d(3,4), of dev] by blast
  have "stdout_ok v" using v(2) by (simp add: file_ready_def)
  then obtain w where w: "sys_open dev (Some f1) v = (int (Suc n), w)" "file_ready (int (Suc n)) w"
    "file_rest (int (Suc n)) w = map show_char (file_bytes s (inode_num d1))"
    "file_ready (int n) w" "file_rest (int n) w = file_rest (int n) v"
    using open_next_file [of v f1 d1 "Suc n" dev] v(2,4-6) e n8 by auto
  let ?P = "{int n, int n + 1}" and ?L = "file_lines (map show_char (file_bytes s (inode_num d0)))"
    and ?M = "file_lines (map show_char (file_bytes s (inode_num d1)))"
  have live: "frames_live (int n) (int n + 1) ?P w" using w(2,4) n by (simp add: frames_live_def add.commute)
  have "\<exists>t. frame_loop (kernel_calls T dev ex ga) (int n) (int n + 1) u 0 (if ?L = [] then 10 else 48) (if ?M = [] then 10 else 48)
      (?L = []) (?M = []) f w = Some (add_all (frame_blinks u 0 ?L ?M) f, t)"
    by (rule kernel_frames.frame_loop_ok [OF live])
      (use w(3,5) v(3) file_lines_text in \<open>auto simp: add.commute\<close>)
  then obtain t where "frame_loop (kernel_calls T dev ex ga) (int n) (int n + 1) u 0 48 48 False False f w
      = Some (add_all (frame_blinks u 0 ?L ?M) f, t)"
    using file_lines_text(2) by auto
  moreover have "ece391_open (kernel_calls T dev ex ga) f0 s = Some (int n, v)" "ece391_open (kernel_calls T dev ex ga) f1 v = Some (int n + 1, w)"
    using v(1) w(1) by (simp_all add: kernel_calls_def add.commute)
  ultimately show ?thesis by (simp add: add_frames_def)
qed



end
