(* ===== verification/Spec2Isabelle.thy ===== *)
theory Spec2Isabelle
  imports System SysErr Entry Listing Pingpong Grep Sigtest Fish
begin

text \<open>
  ApollOS, a small x86 kernel: three text terminals, each running a stack of processes that one
  another execute, on one processor with interrupts from a keyboard and a real-time clock, with
  programs and data in a read-only image in memory. The sources are under
  \<^verbatim>\<open>src/student-distrib\<close>; this development models its C code and the inline assembly of it.

  \<^bold>\<open>State.\<close> One record, extended component by component, holds the globals of the kernel:
  \<open>machine\<close> (memory, port accesses, interrupt flag), \<open>console\<close> (cursor), \<open>pic\<close> (interrupt masks),
  \<open>rtc\<close> (the flag of the clock), \<open>paging\<close> (page tables, and the entries as last loaded), \<open>rofs\<close> (the
  three pointers into the image) and \<open>kernel\<close> (terminals, keyboard, process control blocks, task state
  segment fields, stack registers). An operation is a function on that record, polymorphic in the
  fields that come later, so that a driver works on the whole kernel. Integers have their C width
  where they can wrap; C strings and buffers are memories seen from a pointer. Null pointers,
  accesses outside an array and page faults are values of \<open>fault\<close>; a call that may not return is an
  option.

  \<^bold>\<open>Theories.\<close> In the order of imports:
  \<^item> \<open>Prelude\<close>: machine words, memories, pointers, C strings, loop induction, the theorem
    collections \<open>const_defs\<close>, \<open>loop_unfold\<close> and \<open>frame_simps\<close>.
  \<^item> \<open>CStrings\<close>, \<open>BlockMem\<close>: the string functions and the block operations of \<^verbatim>\<open>lib.c\<close>; each is
    shown equal to what C promises of it (for \<open>itoa\<close>, that the text reads back as the number).
  \<^item> \<open>Machine\<close>, \<open>Screen\<close>: ports and interrupts of \<^verbatim>\<open>lib.h\<close>; printing in \<^verbatim>\<open>lib.c\<close>. \<open>putc\<close> refines
    output on a grid of lines. The locale \<open>char_sink\<close> lifts what \<open>putc\<close> keeps to all printing.
  \<^item> \<open>PIC\<close>, \<open>RTC\<close>: the drivers \<^verbatim>\<open>i8259.c\<close> and \<^verbatim>\<open>rtc.c\<close>, with the chips' reading of the port
    accesses as specification; locale \<open>irq_lines\<close> for sequences of enable and disable calls.
  \<^item> \<open>Paging\<close>: \<^verbatim>\<open>paging.c\<close> and the page walk of the processor.
  \<^item> \<open>Rofs\<close>: lookup and reading of \<^verbatim>\<open>rofs.c\<close>, against lists of entries and of bytes; locale
    \<open>seq_reader\<close> for reading in chunks.
  \<^item> \<open>Process\<close>, \<open>Terminal\<close>, \<open>Files\<close>: control blocks, the terminal driver of \<^verbatim>\<open>terminal.c\<close>, and open
    files with the system calls on them in \<^verbatim>\<open>syscalls.c\<close>. The locale \<open>driver\<close> states what every
    operation behind a \<open>fileops_t\<close> keeps; it is interpreted for all operations the tables can hold.
  \<^item> \<open>Exec\<close>, \<open>Procs\<close>: \<open>execute\<close>, \<open>halt\<close>, \<open>getargs\<close>, \<open>vidmap\<close> and the starting and switching of
    terminals; \<open>Exec\<close> shows what a program finds when it starts, \<open>Procs\<close> that \<open>execute\<close> pushes and
    \<open>halt\<close> pops on an abstract stack of processes per terminal (\<open>procs\<close>, \<open>proc_rel\<close>).
  \<^item> \<open>Keyboard\<close>: the handler of \<^verbatim>\<open>keyboard.c\<close>; a typed line is what a waiting \<open>terminal_read\<close> returns.
  \<^item> \<open>IDT\<close>: the table of \<^verbatim>\<open>idt.c\<close> and the exceptions.
  \<^item> \<open>Boot\<close>, \<open>System\<close>: the start of the kernel in \<^verbatim>\<open>kernel.c\<close>, and the kernel as a step relation
    with an invariant of the reachable states, from which the isolation of processes follows.
  \<^item> \<open>Entry\<close>: the rest of \<open>entry\<close> in \<^verbatim>\<open>kernel.c\<close>, which reports the boot loader's information (structures
    of \<^verbatim>\<open>multiboot.h\<close>) and makes the segment descriptors of \<^verbatim>\<open>x86_desc.h\<close>; when it returns and when
    it starts the kernel. Below, this theory ties it to the reachable states. \<open>Listing\<close> is
    \<open>list_all_files\<close> of \<^verbatim>\<open>rofs.c\<close>, which prints the directory and which nothing calls.

  \<^item> \<open>UserLib\<close>, \<open>Programs\<close>, \<open>SysErr\<close>: the user programs of \<^verbatim>\<open>src/syscalls\<close> and their library. A
    program is a function of a record of system calls. What it relies on is a locale (\<open>text_out\<close> for
    writing, \<open>text_file\<close> and \<open>text_dir\<close> for reading to the end, \<open>strict_calls\<close> for the refusal of bad
    calls), interpreted on the system calls of the kernel's model: so \<open>cat\<close> prints the file, \<open>ls\<close> the
    directory, \<open>hello\<close>, \<open>counter\<close> and the shell answer a typed line, and the kernel passes the error
    tests of \<^verbatim>\<open>ece391syserr.c\<close>. \<open>Pingpong\<close> is the animation \<^verbatim>\<open>ece391pingpong.c\<close>: what its lines look
    like, and that it does not end.
  \<^item> \<open>Grep\<close>: \<^verbatim>\<open>ece391grep.c\<close>; on one file it prints exactly the lines with the pattern, through its
    buffer of 1024 bytes, from which an unfinished line is carried over to the next read (locale
    \<open>closing_file\<close>, a \<open>text_file\<close> that can be closed).
  \<^item> \<open>Sigtest\<close>: \<^verbatim>\<open>ece391sigtest.c\<close>, which a page fault ends on this kernel.
  \<^item> \<open>Blink\<close>, \<open>Fish\<close>: the animation in \<^verbatim>\<open>src/fish\<close>. \<open>Blink\<close> is the linked list of \<^verbatim>\<open>blink.S\<close>, label by
    label, in the array that \<^verbatim>\<open>fish.c\<close> allocates from; it refines a sequence of characters
    (\<open>spec_call\<close>, \<open>fish_rel\<close>). \<open>Fish\<close> is \<^verbatim>\<open>fish.c\<close>: which characters the two frames make blink, with
    the reading of two files side by side as the locale \<open>frame_files\<close>. Its video memory and its array
    are values of the program's own, not user memory of the kernel.

  \<^bold>\<open>How the code's control flow is modelled.\<close> \<open>execute\<close> does not return to its caller but enters
  user code, and \<open>halt\<close> jumps into the \<open>execute\<close> of the parent; the type \<open>outcome\<close> names the three
  ways such a call ends. \<open>terminal_load\<close> puts back the stack pointer saved by an earlier
  \<open>terminal_save\<close>; both are called at the same depth of \<open>switch_terminal\<close>, so that it returns to the
  place where the loaded terminal was left. Loops with a bound in the code are recursive functions
  with a measure. Loops that only a value in memory ends are partial functions with the result
  \<open>None\<close> when they do not end; for those that matter it is proved when they end. \<open>terminal_read\<close>
  and \<open>rtc_read\<close>, which wait for an interrupt, are \<open>None\<close> in a state in which the flag they wait for
  is not set.

  \<^bold>\<open>Parameters.\<close> The hardware's answers to port reads (\<open>device\<close>), the addresses the linker gives
  the page tables (\<open>tables\<close>, with alignment and distinctness as hypothesis \<open>tables_ok\<close>) and the
  handlers, and the contents of the file system image. For the user programs, what \<open>execute\<close> and
  \<open>getargs\<close> give the program that calls them, and what the stack holds where its buffers are.

  \<^bold>\<open>Not modelled.\<close> The assembly files, but for the check of the system call number: saving of
  registers around handlers, the instructions that load descriptor tables. The overflow of a kernel stack. Interrupts between two statements of a
  system call: in \<open>System\<close> a call runs to its end before the next interrupt. The user programs
  run on the system calls as functions, not as machine code in user memory: their buffers are
  values, so a fault on one is not seen, but for the null pointer of \<open>Sigtest\<close>. The search of \<open>grep\<close> over the whole directory (defined, nothing is proved of it), and
  the Linux emulation of the system calls, which is code for another system.
\<close>

section \<open>From the boot loader to a running kernel\<close>

lemma booting_kernel:
  fixes s :: "'a segments_scheme"
  assumes "booting s v"
  shows "processes_flags (set_tss e tss (set_ldt d ldt v)) = processes_flags s"
    and "pg (set_tss e tss (set_ldt d ldt v)) = pg s"
  using assms by (auto simp: booting_def set_tss_def set_ldt_def Let_def)


lemma boot_kernel_enters:
  "\<exists>t. entry some_tables no_desc no_desc 0x700000 0x700100 0x2BADB002 0x600000 boot_kernel =
     Some (Inr (Started (EnterUser (entry_point tiny_program)), t))"
proof -
  let ?m = "MULTIBOOT_BOOTLOADER_MAGIC"
  have base: "0x500000 = mod_start (module_at (mem boot_kernel) (mods_addr (multiboot_info_at (mem boot_kernel) 0x600000)))"
    and f: "CHECK_FLAG (mb_flags (multiboot_info_at (mem boot_kernel) 0x600000)) 3 \<noteq> 0"
      "off_cells 16 (mods_addr (multiboot_info_at (mem boot_kernel) 0x600000))"
    and fl: "\<not> (CHECK_FLAG (mb_flags (multiboot_info_at (mem boot_kernel) 0x600000)) 4 \<noteq> 0
      \<and> CHECK_FLAG (mb_flags (multiboot_info_at (mem boot_kernel) 0x600000)) 5 \<noteq> 0)"
    using boot_kernel_info by (simp_all add: boot_kernel_mem)
  from entry_enters [OF boot_kernel_mem(2) boot_kernel_info(4) refl f base fl, of some_tables no_desc no_desc "0x700000" "0x700100"]
  obtain v where v: "entry some_tables no_desc no_desc 0x700000 0x700100 ?m 0x600000 boot_kernel =
      Some (map_sum id (\<lambda>(r, s). (Started r, s))
        (start_kernel some_tables (set_tss no_desc 0x700100 (set_ldt no_desc 0x700000 v))))"
    "booting boot_kernel v" "boot_block v = 0x500000" "inodes v = 0x500000 + BLOCK_SIZE"
    "off_cells 8 0x500000 \<longrightarrow> data_blocks v = 0x500000 + BLOCK_SIZE + load32 (mem boot_kernel) (0x500000 + 4) * BLOCK_SIZE"
    by blast
  let ?u = "set_tss no_desc 0x700100 (set_ldt no_desc 0x700000 v)"
  have same: "mem v a = boot_image a" if "0xB9000 \<le> a" for a
    using v(2) text_cells_below [OF that] by (simp add: booting_def boot_kernel_mem)
  have "load32 boot_image 0x500004 = 1"
    by (simp add: load32_def boot_image_def prog_image_def tiny_image_def)
  then have "data_blocks v = 0x502000" "inodes v = 0x501000"
    using v(4,5) by (simp_all add: off_cells_above boot_kernel_mem BLOCK_SIZE_def)
  moreover have "mem v a = prog_image a" if "0x500000 \<le> unat a" "unat a < 0x503000" for a
    using that same [of a] by (simp add: word_le_nat_alt boot_image_def) auto
  ultimately have img: "image_at ?u"
    using v(3) by (simp add: image_at_def set_tss_def set_ldt_def Let_def)
  have "processes_flags ?u = 0"
    using booting_kernel(1) [OF v(2)] by (simp add: boot_kernel_def kernel.defs)
  from start_kernel_shell [OF img this, of some_tables]
  show ?thesis using v(1) by (auto simp: MULTIBOOT_BOOTLOADER_MAGIC_def)
qed


end
